(* ===== verification/Ava_Prelude.thy ===== *)
theory Ava_Prelude
  imports Main "HOL-Library.Word" "HOL-Library.Multiset" "HOL-Library.AList"
begin

text \<open>
  Shared vocabulary of the development: the machine-integer operations the
  sources use on values kept as \<open>nat\<close> (saturating and checked
  arithmetic of \<^verbatim>\<open>u32\<close>, \<^verbatim>\<open>u64\<close> and \<^verbatim>\<open>i32\<close>), fixed arrays of two elements,
  and the ordered and unordered maps of the Rust standard library.

  \<^item> \<^verbatim>\<open>BTreeMap\<close> is an association list kept strictly sorted by key
    (\<open>bt_get\<close>, \<open>bt_insert\<close>, \<open>bt_remove\<close>); iteration is the list order, which is
    the ascending key order the Rust type guarantees.
  \<^item> \<^verbatim>\<open>BTreeSet\<close> is a strictly sorted list (\<open>bs_insert\<close>, \<open>bs_remove\<close>).
  \<^item> \<^verbatim>\<open>HashMap\<close> is an association list with distinct keys in an arbitrary
    order (\<open>AList.update\<close>, \<open>map_of\<close>): a statement about every such list covers
    every iteration order.
\<close>

section \<open>Collections of simplification rules\<close>

named_theorems rust_int_defs \<open>definitions of the machine-integer operations\<close>
named_theorems map_simps \<open>lookup after insert and remove, on the map models\<close>

section \<open>Machine integers\<close>

type_synonym u8 = "8 word"

definition u32_max :: nat where
  "u32_max = 2 ^ 32 - 1"

definition u64_max :: nat where
  "u64_max = 2 ^ 64 - 1"

definition i32_max :: int where
  "i32_max = 2 ^ 31 - 1"

definition i32_min :: int where
  "i32_min = - (2 ^ 31)"

definition sat_add32 :: "nat \<Rightarrow> nat \<Rightarrow> nat" where
  "sat_add32 a b = min (a + b) u32_max"

definition sat_add64 :: "nat \<Rightarrow> nat \<Rightarrow> nat" where
  "sat_add64 a b = min (a + b) u64_max"

definition sat_add_i32 :: "int \<Rightarrow> int \<Rightarrow> int" where
  "sat_add_i32 a b = max i32_min (min (a + b) i32_max)"

definition sat_sub_i32 :: "int \<Rightarrow> int \<Rightarrow> int" where
  "sat_sub_i32 a b = max i32_min (min (a - b) i32_max)"

definition i64_max :: int where
  "i64_max = 2 ^ 63 - 1"

definition i64_min :: int where
  "i64_min = - (2 ^ 63)"

definition sat_add_i64 :: "int \<Rightarrow> int \<Rightarrow> int" where
  "sat_add_i64 a b = max i64_min (min (a + b) i64_max)"

definition sat_sub_i64 :: "int \<Rightarrow> int \<Rightarrow> int" where
  "sat_sub_i64 a b = max i64_min (min (a - b) i64_max)"

text \<open>\<^verbatim>\<open>u32::try_from(n).unwrap_or(u32::MAX)\<close>.\<close>

definition clamp_u32 :: "nat \<Rightarrow> nat" where
  "clamp_u32 n = (if n \<le> u32_max then n else u32_max)"

lemmas u32_max_value = u32_max_def [simplified]
lemmas u64_max_value = u64_max_def [simplified]

declare sat_add32_def [rust_int_defs] sat_add64_def [rust_int_defs]
  sat_add_i32_def [rust_int_defs] sat_sub_i32_def [rust_int_defs]
  clamp_u32_def [rust_int_defs]

lemma sat_add32_le: "sat_add32 a b \<le> u32_max"
  by (simp add: sat_add32_def)

lemma sat_add32_eq: "a + b \<le> u32_max \<Longrightarrow> sat_add32 a b = a + b"
  by (simp add: sat_add32_def)

lemma sat_add32_pos: "0 < b \<Longrightarrow> 0 < sat_add32 a b"
  by (simp add: sat_add32_def u32_max_def)

lemma sat_add32_mono: "a \<le> a' \<Longrightarrow> sat_add32 a b \<le> sat_add32 a' b"
  by (simp add: sat_add32_def)

text \<open>A counter that stayed below a 32-bit threshold has not saturated.\<close>

lemma sat_add32_below:
  assumes "sat_add32 a b < t" and "t \<le> u32_max"
  shows "sat_add32 a b = a + b"
  using assms by (simp add: sat_add32_def)

lemma sat_add_i32_small:
  "0 \<le> a \<Longrightarrow> a \<le> 256 \<Longrightarrow> sat_add_i32 a 1 = a + 1"
  by (simp add: sat_add_i32_def i32_min_def i32_max_def)

lemma sat_sub_i32_small:
  "0 \<le> a \<Longrightarrow> a \<le> 256 \<Longrightarrow> sat_sub_i32 a 1 = a - 1"
  by (simp add: sat_sub_i32_def i32_min_def i32_max_def)

lemma clamp_u32_less_iff:
  "t \<le> u32_max \<Longrightarrow> clamp_u32 n < t \<longleftrightarrow> n < t"
  by (auto simp: clamp_u32_def)

lemma clamp_u32_mono: "m \<le> n \<Longrightarrow> clamp_u32 m \<le> clamp_u32 n"
  by (auto simp: clamp_u32_def)

section \<open>Arrays of two elements\<close>

text \<open>
  The binary snow instances index arrays of length two by a choice that is 0
  or 1, and reach the other entry as \<^verbatim>\<open>idx ^ 1\<close>.
\<close>

datatype 'a arr2 = A2 (at0: 'a) (at1: 'a)

definition get2 :: "'a arr2 \<Rightarrow> nat \<Rightarrow> 'a" where
  "get2 a i = (if i = 0 then at0 a else at1 a)"

definition set2 :: "'a arr2 \<Rightarrow> nat \<Rightarrow> 'a \<Rightarrow> 'a arr2" where
  "set2 a i v = (if i = 0 then A2 v (at1 a) else A2 (at0 a) v)"

definition other :: "nat \<Rightarrow> nat" where
  "other i = (if i = 0 then 1 else 0)"

lemma get2_A2 [simp]: "get2 (A2 x y) i = (if i = 0 then x else y)"
  by (simp add: get2_def)

lemma set2_A2 [simp]: "set2 (A2 x y) i v = (if i = 0 then A2 v y else A2 x v)"
  by (simp add: set2_def)

lemma other_simps [simp]: "other 0 = 1" "other (Suc 0) = 0" "other i \<noteq> i"
  by (auto simp: other_def)

lemma other_less: "other i < 2"
  by (simp add: other_def)

lemma other_other: "i < 2 \<Longrightarrow> other (other i) = i"
  by (auto simp: other_def)

lemma get2_set2_same [simp]: "get2 (set2 a i v) i = v"
  by (cases a) simp

lemma get2_set2_other [simp]:
  "i < 2 \<Longrightarrow> j < 2 \<Longrightarrow> i \<noteq> j \<Longrightarrow> get2 (set2 a i v) j = get2 a j"
  by (cases a) auto

lemma less_2_cases_nat: "(i::nat) < 2 \<longleftrightarrow> i = 0 \<or> i = 1"
  by auto

lemma all_less_2: "(\<forall>i<2. P (i::nat)) \<longleftrightarrow> P 0 \<and> P 1"
  by (auto simp: less_2_cases_nat)

section \<open>Ordered maps\<close>

type_synonym ('k, 'v) btree = "('k \<times> 'v) list"

abbreviation bt_keys :: "('k, 'v) btree \<Rightarrow> 'k list" where
  "bt_keys m \<equiv> map fst m"

definition bt_wf :: "('k::linorder, 'v) btree \<Rightarrow> bool" where
  "bt_wf m \<longleftrightarrow> sorted_wrt (<) (bt_keys m)"

abbreviation bt_get :: "('k, 'v) btree \<Rightarrow> 'k \<Rightarrow> 'v option" where
  "bt_get m k \<equiv> map_of m k"

fun bt_insert :: "'k::linorder \<Rightarrow> 'v \<Rightarrow> ('k, 'v) btree \<Rightarrow> ('k, 'v) btree" where
  "bt_insert k v [] = [(k, v)]"
| "bt_insert k v ((k', v') # m) =
     (if k < k' then (k, v) # (k', v') # m
      else if k = k' then (k, v) # m
      else (k', v') # bt_insert k v m)"

fun bt_remove :: "'k \<Rightarrow> ('k, 'v) btree \<Rightarrow> ('k, 'v) btree" where
  "bt_remove k [] = []"
| "bt_remove k ((k', v') # m) = (if k = k' then m else (k', v') # bt_remove k m)"

lemma bt_wf_Nil [simp]: "bt_wf []"
  by (simp add: bt_wf_def)

lemma bt_wf_Cons [simp]:
  "bt_wf ((k, v) # m) \<longleftrightarrow> (\<forall>k' \<in> set (bt_keys m). k < k') \<and> bt_wf m"
  by (simp add: bt_wf_def)

lemma bt_wf_distinct: "bt_wf m \<Longrightarrow> distinct (bt_keys m)"
  by (simp add: bt_wf_def strict_sorted_iff)

lemma set_keys_insert [simp]:
  "fst ` set (bt_insert k v m) = insert k (fst ` set m)"
  by (induction k v m rule: bt_insert.induct) auto

lemma bt_wf_insert [simp]: "bt_wf m \<Longrightarrow> bt_wf (bt_insert k v m)"
proof (induction k v m rule: bt_insert.induct)
  case (2 k v k' v' m)
  have "fst x = k \<or> fst x \<in> fst ` set m" if "x \<in> set (bt_insert k v m)" for x
    using that set_keys_insert [of k v m] by blast
  with 2 show ?case by fastforce
qed simp

lemma bt_get_insert [map_simps]:
  "bt_get (bt_insert k v m) = (bt_get m)(k \<mapsto> v)"
  by (induction k v m rule: bt_insert.induct) (auto simp: fun_eq_iff)

lemma bt_get_remove [map_simps]:
  "bt_wf m \<Longrightarrow> bt_get (bt_remove k m) = (bt_get m)(k := None)"
proof (induction k m rule: bt_remove.induct)
  case (2 k k' v' m)
  then show ?case
    by (auto simp: fun_eq_iff map_of_eq_None_iff)
qed simp

lemma set_bt_remove_subset: "set (bt_remove k m) \<subseteq> set m"
  by (induction k m rule: bt_remove.induct) auto

lemma bt_wf_remove [simp]: "bt_wf m \<Longrightarrow> bt_wf (bt_remove k m)"
proof (induction k m rule: bt_remove.induct)
  case (2 k k' v' m)
  then show ?case using set_bt_remove_subset [of k m] by auto
qed simp

lemma bt_keys_dom: "set (bt_keys m) = dom (bt_get m)"
  by (simp add: dom_map_of_conv_image_fst)

lemma bt_remove_absent: "bt_get m k = None \<Longrightarrow> bt_remove k m = m"
  by (induction k m rule: bt_remove.induct) (auto split: if_splits)

lemma length_bt_remove:
  "bt_get m k \<noteq> None \<Longrightarrow> length (bt_remove k m) < length m"
  by (induction k m rule: bt_remove.induct) (auto split: if_splits)

lemma length_bt_insert_new:
  "bt_get m k = None \<Longrightarrow> length (bt_insert k v m) = Suc (length m)"
  by (induction k v m rule: bt_insert.induct) (auto split: if_splits)

lemma bt_mem_iff: "bt_wf m \<Longrightarrow> (k, v) \<in> set m \<longleftrightarrow> bt_get m k = Some v"
  by (simp add: bt_wf_distinct)

text \<open>\<^verbatim>\<open>get_mut\<close> followed by an update of the value found.\<close>

definition bt_modify :: "'k::linorder \<Rightarrow> ('v \<Rightarrow> 'v) \<Rightarrow> ('k, 'v) btree \<Rightarrow> ('k, 'v) btree" where
  "bt_modify k f m = (case bt_get m k of None \<Rightarrow> m | Some v \<Rightarrow> bt_insert k (f v) m)"

lemma bt_get_modify [map_simps]:
  "bt_get (bt_modify k f m) = (bt_get m)(k := map_option f (bt_get m k))"
  by (auto simp: bt_modify_def map_simps fun_eq_iff split: option.splits)

lemma bt_wf_modify [simp]: "bt_wf m \<Longrightarrow> bt_wf (bt_modify k f m)"
  by (simp add: bt_modify_def split: option.splits)

lemma bt_keys_modify [simp]: "dom (bt_get (bt_modify k f m)) = dom (bt_get m)"
  by (auto simp: map_simps dom_def)

section \<open>Ordered sets\<close>

fun bs_insert :: "'k::linorder \<Rightarrow> 'k list \<Rightarrow> 'k list" where
  "bs_insert k [] = [k]"
| "bs_insert k (x # xs) =
     (if k < x then k # x # xs else if k = x then x # xs else x # bs_insert k xs)"

definition bs_remove :: "'k \<Rightarrow> 'k list \<Rightarrow> 'k list" where
  "bs_remove k xs = filter (\<lambda>x. x \<noteq> k) xs"

definition bs_wf :: "'k::linorder list \<Rightarrow> bool" where
  "bs_wf xs \<longleftrightarrow> sorted_wrt (<) xs"

lemma set_bs_insert [simp]: "set (bs_insert k xs) = insert k (set xs)"
  by (induction k xs rule: bs_insert.induct) auto

lemma set_bs_remove [simp]: "set (bs_remove k xs) = set xs - {k}"
  by (auto simp: bs_remove_def)

lemma bs_wf_insert [simp]: "bs_wf xs \<Longrightarrow> bs_wf (bs_insert k xs)"
proof (induction k xs rule: bs_insert.induct)
  case (2 k x xs)
  then show ?case by (auto simp: bs_wf_def order.strict_iff_order)
qed (simp add: bs_wf_def)

lemma bs_wf_remove [simp]: "bs_wf xs \<Longrightarrow> bs_wf (bs_remove k xs)"
  by (simp add: bs_wf_def bs_remove_def sorted_wrt_filter)

lemma bs_wf_distinct: "bs_wf xs \<Longrightarrow> distinct xs"
  by (simp add: bs_wf_def strict_sorted_iff)

section \<open>Generic facts on lists\<close>

lemma foldl_invariant:
  assumes "I s" and "\<And>s x. I s \<Longrightarrow> x \<in> set xs \<Longrightarrow> I (f s x)"
  shows "I (foldl f s xs)"
  using assms by (induction xs arbitrary: s) auto

lemma sum_list_map_filter_le:
  "sum_list (map f (filter P xs)) \<le> sum_list (map (f :: 'a \<Rightarrow> nat) xs)"
  by (induction xs) auto

lemma takeWhile_replicate_eq:
  "length (takeWhile P (xs @ [x])) = (if list_all P xs then (if P x then Suc (length xs) else length xs) else length (takeWhile P xs))"
  by (induction xs) auto

end
