(* ===== verification/Ava_Ids.thy ===== *)
theory Ava_Ids
  imports Ava_Prelude "HOL-Library.List_Lexorder"
begin

text \<open>
  Identifiers (\<^verbatim>\<open>crates/ava-types/src/id.rs\<close>) and the bit-subset helpers the
  snowball tree routes votes with (\<^verbatim>\<open>crates/ava-types/src/bits.rs\<close>).

  An id is an array of 32 bytes; bit \<open>i\<close> is bit \<open>i mod 8\<close> of byte \<open>i div 8\<close>.
  The two helpers work byte by byte with 32-bit masks. The lemmas here show
  that they agree with the bit-by-bit reading: \<open>equal_subset\<close> decides
  agreement on a range of bits and \<open>first_difference_subset\<close> returns the least
  differing bit of the range.
\<close>

unbundle bit_operations_syntax

section \<open>The 32-byte identifier\<close>

definition ID_LEN :: nat where
  "ID_LEN = 32"

typedef ava_id = "{bs :: u8 list. length bs = ID_LEN}"
  morphisms as_bytes id_of
  by (rule exI [of _ "replicate ID_LEN 0"]) simp

setup_lifting type_definition_ava_id

lemma length_as_bytes [simp]: "length (as_bytes x) = 32"
  using as_bytes [of x] by (simp add: ID_LEN_def)

lemma as_bytes_id_of [simp]: "length bs = 32 \<Longrightarrow> as_bytes (id_of bs) = bs"
  by (simp add: id_of_inverse ID_LEN_def)

definition id_EMPTY :: ava_id where
  "id_EMPTY = id_of (replicate ID_LEN 0)"

datatype id_error = InvalidHashLen nat nat

definition id_from_slice :: "u8 list \<Rightarrow> id_error + ava_id" where
  "id_from_slice bytes =
     (if length bytes \<noteq> ID_LEN then Inl (InvalidHashLen ID_LEN (length bytes))
      else Inr (id_of bytes))"

definition id_xor :: "ava_id \<Rightarrow> ava_id \<Rightarrow> ava_id" where
  "id_xor a b = id_of (map (\<lambda>i. as_bytes a ! i XOR as_bytes b ! i) [0..<ID_LEN])"

definition id_bit :: "ava_id \<Rightarrow> nat \<Rightarrow> nat" where
  "id_bit x i = unat (drop_bit (i mod 8) (as_bytes x ! (i div 8)) AND 1)"

text \<open>The derived order: lexicographic on the bytes.\<close>

instantiation ava_id :: linorder
begin

definition less_eq_ava_id :: "ava_id \<Rightarrow> ava_id \<Rightarrow> bool" where
  "less_eq_ava_id a b \<longleftrightarrow> as_bytes a \<le> as_bytes b"

definition less_ava_id :: "ava_id \<Rightarrow> ava_id \<Rightarrow> bool" where
  "less_ava_id a b \<longleftrightarrow> as_bytes a < as_bytes b"

instance
  by standard
    (auto simp: less_eq_ava_id_def less_ava_id_def as_bytes_inject order.strict_iff_order)

end

instantiation ava_id :: equal
begin

definition equal_ava_id :: "ava_id \<Rightarrow> ava_id \<Rightarrow> bool" where
  "equal_ava_id a b \<longleftrightarrow> as_bytes a = as_bytes b"

instance
  by standard (simp add: equal_ava_id_def as_bytes_inject)

end

lemma id_bit_eq: "id_bit x i = of_bool (bit (as_bytes x ! (i div 8)) (i mod 8))"
  by (simp add: id_bit_def and_one_eq mod_2_eq_odd bit_iff_odd_drop_bit)

lemma id_bit_less_2 [simp]: "id_bit x i < 2"
  by (simp add: id_bit_eq)

lemma id_bit_cases: "id_bit x i = 0 \<or> id_bit x i = 1"
  by (simp add: id_bit_eq)

lemma id_bit_neq_iff: "id_bit x i \<noteq> id_bit y i \<longleftrightarrow> id_bit y i = other (id_bit x i)"
  using id_bit_cases [of x i] id_bit_cases [of y i] by (elim disjE) simp_all

lemma id_from_slice_round: "id_from_slice (as_bytes x) = Inr x"
  by (simp add: id_from_slice_def ID_LEN_def as_bytes_inverse)

section \<open>Agreement on a range of bits\<close>

definition agree :: "nat \<Rightarrow> nat \<Rightarrow> ava_id \<Rightarrow> ava_id \<Rightarrow> bool" where
  "agree lo hi a b \<longleftrightarrow> (\<forall>i \<in> {lo..<hi}. id_bit a i = id_bit b i)"

lemma agree_refl [simp]: "agree lo hi a a"
  by (simp add: agree_def)

lemma agree_sym: "agree lo hi a b \<Longrightarrow> agree lo hi b a"
  by (simp add: agree_def)

lemma agree_trans: "agree lo hi a b \<Longrightarrow> agree lo hi b c \<Longrightarrow> agree lo hi a c"
  by (simp add: agree_def)

lemma agree_mono: "agree lo hi a b \<Longrightarrow> lo \<le> lo' \<Longrightarrow> hi' \<le> hi \<Longrightarrow> agree lo' hi' a b"
  by (auto simp: agree_def)

lemma agree_append: "lo \<le> mid \<Longrightarrow> mid \<le> hi \<Longrightarrow>
    agree lo hi a b \<longleftrightarrow> agree lo mid a b \<and> agree mid hi a b"
  by (auto simp: agree_def)

lemma agree_Suc: "agree lo (Suc i) a b \<longleftrightarrow> agree lo i a b \<and> (lo \<le> i \<longrightarrow> id_bit a i = id_bit b i)"
  by (auto simp: agree_def less_Suc_eq)

lemma agree_empty [simp]: "hi \<le> lo \<Longrightarrow> agree lo hi a b"
  by (simp add: agree_def)

text \<open>Agreement on whole bytes is equality of the bytes.\<close>

lemma agree_bytes:
  "agree (8 * lo) (8 * hi) a b \<longleftrightarrow> (\<forall>k. lo \<le> k \<and> k < hi \<longrightarrow> as_bytes a ! k = as_bytes b ! k)"
proof (intro iffI allI impI)
  fix k assume ag: "agree (8 * lo) (8 * hi) a b" and k: "lo \<le> k \<and> k < hi"
  show "as_bytes a ! k = as_bytes b ! k"
  proof (rule bit_word_eqI)
    fix n assume n: "n < LENGTH(8)"
    with k have "8 * k + n \<in> {8 * lo..<8 * hi}" by simp
    with ag have "id_bit a (8 * k + n) = id_bit b (8 * k + n)"
      unfolding agree_def by blast
    with n show "bit (as_bytes a ! k) n = bit (as_bytes b ! k) n"
      by (auto simp: id_bit_eq of_bool_def split: if_splits)
  qed
next
  assume R: "\<forall>k. lo \<le> k \<and> k < hi \<longrightarrow> as_bytes a ! k = as_bytes b ! k"
  show "agree (8 * lo) (8 * hi) a b"
    unfolding agree_def
  proof
    fix i assume "i \<in> {8 * lo..<8 * hi}"
    then have "lo \<le> i div 8 \<and> i div 8 < hi" by auto
    with R show "id_bit a i = id_bit b i" by (simp add: id_bit_eq)
  qed
qed

text \<open>Two ids that agree on all 256 bits are equal.\<close>

lemma agree_all_imp_eq:
  assumes "agree 0 256 a b"
  shows "a = b"
proof -
  have "as_bytes a ! k = as_bytes b ! k" if "k < 32" for k
    using that assms agree_bytes [of 0 32 a b] by simp
  then have "as_bytes a = as_bytes b" by (simp add: list_eq_iff_nth_eq)
  then show ?thesis by (simp add: as_bytes_inject)
qed

section \<open>The masked comparisons of bits.rs\<close>

definition NUM_BITS :: int where
  "NUM_BITS = 256"

definition BITS_PER_BYTE :: int where
  "BITS_PER_BYTE = 8"

definition slice :: "'a list \<Rightarrow> nat \<Rightarrow> nat \<Rightarrow> 'a list" where
  "slice xs i j = take (j - i) (drop i xs)"

definition i32_from :: "u8 \<Rightarrow> 32 word" where
  "i32_from b = ucast b"

definition start_mask :: "nat \<Rightarrow> 32 word" where
  "start_mask start_bit = push_bit start_bit (- 1)"

definition stop_mask :: "nat \<Rightarrow> 32 word" where
  "stop_mask stop_bit = push_bit (stop_bit + 1) 1 - 1"

definition equal_subset :: "int \<Rightarrow> int \<Rightarrow> ava_id \<Rightarrow> ava_id \<Rightarrow> bool" where
  "equal_subset start stop0 id1 id2 =
     (let stop = stop0 - 1 in
      if start > stop \<or> stop < 0 then True
      else if stop \<ge> NUM_BITS then False
      else
        let start_index = nat (start div BITS_PER_BYTE);
            stop_index = nat (stop div BITS_PER_BYTE);
            b1 = as_bytes id1; b2 = as_bytes id2 in
        if start_index + 1 < stop_index
           \<and> slice b1 (start_index + 1) stop_index \<noteq> slice b2 (start_index + 1) stop_index
        then False
        else
          let start_bit = nat (start mod BITS_PER_BYTE);
              stop_bit = nat (stop mod BITS_PER_BYTE);
              sm = start_mask start_bit; tm = stop_mask stop_bit in
          if start_index = stop_index then
            (sm AND tm) AND i32_from (b1 ! start_index)
              = (sm AND tm) AND i32_from (b2 ! start_index)
          else
            sm AND i32_from (b1 ! start_index) = sm AND i32_from (b2 ! start_index)
            \<and> tm AND i32_from (b1 ! stop_index) = tm AND i32_from (b2 ! stop_index))"

text \<open>\<^verbatim>\<open>u8::trailing_zeros\<close>: 8 on zero.\<close>

definition trailing_zeros8 :: "u8 \<Rightarrow> nat" where
  "trailing_zeros8 w = length (takeWhile (\<lambda>n. \<not> bit w n) [0..<8])"

definition diff_bit :: "32 word \<Rightarrow> 32 word \<Rightarrow> nat \<Rightarrow> nat" where
  "diff_bit v1 v2 index = trailing_zeros8 (ucast (v1 XOR v2)) + index * nat BITS_PER_BYTE"

text \<open>The loop over the interior bytes.\<close>

fun first_diff_bytes :: "u8 list \<Rightarrow> u8 list \<Rightarrow> nat list \<Rightarrow> nat option" where
  "first_diff_bytes b1 b2 [] = None"
| "first_diff_bytes b1 b2 (i # is) =
     (let v1 = i32_from (b1 ! i); v2 = i32_from (b2 ! i) in
      if v1 \<noteq> v2 then Some (diff_bit v1 v2 i) else first_diff_bytes b1 b2 is)"

definition first_difference_subset :: "int \<Rightarrow> int \<Rightarrow> ava_id \<Rightarrow> ava_id \<Rightarrow> nat option" where
  "first_difference_subset start stop0 id1 id2 =
     (let stop = stop0 - 1 in
      if start > stop \<or> stop < 0 \<or> stop \<ge> NUM_BITS then None
      else
        let start_index = nat (start div BITS_PER_BYTE);
            stop_index = nat (stop div BITS_PER_BYTE);
            start_bit = nat (start mod BITS_PER_BYTE);
            stop_bit = nat (stop mod BITS_PER_BYTE);
            sm = start_mask start_bit; tm = stop_mask stop_bit;
            b1 = as_bytes id1; b2 = as_bytes id2 in
        if start_index = stop_index then
          let v1 = (sm AND tm) AND i32_from (b1 ! start_index);
              v2 = (sm AND tm) AND i32_from (b2 ! start_index) in
          if v1 = v2 then None else Some (diff_bit v1 v2 start_index)
        else
          let start1 = sm AND i32_from (b1 ! start_index);
              start2 = sm AND i32_from (b2 ! start_index) in
          if start1 \<noteq> start2 then Some (diff_bit start1 start2 start_index)
          else
            case first_diff_bytes b1 b2 [start_index + 1..<stop_index] of
              Some d \<Rightarrow> Some d
            | None \<Rightarrow>
                let stop1 = tm AND i32_from (b1 ! stop_index);
                    stop2 = tm AND i32_from (b2 ! stop_index) in
                if stop1 \<noteq> stop2 then Some (diff_bit stop1 stop2 stop_index) else None)"

section \<open>First differences\<close>

text \<open>What a first-difference search over a range of bits has to return.\<close>

definition first_diff_spec :: "nat \<Rightarrow> nat \<Rightarrow> ava_id \<Rightarrow> ava_id \<Rightarrow> nat option \<Rightarrow> bool" where
  "first_diff_spec lo hi a b r = (case r of
       None \<Rightarrow> agree lo hi a b
     | Some d \<Rightarrow> lo \<le> d \<and> d < hi \<and> agree lo d a b \<and> id_bit a d \<noteq> id_bit b d)"

lemma first_diff_spec_append:
  assumes "first_diff_spec lo mid a b r" "lo \<le> mid" "mid \<le> hi"
    and "r = None \<Longrightarrow> first_diff_spec mid hi a b r'"
  shows "first_diff_spec lo hi a b (case r of None \<Rightarrow> r' | Some d \<Rightarrow> Some d)"
proof (cases r)
  case None
  with assms show ?thesis
  proof (cases r')
    case (Some d)
    with None assms have "mid \<le> d" "agree lo mid a b" "agree mid d a b"
      by (auto simp: first_diff_spec_def)
    then have "agree lo d a b" using agree_append [of lo mid d a b] assms(2) by simp
    with None Some assms show ?thesis by (auto simp: first_diff_spec_def)
  qed (auto simp: first_diff_spec_def agree_append [of lo mid hi])
next
  case (Some d)
  with assms show ?thesis by (auto simp: first_diff_spec_def)
qed

lemma trailing_zeros8_props:
  assumes "w \<noteq> 0"
  shows "trailing_zeros8 w < 8" "bit w (trailing_zeros8 w)"
    "n < trailing_zeros8 w \<Longrightarrow> \<not> bit w n"
proof -
  let ?P = "\<lambda>n. \<not> bit w n" and ?t = "trailing_zeros8 w"
  obtain m where m: "m < 8" "bit w m"
  proof (rule ccontr)
    assume "\<not> thesis"
    then have "\<And>n. n < LENGTH(8) \<Longrightarrow> \<not> bit w n" using that by auto
    then have "w = 0" by (intro bit_word_eqI) simp
    with assms show False by simp
  qed
  have nth: "[0..<8] ! i = i" if "i < 8" for i using that by simp
  have le: "?t \<le> length [0..<8]" unfolding trailing_zeros8_def by (rule length_takeWhile_le)
  have low: "\<not> bit w i" if "i < ?t" for i
  proof -
    have "takeWhile ?P [0..<8] ! i \<in> set (takeWhile ?P [0..<8])"
      using that unfolding trailing_zeros8_def by (rule nth_mem)
    then have "\<not> bit w (takeWhile ?P [0..<8] ! i)" by (rule set_takeWhileD [THEN conjunct2])
    moreover have "takeWhile ?P [0..<8] ! i = i"
      using that le nth takeWhile_nth [of i ?P "[0..<8]"] by (simp add: trailing_zeros8_def)
    ultimately show ?thesis by simp
  qed
  then show "n < ?t \<Longrightarrow> \<not> bit w n" by blast
  show lt: "?t < 8" using low [of m] m le by (metis length_upt diff_zero le_neq_implies_less)
  have "length (takeWhile ?P [0..<8]) < length [0..<8]"
    using lt by (simp add: trailing_zeros8_def)
  from nth_length_takeWhile [OF this] nth [OF lt] show "bit w ?t"
    by (simp add: trailing_zeros8_def)
qed

text \<open>The two masks select the bits from \<open>start_bit\<close> and up to \<open>stop_bit\<close>.\<close>

lemma bit_start_mask: "bit (start_mask s) n \<longleftrightarrow> s \<le> n \<and> n < 32"
  by (auto simp: start_mask_def bit_not_iff bit_mask_iff)

lemma bit_stop_mask: "s < 8 \<Longrightarrow> bit (stop_mask s) n \<longleftrightarrow> n \<le> s"
  by (auto simp: stop_mask_def push_bit_of_1 mask_eq_exp_minus_1 [symmetric] bit_mask_iff
      simp del: push_bit_Suc power_Suc)

lemma bit_i32_from: "bit (i32_from b) n \<longleftrightarrow> n < 8 \<and> bit b n"
  by (auto simp: i32_from_def bit_ucast_iff dest: bit_imp_le_length)

lemmas bit_masks = bit_start_mask bit_stop_mask bit_i32_from bit_and_iff bit_xor_iff

text \<open>
  One masked byte comparison: with a mask that selects the bits \<open>l\<close> to \<open>h - 1\<close>
  of byte \<open>k\<close>, comparing the masked bytes and taking the lowest set bit of
  their difference finds the first difference on that range.
\<close>

lemma masked_byte:
  assumes mask: "\<And>n. n < 8 \<Longrightarrow> bit mk n \<longleftrightarrow> l \<le> n \<and> n < h" and "l \<le> h" "h \<le> 8" "k < 32"
    and v1: "v1 = mk AND i32_from (as_bytes a ! k)"
    and v2: "v2 = mk AND i32_from (as_bytes b ! k)"
  shows "first_diff_spec (8 * k + l) (8 * k + h) a b
           (if v1 = v2 then None else Some (diff_bit v1 v2 k))" (is ?A)
    and "v1 = v2 \<longleftrightarrow> agree (8 * k + l) (8 * k + h) a b" (is ?B)
proof -
  have idb: "id_bit x (8 * k + n) = of_bool (bit (as_bytes x ! k) n)" if "n < 8" for x n
    using that by (simp add: id_bit_eq)
  have bits: "bit v1 n \<noteq> bit v2 n \<longleftrightarrow>
      n < 8 \<and> l \<le> n \<and> n < h \<and> id_bit a (8 * k + n) \<noteq> id_bit b (8 * k + n)" for n
    using mask [of n] idb [of n a] idb [of n b] by (auto simp: v1 v2 bit_and_iff bit_i32_from)
  have eqv: "v1 = v2 \<longleftrightarrow> (\<forall>n. bit v1 n = bit v2 n)" by (auto intro: bit_word_eqI)
  have ag: "agree (8 * k + l) (8 * k + h') a b \<longleftrightarrow>
      (\<forall>n. l \<le> n \<and> n < h' \<longrightarrow> id_bit a (8 * k + n) = id_bit b (8 * k + n))" for h'
  proof
    assume R: "\<forall>n. l \<le> n \<and> n < h' \<longrightarrow> id_bit a (8 * k + n) = id_bit b (8 * k + n)"
    show "agree (8 * k + l) (8 * k + h') a b"
      unfolding agree_def
    proof
      fix i assume "i \<in> {8 * k + l..<8 * k + h'}"
      then have "l \<le> i - 8 * k" "i - 8 * k < h'" "8 * k + (i - 8 * k) = i" by auto
      with R show "id_bit a i = id_bit b i" by metis
    qed
  qed (simp add: agree_def)
  show B: ?B using assms(3) bits by (auto simp: eqv ag)
  show ?A
  proof (cases "v1 = v2")
    case True
    with B show ?thesis by (simp add: first_diff_spec_def)
  next
    case False
    let ?w = "ucast (v1 XOR v2) :: u8" and ?t = "trailing_zeros8 (ucast (v1 XOR v2) :: u8)"
    have w: "bit ?w n \<longleftrightarrow> l \<le> n \<and> n < h \<and> id_bit a (8 * k + n) \<noteq> id_bit b (8 * k + n)" for n
      using bits [of n] assms(3) by (auto simp: bit_ucast_iff bit_xor_iff)
    obtain n where "bit v1 n \<noteq> bit v2 n" using False eqv by auto
    with bits w have "bit ?w n" by auto
    then have "?w \<noteq> 0" by auto
    note tz = trailing_zeros8_props [OF this]
    have "agree (8 * k + l) (8 * k + ?t) a b"
      using tz(3) w tz(2) by (auto simp: ag)
    moreover have "diff_bit v1 v2 k = 8 * k + ?t"
      by (simp add: diff_bit_def BITS_PER_BYTE_def)
    ultimately show ?thesis using False tz(2) w by (simp add: first_diff_spec_def)
  qed
qed

text \<open>The interior loop finds the first difference on whole bytes.\<close>

lemma first_diff_bytes_spec:
  assumes "lo \<le> hi" "hi \<le> 32"
  shows "first_diff_spec (8 * lo) (8 * hi) a b
           (first_diff_bytes (as_bytes a) (as_bytes b) [lo..<hi])"
  using assms
proof (induction "hi - lo" arbitrary: lo)
  case 0
  then show ?case by (simp add: first_diff_spec_def)
next
  case (Suc n)
  then have lt: "lo < hi" by simp
  let ?v = "\<lambda>x. i32_from (as_bytes x ! lo)"
  have "first_diff_spec (8 * lo) (8 * Suc lo) a b
          (if ?v a = ?v b then None else Some (diff_bit (?v a) (?v b) lo))"
    using masked_byte(1) [of "- 1" 0 8 lo "?v a" a "?v b" b] lt Suc.prems(2) by (simp add: add.commute)
  moreover have "first_diff_spec (8 * Suc lo) (8 * hi) a b
      (first_diff_bytes (as_bytes a) (as_bytes b) [Suc lo..<hi])"
    using Suc by (intro Suc.hyps(1)) auto
  ultimately have "first_diff_spec (8 * lo) (8 * hi) a b
      (case if ?v a = ?v b then None else Some (diff_bit (?v a) (?v b) lo) of
         None \<Rightarrow> first_diff_bytes (as_bytes a) (as_bytes b) [Suc lo..<hi]
       | Some d \<Rightarrow> Some d)"
    using lt by (intro first_diff_spec_append) auto
  with lt show ?case by (auto simp: upt_rec [of lo hi] Let_def split: if_splits)
qed

text \<open>Equal interior slices are agreement on the interior bits.\<close>

lemma slice_agree:
  assumes "lo \<le> hi" "hi \<le> 32"
  shows "slice (as_bytes a) lo hi = slice (as_bytes b) lo hi \<longleftrightarrow> agree (8 * lo) (8 * hi) a b"
proof -
  have nth: "slice (as_bytes x) lo hi ! j = as_bytes x ! (lo + j)" if "j < hi - lo" for x j
    using that assms by (simp add: slice_def)
  have "slice (as_bytes a) lo hi = slice (as_bytes b) lo hi \<longleftrightarrow>
      (\<forall>j < hi - lo. as_bytes a ! (lo + j) = as_bytes b ! (lo + j))"
    using assms nth by (simp add: list_eq_iff_nth_eq slice_def)
  also have "\<dots> \<longleftrightarrow> (\<forall>k. lo \<le> k \<and> k < hi \<longrightarrow> as_bytes a ! k = as_bytes b ! k)"
  proof (intro iffI allI impI)
    fix k assume "\<forall>j < hi - lo. as_bytes a ! (lo + j) = as_bytes b ! (lo + j)" "lo \<le> k \<and> k < hi"
    then show "as_bytes a ! k = as_bytes b ! k" by (auto dest: spec [of _ "k - lo"])
  qed simp
  finally show ?thesis by (simp add: agree_bytes)
qed

section \<open>Correctness of the two helpers\<close>

lemma index_conv:
  assumes "lo < hi" "hi \<le> 256"
  shows "nat (int lo div BITS_PER_BYTE) = lo div 8" "nat (int lo mod BITS_PER_BYTE) = lo mod 8"
    "nat ((int hi - 1) div BITS_PER_BYTE) = (hi - 1) div 8"
    "nat ((int hi - 1) mod BITS_PER_BYTE) = (hi - 1) mod 8"
proof -
  have conv: "nat (int n div BITS_PER_BYTE) = n div 8" "nat (int n mod BITS_PER_BYTE) = n mod 8" for n
    by (simp_all add: BITS_PER_BYTE_def nat_div_distrib nat_mod_distrib)
  show "nat (int lo div BITS_PER_BYTE) = lo div 8" "nat (int lo mod BITS_PER_BYTE) = lo mod 8"
    by (rule conv)+
  obtain y where "hi = Suc y" using assms(1) by (cases hi) auto
  then show "nat ((int hi - 1) div BITS_PER_BYTE) = (hi - 1) div 8"
    "nat ((int hi - 1) mod BITS_PER_BYTE) = (hi - 1) mod 8"
    using conv [of y] by simp_all
qed

text \<open>The three byte ranges of a bit range that spans more than one byte.\<close>

lemma byte_ranges:
  assumes "lo < hi" "hi \<le> 256"
  defines "s \<equiv> lo div 8" and "t \<equiv> (hi - 1) div 8"
  shows "s \<le> t" "t < 32" "lo = 8 * s + lo mod 8" "hi = 8 * t + Suc ((hi - 1) mod 8)"
    "lo \<le> 8 * Suc s" "s \<noteq> t \<Longrightarrow> 8 * Suc s \<le> 8 * t" "8 * t \<le> hi" "s \<noteq> t \<Longrightarrow> 8 * Suc s \<le> hi"
proof -
  show le: "s \<le> t" unfolding s_def t_def using assms(1) by (intro div_le_mono) simp
  show "t < 32" using assms(2) unfolding t_def by (simp add: less_mult_imp_div_less)
  show lo: "lo = 8 * s + lo mod 8" unfolding s_def by simp
  have "hi - 1 = 8 * t + (hi - 1) mod 8" unfolding t_def by simp
  then show hi: "hi = 8 * t + Suc ((hi - 1) mod 8)" using assms(1) by simp
  show "8 * t \<le> hi" using hi by linarith
  show "lo \<le> 8 * Suc s" using lo mod_less_divisor [of 8 lo] by simp
  show "s \<noteq> t \<Longrightarrow> 8 * Suc s \<le> 8 * t" using le by simp
  then show "s \<noteq> t \<Longrightarrow> 8 * Suc s \<le> hi" using \<open>8 * t \<le> hi\<close> by linarith
qed

lemma equal_subset_agree:
  assumes "hi \<le> 256"
  shows "equal_subset (int lo) (int hi) a b \<longleftrightarrow> agree lo hi a b"
proof (cases "lo < hi")
  case False
  then show ?thesis by (simp add: equal_subset_def Let_def)
next
  case True
  define s t where "s = lo div 8" and "t = (hi - 1) div 8"
  define sb tb where "sb = lo mod 8" and "tb = (hi - 1) mod 8"
  note br = byte_ranges [OF True assms, folded s_def t_def sb_def tb_def]
  note ic = index_conv [OF True assms, folded s_def t_def sb_def tb_def]
  have sb: "sb < 8" and tb: "tb < 8" by (simp_all add: sb_def tb_def)
  let ?v = "\<lambda>m k x. m AND i32_from (as_bytes x ! k)"
  have one: "?v (start_mask sb AND stop_mask tb) s a = ?v (start_mask sb AND stop_mask tb) s b
      \<longleftrightarrow> agree lo hi a b" if "s = t"
  proof -
    have "sb \<le> Suc tb" using br(3,4) True that by linarith
    then have "?v (start_mask sb AND stop_mask tb) s a = ?v (start_mask sb AND stop_mask tb) s b
      \<longleftrightarrow> agree (8 * s + sb) (8 * s + Suc tb) a b"
      using br(2) that tb by (intro masked_byte(2)) (auto simp: bit_masks)
    with br(3,4) that show ?thesis by simp
  qed
  have first: "?v (start_mask sb) s a = ?v (start_mask sb) s b \<longleftrightarrow> agree lo (8 * Suc s) a b"
    using masked_byte(2) [of "start_mask sb" sb 8 s "?v (start_mask sb) s a" a "?v (start_mask sb) s b" b]
      br(1-3) sb by (simp add: bit_masks add.commute)
  have last: "?v (stop_mask tb) t a = ?v (stop_mask tb) t b \<longleftrightarrow> agree (8 * t) hi a b"
    using masked_byte(2) [of "stop_mask tb" 0 "Suc tb" t "?v (stop_mask tb) t a" a "?v (stop_mask tb) t b" b]
      br(2,4) tb by (simp add: bit_masks less_Suc_eq_le)
  have mid: "\<not> (s + 1 < t \<and> slice (as_bytes a) (s + 1) t \<noteq> slice (as_bytes b) (s + 1) t)
      \<longleftrightarrow> agree (8 * Suc s) (8 * t) a b"
    using slice_agree [of "Suc s" t a b] br(2) by (cases "Suc s < t") auto
  have split: "agree lo hi a b \<longleftrightarrow> agree lo (8 * Suc s) a b \<and> agree (8 * Suc s) (8 * t) a b
      \<and> agree (8 * t) hi a b" if "s \<noteq> t"
    using br(5-8) that agree_append [of lo "8 * Suc s" hi] agree_append [of "8 * Suc s" "8 * t" hi]
    by blast
  have eq: "equal_subset (int lo) (int hi) a b \<longleftrightarrow>
      \<not> (s + 1 < t \<and> slice (as_bytes a) (s + 1) t \<noteq> slice (as_bytes b) (s + 1) t) \<and>
      (if s = t then ?v (start_mask sb AND stop_mask tb) s a = ?v (start_mask sb AND stop_mask tb) s b
       else ?v (start_mask sb) s a = ?v (start_mask sb) s b \<and> ?v (stop_mask tb) t a = ?v (stop_mask tb) t b)"
    using True assms
    by (simp add: equal_subset_def Let_def ic NUM_BITS_def)
  show ?thesis
  proof (cases "s = t")
    case st: True
    then show ?thesis unfolding eq if_P [OF st] one [OF st] by simp
  next
    case st: False
    show ?thesis unfolding eq if_not_P [OF st] mid first last split [OF st] by blast
  qed
qed

lemma first_difference_subset_spec:
  assumes "hi \<le> 256"
  shows "first_diff_spec lo hi a b (first_difference_subset (int lo) (int hi) a b)"
proof (cases "lo < hi")
  case False
  then show ?thesis by (simp add: first_difference_subset_def Let_def first_diff_spec_def)
next
  case True
  define s t where "s = lo div 8" and "t = (hi - 1) div 8"
  define sb tb where "sb = lo mod 8" and "tb = (hi - 1) mod 8"
  note br = byte_ranges [OF True assms, folded s_def t_def sb_def tb_def]
  note ic = index_conv [OF True assms, folded s_def t_def sb_def tb_def]
  have sb: "sb < 8" and tb: "tb < 8" by (simp_all add: sb_def tb_def)
  let ?v = "\<lambda>m k x. m AND i32_from (as_bytes x ! k)"
  let ?d = "\<lambda>m k. if ?v m k a = ?v m k b then None else Some (diff_bit (?v m k a) (?v m k b) k)"
  let ?mid = "first_diff_bytes (as_bytes a) (as_bytes b) [s + 1..<t]"
  have eq: "first_difference_subset (int lo) (int hi) a b =
      (if s = t then ?d (start_mask sb AND stop_mask tb) s
       else case ?d (start_mask sb) s of
              None \<Rightarrow> (case ?mid of None \<Rightarrow> ?d (stop_mask tb) t | Some d \<Rightarrow> Some d)
            | Some d \<Rightarrow> Some d)"
    using True assms
    by (simp add: first_difference_subset_def Let_def ic NUM_BITS_def split: option.split)
  show ?thesis
  proof (cases "s = t")
    case st: True
    have "sb \<le> Suc tb" using br(3,4) True st by linarith
    then have "first_diff_spec (8 * s + sb) (8 * s + Suc tb) a b (?d (start_mask sb AND stop_mask tb) s)"
      using br(2) st tb by (intro masked_byte(1)) (auto simp: bit_masks)
    with br(3,4) st eq show ?thesis by simp
  next
    case st: False
    have first: "first_diff_spec lo (8 * Suc s) a b (?d (start_mask sb) s)"
      using masked_byte(1) [of "start_mask sb" sb 8 s "?v (start_mask sb) s a" a "?v (start_mask sb) s b" b]
        br(1-3) sb by (simp add: bit_masks add.commute)
    have last: "first_diff_spec (8 * t) hi a b (?d (stop_mask tb) t)"
      using masked_byte(1) [of "stop_mask tb" 0 "Suc tb" t "?v (stop_mask tb) t a" a "?v (stop_mask tb) t b" b]
        br(2,4) tb by (simp add: bit_masks less_Suc_eq_le)
    have "first_diff_spec (8 * Suc s) (8 * t) a b ?mid"
      using first_diff_bytes_spec [of "Suc s" t a b] br(2) br(6) [OF st] by simp
    then have "first_diff_spec (8 * Suc s) hi a b (case ?mid of None \<Rightarrow> ?d (stop_mask tb) t | Some d \<Rightarrow> Some d)"
      using br(6) [OF st] br(7) last by (rule first_diff_spec_append)
    with first br(5) br(8) [OF st] show ?thesis unfolding eq if_not_P [OF st]
      by (rule first_diff_spec_append)
  qed
qed

end
