(* ===== verification/Ava_Snow.thy ===== *)
theory Ava_Snow
  imports Ava_Ids
begin

text \<open>
  The snowball parameters and the slush, snowflake and snowball state machines
  of \<^verbatim>\<open>crates/ava-snow/src/snowball/\<close> (\<^verbatim>\<open>parameters.rs\<close>, \<^verbatim>\<open>mod.rs\<close>,
  \<^verbatim>\<open>unary_*.rs\<close>, \<^verbatim>\<open>binary_*.rs\<close>, \<^verbatim>\<open>nnary_*.rs\<close>).

  A confidence counter is a \<^verbatim>\<open>u32\<close> incremented with saturation, kept as a \<open>nat\<close>
  with \<open>sat_add32\<close>. A binary choice is 0 or 1.
\<close>

section \<open>Parameters\<close>

record termination_condition =
  alpha_confidence :: nat
  beta :: nat

definition tc_single :: "nat \<Rightarrow> nat \<Rightarrow> termination_condition list" where
  "tc_single a b = [\<lparr>alpha_confidence = a, beta = b\<rparr>]"

record parameters =
  p_k :: nat
  p_alpha_preference :: nat
  p_alpha_confidence :: nat
  p_beta :: nat
  p_concurrent_repolls :: nat
  p_optimal_processing :: nat
  p_max_outstanding_items :: nat
  p_max_item_processing_time :: nat

definition DEFAULT_PARAMETERS :: parameters where
  "DEFAULT_PARAMETERS = \<lparr>p_k = 20, p_alpha_preference = 15, p_alpha_confidence = 15,
     p_beta = 20, p_concurrent_repolls = 4, p_optimal_processing = 10,
     p_max_outstanding_items = 256, p_max_item_processing_time = 30 * 10 ^ 9\<rparr>"

text \<open>The condition a rejected parameter set fails, with the values reported.\<close>

datatype params_error =
    AlphaPreferenceTooSmall nat nat
  | AlphaConfidenceBelowPreference nat nat
  | AlphaConfidenceAboveK nat nat
  | AlphaEasterEgg nat nat
  | ConcurrentRepollsZero nat
  | ConcurrentRepollsAboveBeta nat nat
  | OptimalProcessingZero nat
  | MaxOutstandingItemsZero nat
  | MaxItemProcessingTimeZero

definition params_verify :: "parameters \<Rightarrow> params_error + unit" where
  "params_verify p =
     (if p_alpha_preference p \<le> p_k p div 2 then
        Inl (AlphaPreferenceTooSmall (p_k p) (p_alpha_preference p))
      else if p_alpha_confidence p < p_alpha_preference p then
        Inl (AlphaConfidenceBelowPreference (p_alpha_preference p) (p_alpha_confidence p))
      else if p_k p < p_alpha_confidence p then
        Inl (AlphaConfidenceAboveK (p_k p) (p_alpha_confidence p))
      else if p_alpha_confidence p = 3 \<and> p_alpha_preference p = 28 then
        Inl (AlphaEasterEgg (p_alpha_confidence p) (p_alpha_preference p))
      else if p_concurrent_repolls p = 0 then
        Inl (ConcurrentRepollsZero (p_concurrent_repolls p))
      else if p_concurrent_repolls p > p_beta p then
        Inl (ConcurrentRepollsAboveBeta (p_concurrent_repolls p) (p_beta p))
      else if p_optimal_processing p = 0 then
        Inl (OptimalProcessingZero (p_optimal_processing p))
      else if p_max_outstanding_items p = 0 then
        Inl (MaxOutstandingItemsZero (p_max_outstanding_items p))
      else if p_max_item_processing_time p = 0 then Inl MaxItemProcessingTimeZero
      else Inr ())"

section \<open>Snowflakes\<close>

text \<open>
  The counting loop shared by the three \<^verbatim>\<open>record_poll\<close> bodies: walk the
  conditions in order, clear the remaining counters at the first threshold the
  poll did not reach, otherwise increment and stop at the first counter that
  reaches its \<^verbatim>\<open>beta\<close>. The result is the new counters and whether a counter
  reached its \<^verbatim>\<open>beta\<close>. Every instance keeps as many counters as conditions, so
  the third equation is never used.
\<close>

fun conf_loop :: "nat \<Rightarrow> termination_condition list \<Rightarrow> nat list \<Rightarrow> nat list \<times> bool" where
  "conf_loop cnt [] cf = (cf, False)"
| "conf_loop cnt (c # cs) (x # cf) =
     (if cnt < alpha_confidence c then (replicate (length (x # cf)) 0, False)
      else
        let x' = sat_add32 x 1 in
        if x' \<ge> beta c then (x' # cf, True)
        else let (cf', f) = conf_loop cnt cs cf in (x' # cf', f))"
| "conf_loop cnt (c # cs) [] = ([], False)"

definition fill0 :: "nat list \<Rightarrow> nat list" where
  "fill0 cf = replicate (length cf) 0"

subsection \<open>Unary\<close>

record unary_snowflake =
  usf_alpha_preference :: nat
  usf_conditions :: "termination_condition list"
  usf_confidence :: "nat list"
  usf_finalized :: bool

definition usf_new :: "nat \<Rightarrow> termination_condition list \<Rightarrow> unary_snowflake" where
  "usf_new a cs = \<lparr>usf_alpha_preference = a, usf_conditions = cs,
     usf_confidence = replicate (length cs) 0, usf_finalized = False\<rparr>"

definition usf_record_poll :: "unary_snowflake \<Rightarrow> nat \<Rightarrow> unary_snowflake" where
  "usf_record_poll s cnt =
     (let (cf, f) = conf_loop cnt (usf_conditions s) (usf_confidence s) in
      s\<lparr>usf_confidence := cf, usf_finalized := usf_finalized s \<or> f\<rparr>)"

definition usf_record_unsuccessful_poll :: "unary_snowflake \<Rightarrow> unary_snowflake" where
  "usf_record_unsuccessful_poll s = s\<lparr>usf_confidence := fill0 (usf_confidence s)\<rparr>"

subsection \<open>Binary\<close>

record binary_slush =
  bsl_preference :: nat

definition bsl_new :: "nat \<Rightarrow> binary_slush" where
  "bsl_new choice = \<lparr>bsl_preference = choice\<rparr>"

definition bsl_record_successful_poll :: "binary_slush \<Rightarrow> nat \<Rightarrow> binary_slush" where
  "bsl_record_successful_poll s choice = s\<lparr>bsl_preference := choice\<rparr>"

record binary_snowflake =
  bsf_slush :: binary_slush
  bsf_alpha_preference :: nat
  bsf_conditions :: "termination_condition list"
  bsf_confidence :: "nat list"
  bsf_finalized :: bool

definition bsf_new :: "nat \<Rightarrow> termination_condition list \<Rightarrow> nat \<Rightarrow> binary_snowflake" where
  "bsf_new a cs choice = \<lparr>bsf_slush = bsl_new choice, bsf_alpha_preference = a,
     bsf_conditions = cs, bsf_confidence = replicate (length cs) 0, bsf_finalized = False\<rparr>"

definition bsf_from_parts ::
    "nat \<Rightarrow> nat \<Rightarrow> termination_condition list \<Rightarrow> nat list \<Rightarrow> bool \<Rightarrow> binary_snowflake" where
  "bsf_from_parts choice a cs cf f = \<lparr>bsf_slush = bsl_new choice, bsf_alpha_preference = a,
     bsf_conditions = cs, bsf_confidence = cf, bsf_finalized = f\<rparr>"

definition bsf_preference :: "binary_snowflake \<Rightarrow> nat" where
  "bsf_preference s = bsl_preference (bsf_slush s)"

definition bsf_record_unsuccessful_poll :: "binary_snowflake \<Rightarrow> binary_snowflake" where
  "bsf_record_unsuccessful_poll s = s\<lparr>bsf_confidence := fill0 (bsf_confidence s)\<rparr>"

definition bsf_record_poll :: "binary_snowflake \<Rightarrow> nat \<Rightarrow> nat \<Rightarrow> binary_snowflake" where
  "bsf_record_poll s cnt choice =
     (if bsf_finalized s then s
      else if cnt < bsf_alpha_preference s then bsf_record_unsuccessful_poll s
      else
        let cf0 = (if choice \<noteq> bsf_preference s then fill0 (bsf_confidence s) else bsf_confidence s);
            (cf, f) = conf_loop cnt (bsf_conditions s) cf0 in
        s\<lparr>bsf_slush := bsl_record_successful_poll (bsf_slush s) choice,
          bsf_confidence := cf, bsf_finalized := bsf_finalized s \<or> f\<rparr>)"

definition usf_extend :: "unary_snowflake \<Rightarrow> nat \<Rightarrow> binary_snowflake" where
  "usf_extend s choice = bsf_from_parts choice (usf_alpha_preference s) (usf_conditions s)
     (usf_confidence s) (usf_finalized s)"

subsection \<open>N-nary\<close>

record nnary_slush =
  nsl_preference :: ava_id

definition nsl_record_successful_poll :: "nnary_slush \<Rightarrow> ava_id \<Rightarrow> nnary_slush" where
  "nsl_record_successful_poll s choice = s\<lparr>nsl_preference := choice\<rparr>"

record nnary_snowflake =
  nsf_slush :: nnary_slush
  nsf_alpha_preference :: nat
  nsf_conditions :: "termination_condition list"
  nsf_confidence :: "nat list"
  nsf_finalized :: bool

definition nsf_new :: "nat \<Rightarrow> termination_condition list \<Rightarrow> ava_id \<Rightarrow> nnary_snowflake" where
  "nsf_new a cs choice = \<lparr>nsf_slush = \<lparr>nsl_preference = choice\<rparr>, nsf_alpha_preference = a,
     nsf_conditions = cs, nsf_confidence = replicate (length cs) 0, nsf_finalized = False\<rparr>"

definition nsf_add :: "nnary_snowflake \<Rightarrow> ava_id \<Rightarrow> nnary_snowflake" where
  "nsf_add s choice = s"

definition nsf_preference :: "nnary_snowflake \<Rightarrow> ava_id" where
  "nsf_preference s = nsl_preference (nsf_slush s)"

definition nsf_record_unsuccessful_poll :: "nnary_snowflake \<Rightarrow> nnary_snowflake" where
  "nsf_record_unsuccessful_poll s = s\<lparr>nsf_confidence := fill0 (nsf_confidence s)\<rparr>"

definition nsf_record_poll :: "nnary_snowflake \<Rightarrow> nat \<Rightarrow> ava_id \<Rightarrow> nnary_snowflake" where
  "nsf_record_poll s cnt choice =
     (if nsf_finalized s then s
      else if cnt < nsf_alpha_preference s then nsf_record_unsuccessful_poll s
      else
        let cf0 = (if choice \<noteq> nsf_preference s then fill0 (nsf_confidence s) else nsf_confidence s);
            (cf, f) = conf_loop cnt (nsf_conditions s) cf0 in
        s\<lparr>nsf_slush := nsl_record_successful_poll (nsf_slush s) choice,
          nsf_confidence := cf, nsf_finalized := nsf_finalized s \<or> f\<rparr>)"

section \<open>Snowballs\<close>

record unary_snowball =
  usb_snowflake :: unary_snowflake
  usb_preference_strength :: nat

definition usb_new :: "nat \<Rightarrow> termination_condition list \<Rightarrow> unary_snowball" where
  "usb_new a cs = \<lparr>usb_snowflake = usf_new a cs, usb_preference_strength = 0\<rparr>"

definition usb_record_poll :: "unary_snowball \<Rightarrow> nat \<Rightarrow> unary_snowball" where
  "usb_record_poll s cnt =
     (let s1 = (if cnt \<ge> usf_alpha_preference (usb_snowflake s)
                then s\<lparr>usb_preference_strength := sat_add32 (usb_preference_strength s) 1\<rparr> else s) in
      s1\<lparr>usb_snowflake := usf_record_poll (usb_snowflake s) cnt\<rparr>)"

definition usb_record_unsuccessful_poll :: "unary_snowball \<Rightarrow> unary_snowball" where
  "usb_record_unsuccessful_poll s =
     s\<lparr>usb_snowflake := usf_record_unsuccessful_poll (usb_snowflake s)\<rparr>"

definition usb_finalized :: "unary_snowball \<Rightarrow> bool" where
  "usb_finalized s = usf_finalized (usb_snowflake s)"

record binary_snowball =
  bsb_snowflake :: binary_snowflake
  bsb_pref :: nat
  bsb_preference_strength :: "nat arr2"

definition bsb_new :: "nat \<Rightarrow> termination_condition list \<Rightarrow> nat \<Rightarrow> binary_snowball" where
  "bsb_new a cs choice = \<lparr>bsb_snowflake = bsf_new a cs choice, bsb_pref = choice,
     bsb_preference_strength = A2 0 0\<rparr>"

definition bsb_from_extension :: "binary_snowflake \<Rightarrow> nat \<Rightarrow> nat \<Rightarrow> binary_snowball" where
  "bsb_from_extension sf choice strength = \<lparr>bsb_snowflake = sf, bsb_pref = choice,
     bsb_preference_strength = set2 (A2 0 0) choice strength\<rparr>"

definition bsb_preference :: "binary_snowball \<Rightarrow> nat" where
  "bsb_preference s =
     (if bsf_finalized (bsb_snowflake s) then bsf_preference (bsb_snowflake s) else bsb_pref s)"

definition bsb_record_poll :: "binary_snowball \<Rightarrow> nat \<Rightarrow> nat \<Rightarrow> binary_snowball" where
  "bsb_record_poll s cnt choice =
     (let s1 =
        (if cnt \<ge> bsf_alpha_preference (bsb_snowflake s) then
           let st = set2 (bsb_preference_strength s) choice
                      (sat_add32 (get2 (bsb_preference_strength s) choice) 1);
               t = s\<lparr>bsb_preference_strength := st\<rparr> in
           if get2 st choice > get2 st (other choice) then t\<lparr>bsb_pref := choice\<rparr> else t
         else s) in
      s1\<lparr>bsb_snowflake := bsf_record_poll (bsb_snowflake s1) cnt choice\<rparr>)"

definition bsb_record_unsuccessful_poll :: "binary_snowball \<Rightarrow> binary_snowball" where
  "bsb_record_unsuccessful_poll s =
     s\<lparr>bsb_snowflake := bsf_record_unsuccessful_poll (bsb_snowflake s)\<rparr>"

definition bsb_finalized :: "binary_snowball \<Rightarrow> bool" where
  "bsb_finalized s = bsf_finalized (bsb_snowflake s)"

definition usb_extend :: "unary_snowball \<Rightarrow> nat \<Rightarrow> binary_snowball" where
  "usb_extend s choice =
     (let sf = usb_snowflake s in
      bsb_from_extension
        (bsf_from_parts choice (usf_alpha_preference sf) (usf_conditions sf)
           (usf_confidence sf) (usf_finalized sf))
        choice (usb_preference_strength s))"

record nnary_snowball =
  nsb_snowflake :: nnary_snowflake
  nsb_pref :: ava_id
  nsb_max_preference_strength :: nat
  nsb_preference_strength :: "(ava_id, nat) btree"

definition nsb_new :: "nat \<Rightarrow> termination_condition list \<Rightarrow> ava_id \<Rightarrow> nnary_snowball" where
  "nsb_new a cs choice = \<lparr>nsb_snowflake = nsf_new a cs choice, nsb_pref = choice,
     nsb_max_preference_strength = 0, nsb_preference_strength = []\<rparr>"

definition nsb_add :: "nnary_snowball \<Rightarrow> ava_id \<Rightarrow> nnary_snowball" where
  "nsb_add s choice = s\<lparr>nsb_snowflake := nsf_add (nsb_snowflake s) choice\<rparr>"

definition nsb_preference :: "nnary_snowball \<Rightarrow> ava_id" where
  "nsb_preference s =
     (if nsf_finalized (nsb_snowflake s) then nsf_preference (nsb_snowflake s) else nsb_pref s)"

definition strength_of :: "(ava_id, nat) btree \<Rightarrow> ava_id \<Rightarrow> nat" where
  "strength_of m c = (case bt_get m c of None \<Rightarrow> 0 | Some n \<Rightarrow> n)"

definition nsb_record_poll :: "nnary_snowball \<Rightarrow> nat \<Rightarrow> ava_id \<Rightarrow> nnary_snowball" where
  "nsb_record_poll s cnt choice =
     (let s1 =
        (if cnt \<ge> nsf_alpha_preference (nsb_snowflake s) then
           let strength = sat_add32 (strength_of (nsb_preference_strength s) choice) 1;
               t = s\<lparr>nsb_preference_strength := bt_insert choice strength (nsb_preference_strength s)\<rparr> in
           if strength > nsb_max_preference_strength s
           then t\<lparr>nsb_pref := choice, nsb_max_preference_strength := strength\<rparr> else t
         else s) in
      s1\<lparr>nsb_snowflake := nsf_record_poll (nsb_snowflake s1) cnt choice\<rparr>)"

definition nsb_record_unsuccessful_poll :: "nnary_snowball \<Rightarrow> nnary_snowball" where
  "nsb_record_unsuccessful_poll s =
     s\<lparr>nsb_snowflake := nsf_record_unsuccessful_poll (nsb_snowflake s)\<rparr>"

definition nsb_finalized :: "nnary_snowball \<Rightarrow> bool" where
  "nsb_finalized s = nsf_finalized (nsb_snowflake s)"

end
