(* ===== verification/Ava_Bag.thy ===== *)
theory Ava_Bag
  imports Ava_Prelude
begin

text \<open>
  The vote multiset \<^verbatim>\<open>Bag\<close> of \<^verbatim>\<open>crates/ava-utils/src/bag.rs\<close>: a hash map from
  elements to counts, the cached total, a threshold and the set of elements
  that met it. The hash map is an association list in an arbitrary order.

  The locale \<open>multiset_bag\<close> states what a bag promises in terms of the library
  multiset it stands for. The rebuilding loop that the snowball tree
  (\<^verbatim>\<open>filter_bag\<close>) and the poll set (\<^verbatim>\<open>remove_polled\<close>) both run is analysed once
  inside it.
\<close>

section \<open>The data structure\<close>

record 'a bag =
  bag_counts :: "('a \<times> nat) list"
  bag_size :: nat
  bag_thresh :: nat
  bag_met :: "'a list"

definition bag_new :: "'a bag" where
  "bag_new = \<lparr>bag_counts = [], bag_size = 0, bag_thresh = 0, bag_met = []\<rparr>"

definition bag_count :: "'a bag \<Rightarrow> 'a \<Rightarrow> nat" where
  "bag_count b v = (case map_of (bag_counts b) v of None \<Rightarrow> 0 | Some c \<Rightarrow> c)"

definition bag_add_count :: "'a \<Rightarrow> nat \<Rightarrow> 'a bag \<Rightarrow> 'a bag" where
  "bag_add_count v n b =
     (if n = 0 then b
      else
        let total = bag_count b v + n;
            b1 = b\<lparr>bag_counts := AList.update v total (bag_counts b), bag_size := bag_size b + n\<rparr> in
        if total \<ge> bag_thresh b then b1\<lparr>bag_met := List.insert v (bag_met b)\<rparr> else b1)"

definition bag_add :: "'a \<Rightarrow> 'a bag \<Rightarrow> 'a bag" where
  "bag_add v b = bag_add_count v 1 b"

definition bag_of :: "'a list \<Rightarrow> 'a bag" where
  "bag_of items = foldl (\<lambda>b v. bag_add v b) bag_new items"

definition bag_set_threshold :: "nat \<Rightarrow> 'a bag \<Rightarrow> 'a bag" where
  "bag_set_threshold t b =
     (if bag_thresh b = t then b
      else b\<lparr>bag_thresh := t,
             bag_met := map fst (filter (\<lambda>(v, c). c \<ge> t) (bag_counts b))\<rparr>)"

definition bag_len :: "'a bag \<Rightarrow> nat" where
  "bag_len b = bag_size b"

definition bag_is_empty :: "'a bag \<Rightarrow> bool" where
  "bag_is_empty b \<longleftrightarrow> bag_size b = 0"

definition bag_list :: "'a bag \<Rightarrow> 'a list" where
  "bag_list b = map fst (bag_counts b)"

text \<open>\<^verbatim>\<open>max_by_key\<close> keeps the last of several maximal elements.\<close>

definition bag_mode :: "'a bag \<Rightarrow> ('a \<times> nat) option" where
  "bag_mode b = foldl (\<lambda>m (v, c). case m of
       None \<Rightarrow> Some (v, c)
     | Some (w, d) \<Rightarrow> if c \<ge> d then Some (v, c) else Some (w, d)) None (bag_counts b)"

definition bag_threshold :: "'a bag \<Rightarrow> 'a list" where
  "bag_threshold b = bag_met b"

section \<open>Well-formed bags\<close>

definition bag_wf :: "'a bag \<Rightarrow> bool" where
  "bag_wf b \<longleftrightarrow> distinct (map fst (bag_counts b))
     \<and> (\<forall>(v, c) \<in> set (bag_counts b). 0 < c)
     \<and> bag_size b = sum_list (map snd (bag_counts b))
     \<and> distinct (bag_met b)
     \<and> set (bag_met b) = {v. 0 < bag_count b v \<and> bag_thresh b \<le> bag_count b v}"

text \<open>The multiset a bag stands for.\<close>

definition bag_mset :: "'a bag \<Rightarrow> 'a multiset" where
  "bag_mset b = sum_list (map (\<lambda>(v, c). replicate_mset c v) (bag_counts b))"

lemma count_replicates:
  "distinct (map fst xs) \<Longrightarrow>
   count (sum_list (map (\<lambda>(v, c). replicate_mset c v) xs)) v
     = (case map_of xs v of None \<Rightarrow> 0 | Some c \<Rightarrow> c)"
proof (induction xs)
  case (Cons x xs)
  show ?case
  proof (cases "fst x = v")
    case True
    with Cons.prems have "map_of xs v = None" by (auto simp: map_of_eq_None_iff)
    with True Cons show ?thesis by (cases x) simp
  qed (use Cons in \<open>cases x; simp\<close>)
qed simp

lemma count_bag_mset: "bag_wf b \<Longrightarrow> count (bag_mset b) v = bag_count b v"
  by (simp add: bag_mset_def bag_count_def bag_wf_def count_replicates)

lemma size_replicates:
  "size (sum_list (map (\<lambda>(v, c). replicate_mset c v) xs)) = sum_list (map snd xs)"
  by (induction xs) auto

lemma size_bag_mset: "bag_wf b \<Longrightarrow> size (bag_mset b) = bag_len b"
  by (simp add: bag_mset_def bag_wf_def bag_len_def size_replicates)

lemma bag_count_pos_iff:
  assumes "bag_wf b"
  shows "0 < bag_count b v \<longleftrightarrow> v \<in> set (bag_list b)"
proof (cases "map_of (bag_counts b) v")
  case None
  then have "v \<notin> fst ` set (bag_counts b)" by (simp add: map_of_eq_None_iff)
  with None show ?thesis by (simp add: bag_count_def bag_list_def)
next
  case (Some c)
  then have mem: "(v, c) \<in> set (bag_counts b)" by (rule map_of_SomeD)
  with assms have "0 < c" unfolding bag_wf_def by blast
  moreover from mem have "v \<in> fst ` set (bag_counts b)" by force
  ultimately show ?thesis using Some by (simp add: bag_count_def bag_list_def)
qed

lemma set_bag_list: "bag_wf b \<Longrightarrow> set (bag_list b) = set_mset (bag_mset b)"
  by (auto simp: count_bag_mset bag_count_pos_iff [symmetric] simp flip: count_greater_zero_iff)

lemma distinct_bag_list: "bag_wf b \<Longrightarrow> distinct (bag_list b)"
  by (simp add: bag_wf_def bag_list_def)

lemma bag_wf_new [simp]: "bag_wf bag_new"
  by (simp add: bag_wf_def bag_new_def bag_count_def)

lemma bag_mset_new [simp]: "bag_mset bag_new = {#}"
  by (simp add: bag_mset_def bag_new_def)

lemma bag_count_add_count:
  "bag_count (bag_add_count v n b) w = bag_count b w + (if w = v then n else 0)"
  by (auto simp: bag_count_def bag_add_count_def Let_def update_conv' split: option.splits)

lemma sum_list_update:
  assumes "distinct (map fst xs)"
  shows "sum_list (map snd (AList.update v ((case map_of xs v of None \<Rightarrow> 0 | Some c \<Rightarrow> c) + n) xs))
           = sum_list (map snd xs) + (n :: nat)"
  using assms
proof (induction xs)
  case (Cons x xs)
  show ?case
  proof (cases "fst x = v")
    case False
    with Cons show ?thesis by (cases x) simp
  qed (cases x, simp)
qed simp

lemma bag_wf_add_count:
  assumes wf: "bag_wf b"
  shows "bag_wf (bag_add_count v n b)"
proof (cases "n = 0")
  case False
  let ?xs = "bag_counts b" and ?b = "bag_add_count v n b" and ?t = "bag_count b v + n"
  from False have xs: "bag_counts ?b = AList.update v ?t ?xs"
    and sz: "bag_size ?b = bag_size b + n" and th: "bag_thresh ?b = bag_thresh b"
    and met: "bag_met ?b = (if ?t \<ge> bag_thresh b then List.insert v (bag_met b) else bag_met b)"
    by (simp_all add: bag_add_count_def Let_def)
  have d: "distinct (map fst (bag_counts ?b))"
    using wf by (simp add: xs bag_wf_def distinct_update)
  moreover have "\<forall>(w, c) \<in> set (bag_counts ?b). 0 < c"
  proof clarify
    fix w c assume "(w, c) \<in> set (bag_counts ?b)"
    with d have "map_of (bag_counts ?b) w = Some c" by simp
    then have "(if w = v then Some ?t else map_of ?xs w) = Some c" by (simp add: xs update_conv')
    with False wf show "0 < c"
      by (auto simp: bag_wf_def split: if_splits dest: map_of_SomeD)
  qed
  moreover have "bag_size ?b = sum_list (map snd (bag_counts ?b))"
    using wf sum_list_update [of ?xs v n] by (simp add: sz xs bag_wf_def bag_count_def)
  moreover have "distinct (bag_met ?b)"
    using wf by (simp add: met bag_wf_def)
  moreover have "set (bag_met ?b) = {w. 0 < bag_count ?b w \<and> bag_thresh ?b \<le> bag_count ?b w}"
    using wf False by (auto simp: met th bag_wf_def bag_count_add_count split: if_splits)
  ultimately show ?thesis by (simp add: bag_wf_def)
qed (simp add: bag_add_count_def wf)

lemma bag_mset_add_count:
  assumes "bag_wf b"
  shows "bag_mset (bag_add_count v n b) = bag_mset b + replicate_mset n v"
  by (rule multiset_eqI)
    (simp add: count_bag_mset assms bag_wf_add_count bag_count_add_count)

lemma bag_counts_iff:
  assumes "bag_wf b"
  shows "(v, c) \<in> set (bag_counts b) \<longleftrightarrow> c = bag_count b v \<and> 0 < c"
proof
  assume mem: "(v, c) \<in> set (bag_counts b)"
  with assms have "map_of (bag_counts b) v = Some c" by (simp add: bag_wf_def)
  moreover from mem assms have "0 < c" unfolding bag_wf_def by blast
  ultimately show "c = bag_count b v \<and> 0 < c" by (simp add: bag_count_def)
next
  assume c: "c = bag_count b v \<and> 0 < c"
  then have "map_of (bag_counts b) v = Some c" by (auto simp: bag_count_def split: option.splits)
  then show "(v, c) \<in> set (bag_counts b)" by (rule map_of_SomeD)
qed

lemma threshold_elems:
  assumes "bag_wf b"
  shows "v \<in> fst ` set (filter (\<lambda>(v, c). c \<ge> t) (bag_counts b))
    \<longleftrightarrow> 0 < bag_count b v \<and> t \<le> bag_count b v"
proof -
  have "v \<in> fst ` set (filter (\<lambda>(v, c). c \<ge> t) (bag_counts b))
      \<longleftrightarrow> (\<exists>c. (v, c) \<in> set (bag_counts b) \<and> t \<le> c)"
    by (auto simp: image_iff Bex_def)
  then show ?thesis by (auto simp: bag_counts_iff [OF assms])
qed

lemma bag_wf_set_threshold:
  assumes "bag_wf b"
  shows "bag_wf (bag_set_threshold t b)"
proof (cases "bag_thresh b = t")
  case False
  then show ?thesis using assms threshold_elems [OF assms]
    by (auto simp: bag_set_threshold_def bag_wf_def bag_count_def distinct_map_filter)
qed (simp add: bag_set_threshold_def assms)

section \<open>The interface of a bag\<close>

locale multiset_bag =
  fixes wf :: "'b \<Rightarrow> bool"
    and abs :: "'b \<Rightarrow> 'a multiset"
    and empty :: 'b
    and add_count :: "'a \<Rightarrow> nat \<Rightarrow> 'b \<Rightarrow> 'b"
    and count_of :: "'b \<Rightarrow> 'a \<Rightarrow> nat"
    and len :: "'b \<Rightarrow> nat"
    and elems :: "'b \<Rightarrow> 'a list"
  assumes wf_empty: "wf empty"
    and wf_add: "wf b \<Longrightarrow> wf (add_count v n b)"
    and abs_empty: "abs empty = {#}"
    and abs_add: "wf b \<Longrightarrow> abs (add_count v n b) = abs b + replicate_mset n v"
    and count_abs: "wf b \<Longrightarrow> count_of b v = count (abs b) v"
    and len_abs: "wf b \<Longrightarrow> len b = size (abs b)"
    and elems_abs: "wf b \<Longrightarrow> set (elems b) = set_mset (abs b)"
    and elems_distinct: "wf b \<Longrightarrow> distinct (elems b)"
begin

text \<open>
  Copying into an empty bag, with their counts, the elements that satisfy a
  predicate gives the bag of the filtered multiset.
\<close>

lemma copy_loop:
  assumes "wf b" "wf out" "distinct vs"
  shows "wf (foldl (\<lambda>out v. if keep v then add_count v (count_of b v) out else out) out vs)
    \<and> abs (foldl (\<lambda>out v. if keep v then add_count v (count_of b v) out else out) out vs)
        = abs out + filter_mset (\<lambda>v. keep v \<and> v \<in> set vs) (abs b)"
  using assms(2,3)
proof (induction vs arbitrary: out)
  case (Cons v vs)
  let ?out = "if keep v then add_count v (count_of b v) out else out"
  have wf: "wf ?out" using Cons.prems(1) by (simp add: wf_add)
  have "abs ?out + filter_mset (\<lambda>w. keep w \<and> w \<in> set vs) (abs b)
      = abs out + filter_mset (\<lambda>w. keep w \<and> w \<in> set (v # vs)) (abs b)"
    using Cons.prems assms(1) by (auto simp: multiset_eq_iff abs_add count_abs)
  with Cons.IH [OF wf] Cons.prems(2) show ?case by simp
qed simp

lemma rebuild:
  assumes "wf b"
  shows "wf (foldl (\<lambda>out v. if keep v then add_count v (count_of b v) out else out) empty (elems b))"
    and "abs (foldl (\<lambda>out v. if keep v then add_count v (count_of b v) out else out) empty (elems b))
      = filter_mset keep (abs b)"
  using copy_loop [OF assms wf_empty elems_distinct [OF assms], of keep] assms
  by (auto simp: abs_empty elems_abs multiset_eq_iff not_in_iff)

end

interpretation bg: multiset_bag bag_wf bag_mset bag_new bag_add_count bag_count bag_len bag_list
  by unfold_locales
    (simp_all add: bag_wf_add_count bag_mset_add_count count_bag_mset size_bag_mset
      set_bag_list distinct_bag_list)

lemma bag_wf_of: "bag_wf (bag_of xs)"
proof -
  have "bag_wf (foldl (\<lambda>b v. bag_add v b) b xs)" if "bag_wf b" for b
    using that by (rule foldl_invariant) (simp add: bag_add_def bag_wf_add_count)
  then show ?thesis by (simp add: bag_of_def)
qed

lemma bag_mset_of: "bag_mset (bag_of xs) = mset xs"
proof -
  have "bag_mset (foldl (\<lambda>b v. bag_add v b) b xs) = bag_mset b + mset xs" if "bag_wf b" for b
    using that by (induction xs arbitrary: b) (simp_all add: bag_add_def bag_wf_add_count bag_mset_add_count)
  then show ?thesis by (simp add: bag_of_def)
qed

text \<open>The mode of a nonempty bag is an element with the largest count.\<close>

lemma bag_mode_max:
  assumes "bag_mode b = Some (v, c)"
  shows "(v, c) \<in> set (bag_counts b)" "\<forall>(w, d) \<in> set (bag_counts b). d \<le> c"
proof -
  let ?f = "\<lambda>m (v, c). case m of None \<Rightarrow> Some (v, c)
     | Some (w, d) \<Rightarrow> if c \<ge> d then Some (v, c) else Some (w, d :: nat)"
  have "(case foldl ?f None xs of None \<Rightarrow> xs = []
      | Some (v, c) \<Rightarrow> (v, c) \<in> set xs \<and> (\<forall>(w, d) \<in> set xs. d \<le> c))" for xs :: "('a \<times> nat) list"
  proof (induction xs rule: rev_induct)
    case (snoc x xs)
    then show ?case by (cases x) (auto split: option.splits if_splits)
  qed simp
  from this [of "bag_counts b"] assms
  show "(v, c) \<in> set (bag_counts b)" "\<forall>(w, d) \<in> set (bag_counts b). d \<le> c"
    by (auto simp: bag_mode_def)
qed

end
