(* ===== verification/Ava_Tree.thy ===== *)
theory Ava_Tree
  imports Ava_Snow Ava_Bag
begin

text \<open>
  The snowball tree of \<^verbatim>\<open>crates/ava-snow/src/snowball/tree.rs\<close> and the factory
  traits of \<^verbatim>\<open>consensus.rs\<close> it is generic over.

  A factory is the record of the operations its associated types provide
  (the dictionary the Rust compiler would pass). A tree node is a datatype with
  the constructors of the Rust \<^verbatim>\<open>Node\<close>, the transient \<^verbatim>\<open>Empty\<close> included. Bit
  positions are \<^verbatim>\<open>i32\<close> values, kept as \<open>int\<close>.
\<close>

section \<open>Factories\<close>

record ('u, 'b) factory =
  f_new_unary :: "parameters \<Rightarrow> 'u"
  f_unary_poll :: "'u \<Rightarrow> nat \<Rightarrow> 'u"
  f_unary_falter :: "'u \<Rightarrow> 'u"
  f_unary_finalized :: "'u \<Rightarrow> bool"
  f_unary_extend :: "'u \<Rightarrow> nat \<Rightarrow> 'b"
  f_binary_preference :: "'b \<Rightarrow> nat"
  f_binary_poll :: "'b \<Rightarrow> nat \<Rightarrow> nat \<Rightarrow> 'b"
  f_binary_falter :: "'b \<Rightarrow> 'b"
  f_binary_finalized :: "'b \<Rightarrow> bool"

definition snowball_new_nnary :: "parameters \<Rightarrow> ava_id \<Rightarrow> nnary_snowball" where
  "snowball_new_nnary p choice =
     nsb_new (p_alpha_preference p) (tc_single (p_alpha_confidence p) (p_beta p)) choice"

definition snowball_new_unary :: "parameters \<Rightarrow> unary_snowball" where
  "snowball_new_unary p =
     usb_new (p_alpha_preference p) (tc_single (p_alpha_confidence p) (p_beta p))"

definition snowball_factory :: "(unary_snowball, binary_snowball) factory" where
  "snowball_factory = \<lparr>
     f_new_unary = snowball_new_unary,
     f_unary_poll = usb_record_poll,
     f_unary_falter = usb_record_unsuccessful_poll,
     f_unary_finalized = usb_finalized,
     f_unary_extend = usb_extend,
     f_binary_preference = bsb_preference,
     f_binary_poll = bsb_record_poll,
     f_binary_falter = bsb_record_unsuccessful_poll,
     f_binary_finalized = bsb_finalized\<rparr>"

definition snowflake_new_nnary :: "parameters \<Rightarrow> ava_id \<Rightarrow> nnary_snowflake" where
  "snowflake_new_nnary p choice =
     nsf_new (p_alpha_preference p) (tc_single (p_alpha_confidence p) (p_beta p)) choice"

definition snowflake_new_unary :: "parameters \<Rightarrow> unary_snowflake" where
  "snowflake_new_unary p =
     usf_new (p_alpha_preference p) (tc_single (p_alpha_confidence p) (p_beta p))"

definition snowflake_factory :: "(unary_snowflake, binary_snowflake) factory" where
  "snowflake_factory = \<lparr>
     f_new_unary = snowflake_new_unary,
     f_unary_poll = usf_record_poll,
     f_unary_falter = usf_record_unsuccessful_poll,
     f_unary_finalized = usf_finalized,
     f_unary_extend = usf_extend,
     f_binary_preference = bsf_preference,
     f_binary_poll = bsf_record_poll,
     f_binary_falter = bsf_record_unsuccessful_poll,
     f_binary_finalized = bsf_finalized\<rparr>"

section \<open>Nodes\<close>

text \<open>
  \<open>UnaryN preference decided_prefix common_prefix snow should_reset child\<close> and
  \<open>BinaryN preferences bit snow should_reset children\<close>.
\<close>

datatype ('u, 'b) node =
    UnaryN ava_id int int 'u bool "('u, 'b) node option"
  | BinaryN "ava_id arr2" int 'b "bool arr2" "('u, 'b) node option arr2"
  | EmptyN

fun node_preference :: "('u, 'b) factory \<Rightarrow> ('u, 'b) node \<Rightarrow> ava_id" where
  "node_preference F (UnaryN p dp cp u sr ch) = p"
| "node_preference F (BinaryN ps i b rs chs) = get2 ps (f_binary_preference F b)"
| "node_preference F EmptyN = id_EMPTY"

fun node_decided_prefix :: "('u, 'b) node \<Rightarrow> int" where
  "node_decided_prefix (UnaryN p dp cp u sr ch) = dp"
| "node_decided_prefix (BinaryN ps i b rs chs) = i"
| "node_decided_prefix EmptyN = NUM_BITS"

fun node_finalized :: "('u, 'b) factory \<Rightarrow> ('u, 'b) node \<Rightarrow> bool" where
  "node_finalized F (UnaryN p dp cp u sr ch) = f_unary_finalized F u"
| "node_finalized F (BinaryN ps i b rs chs) = f_binary_finalized F b"
| "node_finalized F EmptyN = False"

lemma size_get2_child:
  "get2 chs i = Some c \<Longrightarrow> size c < size (BinaryN ps j b rs chs)"
  by (cases chs) (auto split: if_splits)

text \<open>
  The children of the binary node made by a split: the old child, if any, on
  the preferred side and then the new child on the other side.
\<close>

definition split_children ::
    "nat \<Rightarrow> ('u, 'b) node option \<Rightarrow> ('u, 'b) node \<Rightarrow> ('u, 'b) node option arr2" where
  "split_children pb child new_child =
     (let chs = set2 (A2 None None) pb child in
      case child of None \<Rightarrow> chs | Some _ \<Rightarrow> set2 chs (other pb) (Some new_child))"

text \<open>
  \<^verbatim>\<open>UnaryNode::add\<close> after a first difference at \<open>index\<close> was found: the four ways
  of splitting the run (cases 2 to 5 of the source).
\<close>

definition unary_split ::
    "('u, 'b) factory \<Rightarrow> parameters \<Rightarrow> ava_id \<Rightarrow> nat
      \<Rightarrow> ava_id \<Rightarrow> int \<Rightarrow> int \<Rightarrow> 'u \<Rightarrow> bool \<Rightarrow> ('u, 'b) node option \<Rightarrow> ('u, 'b) node" where
  "unary_split F P new_choice idx p dp cp u sr child =
     (let index = int idx;
          pb = id_bit p (nat index);
          prefs = set2 (set2 (A2 id_EMPTY id_EMPTY) pb p) (other pb) new_choice;
          snow = f_unary_extend F u pb;
          new_child = UnaryN new_choice (sat_add_i32 index 1) NUM_BITS (f_new_unary F P) False None in
      if dp = sat_sub_i32 cp 1 then
        BinaryN prefs index snow (A2 sr sr) (split_children pb child new_child)
      else if index = dp then
        BinaryN prefs index snow (A2 sr sr)
          (set2 (set2 (A2 None None) (other pb) (Some new_child)) pb
             (Some (UnaryN p (sat_add_i32 dp 1) cp u sr child)))
      else if index = sat_sub_i32 cp 1 then
        UnaryN p dp (sat_sub_i32 cp 1) u sr
          (Some (BinaryN prefs index snow (A2 sr sr) (split_children pb child new_child)))
      else
        UnaryN p dp index u False
          (Some (BinaryN prefs index snow (A2 sr sr)
             (set2 (set2 (A2 None None) (other pb) (Some new_child)) pb
                (Some (UnaryN p (sat_add_i32 index 1) cp u sr child))))))"

function node_add ::
    "('u, 'b) factory \<Rightarrow> parameters \<Rightarrow> ava_id \<Rightarrow> ('u, 'b) node \<Rightarrow> ('u, 'b) node" where
  "node_add F P x (UnaryN p dp cp u sr child) =
     (if f_unary_finalized F u then UnaryN p dp cp u sr child
      else case first_difference_subset dp cp p x of
        None \<Rightarrow>
          (case child of
             Some c \<Rightarrow> UnaryN p dp cp u sr (Some (node_add F P x c))
           | None \<Rightarrow> UnaryN p dp cp u sr None)
      | Some index \<Rightarrow> unary_split F P x index p dp cp u sr child)"
| "node_add F P x (BinaryN ps i b rs chs) =
     (let pb = id_bit x (nat i) in
      case get2 chs pb of
        Some c \<Rightarrow> BinaryN ps i b rs (set2 chs pb (Some (node_add F P x c)))
      | None \<Rightarrow> BinaryN ps i b rs chs)"
| "node_add F P x EmptyN = EmptyN"
  by pat_completeness auto
termination
  by (relation "measure (\<lambda>(F, P, x, n). size n)") (auto dest: size_get2_child)

text \<open>\<^verbatim>\<open>filter_bag\<close>.\<close>

definition filter_bag :: "ava_id bag \<Rightarrow> (ava_id \<Rightarrow> bool) \<Rightarrow> ava_id bag" where
  "filter_bag votes keep =
     foldl (\<lambda>out v. if keep v then bag_add_count v (bag_count votes v) out else out)
       bag_new (bag_list votes)"

function node_record_poll ::
    "('u, 'b) factory \<Rightarrow> parameters \<Rightarrow> ('u, 'b) node \<Rightarrow> ava_id bag \<Rightarrow> bool \<Rightarrow> ('u, 'b) node \<times> bool" where
  "node_record_poll F P (UnaryN p dp cp u sr child) votes reset =
     (let u1 = (if reset then f_unary_falter F u else u);
          sr1 = (if reset then True else sr);
          num_votes = clamp_u32 (bag_len votes) in
      if num_votes < p_alpha_preference P then
        (UnaryN p dp cp (f_unary_falter F u1) True child, False)
      else
        let u2 = f_unary_poll F u1 num_votes in
        case child of
          Some c \<Rightarrow>
            let new_child = fst (node_record_poll F P c votes sr1) in
            if f_unary_finalized F u2 then (new_child, True)
            else (UnaryN (node_preference F new_child) dp cp u2 False (Some new_child), True)
        | None \<Rightarrow> (UnaryN p dp cp u2 False None, True))"
| "node_record_poll F P (BinaryN ps i b rs chs) votes reset =
     (let split1 = filter_bag votes (\<lambda>x. id_bit x (nat i) = 1);
          split0 = filter_bag votes (\<lambda>x. id_bit x (nat i) = 0);
          pb = (if clamp_u32 (bag_len split1) \<ge> p_alpha_preference P then 1 else 0);
          b1 = (if reset then f_binary_falter F b else b);
          rs1 = set2 (if reset then set2 rs pb True else rs) (other pb) True;
          pruned = (if pb = 1 then split1 else split0);
          num_votes = clamp_u32 (bag_len pruned) in
      if num_votes < p_alpha_preference P then
        (BinaryN ps i (f_binary_falter F b1) (set2 rs1 pb True) chs, False)
      else
        let b2 = f_binary_poll F b1 num_votes pb in
        case get2 chs pb of
          Some c \<Rightarrow>
            let new_child = fst (node_record_poll F P c pruned (get2 rs1 pb)) in
            if f_binary_finalized F b2 then (new_child, True)
            else (BinaryN (set2 ps pb (node_preference F new_child)) i b2
                    (set2 rs1 pb False) (set2 chs pb (Some new_child)), True)
        | None \<Rightarrow> (BinaryN ps i b2 (set2 rs1 pb False) chs, True))"
| "node_record_poll F P EmptyN votes reset = (EmptyN, False)"
  by pat_completeness auto
termination
  by (relation "measure (\<lambda>(F, P, n, votes, reset). size n)") (auto dest: size_get2_child)

section \<open>The tree\<close>

record ('u, 'b) tree =
  t_node :: "('u, 'b) node"
  t_params :: parameters
  t_should_reset :: bool

definition tree_new :: "('u, 'b) factory \<Rightarrow> parameters \<Rightarrow> ava_id \<Rightarrow> ('u, 'b) tree" where
  "tree_new F P choice = \<lparr>
     t_node = UnaryN choice 0 NUM_BITS (f_new_unary F P) False None,
     t_params = P, t_should_reset = False\<rparr>"

definition tree_preference :: "('u, 'b) factory \<Rightarrow> ('u, 'b) tree \<Rightarrow> ava_id" where
  "tree_preference F t = node_preference F (t_node t)"

definition tree_add :: "('u, 'b) factory \<Rightarrow> ('u, 'b) tree \<Rightarrow> ava_id \<Rightarrow> ('u, 'b) tree" where
  "tree_add F t choice =
     (if equal_subset 0 (node_decided_prefix (t_node t)) (node_preference F (t_node t)) choice
      then t\<lparr>t_node := node_add F (t_params t) choice (t_node t)\<rparr> else t)"

definition tree_record_poll ::
    "('u, 'b) factory \<Rightarrow> ('u, 'b) tree \<Rightarrow> ava_id bag \<Rightarrow> ('u, 'b) tree \<times> bool" where
  "tree_record_poll F t votes =
     (let dp = node_decided_prefix (t_node t);
          pref = tree_preference F t;
          filtered = filter_bag votes (\<lambda>x. equal_subset 0 dp pref x);
          (new_node, successful) =
            node_record_poll F (t_params t) (t_node t) filtered (t_should_reset t) in
      (t\<lparr>t_node := new_node, t_should_reset := False\<rparr>, successful))"

definition tree_record_unsuccessful_poll :: "('u, 'b) tree \<Rightarrow> ('u, 'b) tree" where
  "tree_record_unsuccessful_poll t = t\<lparr>t_should_reset := True\<rparr>"

definition tree_finalized :: "('u, 'b) factory \<Rightarrow> ('u, 'b) tree \<Rightarrow> bool" where
  "tree_finalized F t = node_finalized F (t_node t)"

end
