(* ===== verification/Ava_Topo.thy ===== *)
theory Ava_Topo
  imports Ava_Tree
begin

text \<open>
  Snowman consensus: \<^verbatim>\<open>Topological\<close> of
  \<^verbatim>\<open>crates/ava-snow/src/snowman/topological.rs\<close>.

  A block is what consensus reads of it through the \<^verbatim>\<open>Block\<close> trait: its id, its
  parent, its height, its bytes. The VM behind \<^verbatim>\<open>accept\<close> and \<^verbatim>\<open>reject\<close> and the
  block acceptor are the parameter \<open>vm\<close>: given the calls made so far and the
  next call it returns the error of that call, if any. The field \<open>tp_log\<close> is a
  ghost that records these calls in order. An operation returns the state it
  leaves behind together with its \<^verbatim>\<open>Result\<close>, so that an error keeps the partial
  update, as \<^verbatim>\<open>&mut self\<close> does.
\<close>

section \<open>State\<close>

record blk =
  b_id :: ava_id
  b_parent :: ava_id
  b_height :: nat
  b_bytes :: "u8 list"

datatype top_error =
    DuplicateAdd
  | UnknownParentBlock
  | TooManyProcessingBlocks
  | BlockProcessingTooLong
  | AcceptanceTimeTooHigh
  | ParametersInvalid params_error
  | Multiple "top_error list"
  | VmError nat

datatype vm_call = Acceptor ava_id "u8 list" | Accept blk | Reject blk

type_synonym vm = "vm_call list \<Rightarrow> vm_call \<Rightarrow> top_error option"

record ('u, 'b) snowman_block =
  sm_blk :: "blk option"
  sm_should_falter :: bool
  sm_sb :: "('u, 'b) tree option"
  sm_children :: "(ava_id, blk) btree"

definition sm_genesis :: "('u, 'b) snowman_block" where
  "sm_genesis = \<lparr>sm_blk = None, sm_should_falter = False, sm_sb = None, sm_children = []\<rparr>"

definition sm_processing :: "blk \<Rightarrow> ('u, 'b) snowman_block" where
  "sm_processing b = \<lparr>sm_blk = Some b, sm_should_falter = False, sm_sb = None, sm_children = []\<rparr>"

definition sm_decided :: "nat \<Rightarrow> ('u, 'b) snowman_block \<Rightarrow> bool" where
  "sm_decided last_accepted_height n =
     (case sm_blk n of None \<Rightarrow> True | Some b \<Rightarrow> b_height b \<le> last_accepted_height)"

definition sm_add_child ::
    "('u, 'b) factory \<Rightarrow> parameters \<Rightarrow> blk \<Rightarrow> ('u, 'b) snowman_block \<Rightarrow> ('u, 'b) snowman_block" where
  "sm_add_child F P child n =
     (let child_id = b_id child;
          sb = (case sm_sb n of None \<Rightarrow> tree_new F P child_id | Some sb \<Rightarrow> tree_add F sb child_id) in
      n\<lparr>sm_sb := Some sb, sm_children := bt_insert child_id child (sm_children n)\<rparr>)"

type_synonym ('u, 'b) blocks = "(ava_id, ('u, 'b) snowman_block) btree"

record kahn_node =
  kn_in_degree :: int
  kn_votes :: "ava_id bag"

definition kahn_default :: kahn_node where
  "kahn_default = \<lparr>kn_in_degree = 0, kn_votes = bag_new\<rparr>"

text \<open>\<^verbatim>\<open>kahn_nodes.entry(id).or_default()\<close>, read.\<close>

definition kahn_entry :: "(ava_id, kahn_node) btree \<Rightarrow> ava_id \<Rightarrow> kahn_node" where
  "kahn_entry kn i = (case bt_get kn i of None \<Rightarrow> kahn_default | Some k \<Rightarrow> k)"

record votes =
  vo_parent_id :: ava_id
  vo_votes :: "ava_id bag"

record ('u, 'b) topological =
  tp_poll_number :: nat
  tp_params :: parameters
  tp_last_accepted_id :: ava_id
  tp_last_accepted_height :: nat
  tp_blocks :: "('u, 'b) blocks"
  tp_preferred_ids :: "ava_id list"
  tp_preferred_heights :: "(nat, ava_id) btree"
  tp_preference :: ava_id
  tp_log :: "vm_call list"

definition topo_new :: "parameters \<Rightarrow> ava_id \<Rightarrow> nat \<Rightarrow> top_error + ('u, 'b) topological" where
  "topo_new P last_id last_height = (case params_verify P of
       Inl e \<Rightarrow> Inl (ParametersInvalid e)
     | Inr _ \<Rightarrow> Inr \<lparr>tp_poll_number = 0, tp_params = P, tp_last_accepted_id = last_id,
         tp_last_accepted_height = last_height, tp_blocks = bt_insert last_id sm_genesis [],
         tp_preferred_ids = [], tp_preferred_heights = [], tp_preference = last_id, tp_log = []\<rparr>)"

section \<open>Queries\<close>

definition topo_num_processing :: "('u, 'b) topological \<Rightarrow> nat" where
  "topo_num_processing s = length (tp_blocks s) - 1"

definition topo_processing :: "('u, 'b) topological \<Rightarrow> ava_id \<Rightarrow> bool" where
  "topo_processing s i = (if i = tp_last_accepted_id s then False else bt_get (tp_blocks s) i \<noteq> None)"

definition topo_is_preferred :: "('u, 'b) topological \<Rightarrow> ava_id \<Rightarrow> bool" where
  "topo_is_preferred s i \<longleftrightarrow> i = tp_last_accepted_id s \<or> i \<in> set (tp_preferred_ids s)"

definition topo_last_accepted :: "('u, 'b) topological \<Rightarrow> ava_id \<times> nat" where
  "topo_last_accepted s = (tp_last_accepted_id s, tp_last_accepted_height s)"

definition topo_preference_at_height :: "('u, 'b) topological \<Rightarrow> nat \<Rightarrow> ava_id option" where
  "topo_preference_at_height s h =
     (if h = tp_last_accepted_height s then Some (tp_last_accepted_id s)
      else bt_get (tp_preferred_heights s) h)"

definition topo_get_parent :: "('u, 'b) topological \<Rightarrow> ava_id \<Rightarrow> ava_id option" where
  "topo_get_parent s i = (case bt_get (tp_blocks s) i of None \<Rightarrow> None
     | Some n \<Rightarrow> map_option b_parent (sm_blk n))"

text \<open>The result of \<^verbatim>\<open>health_check\<close>; durations are in nanoseconds.\<close>

definition MAX_ACCEPTANCE_TIME :: nat where
  "MAX_ACCEPTANCE_TIME = 15 * 10 ^ 9"

definition topo_health_check :: "('u, 'b) topological \<Rightarrow> nat \<Rightarrow> nat \<Rightarrow> top_error + unit" where
  "topo_health_check s longest_processing avg_acceptance_time =
     (let errs = (if topo_num_processing s > p_max_outstanding_items (tp_params s)
                  then [TooManyProcessingBlocks] else [])
               @ (if longest_processing > p_max_item_processing_time (tp_params s)
                  then [BlockProcessingTooLong] else [])
               @ (if avg_acceptance_time > MAX_ACCEPTANCE_TIME then [AcceptanceTimeTooHigh] else []) in
      if errs = [] then Inr () else Inl (Multiple errs))"

section \<open>Issuing a block\<close>

definition topo_add ::
    "('u, 'b) factory \<Rightarrow> ('u, 'b) topological \<Rightarrow> blk \<Rightarrow> ('u, 'b) topological \<times> (top_error + unit)" where
  "topo_add F s b =
     (if topo_processing s (b_id b) then (s, Inl DuplicateAdd)
      else if bt_get (tp_blocks s) (b_parent b) = None then (s, Inl UnknownParentBlock)
      else
        let bs1 = bt_modify (b_parent b) (sm_add_child F (tp_params s) b) (tp_blocks s);
            s1 = s\<lparr>tp_blocks := bt_insert (b_id b) (sm_processing b) bs1\<rparr>;
            s2 = (if tp_preference s1 = b_parent b
                  then s1\<lparr>tp_preference := b_id b,
                          tp_preferred_ids := bs_insert (b_id b) (tp_preferred_ids s1),
                          tp_preferred_heights := bt_insert (b_height b) (b_id b) (tp_preferred_heights s1)\<rparr>
                  else s1) in
        (s2, Inr ()))"

section \<open>Propagating votes\<close>

text \<open>
  The blocks whose parent has no Kahn node yet: the ancestor walk gives one of
  them a parent node in each step, so it ends even on a malformed block map.
\<close>

definition unseen :: "('u, 'b) blocks \<Rightarrow> (ava_id, kahn_node) btree \<Rightarrow> ava_id set" where
  "unseen bs kn = {i. \<exists>n b. bt_get bs i = Some n \<and> sm_blk n = Some b \<and> bt_get kn (b_parent b) = None}"

lemma finite_unseen: "finite (unseen bs kn)"
  by (rule finite_subset [of _ "dom (bt_get bs)"]) (auto simp: unseen_def finite_dom_map_of)

lemma unseen_insert:
  assumes "bt_get bs i = Some n" "sm_blk n = Some b" "bt_get kn (b_parent b) = None"
  shows "card (unseen bs (bt_insert (b_parent b) k kn)) < card (unseen bs kn)"
proof (rule psubset_card_mono [OF finite_unseen])
  have "i \<in> unseen bs kn" "i \<notin> unseen bs (bt_insert (b_parent b) k kn)"
    using assms by (auto simp: unseen_def map_simps)
  moreover have "unseen bs (bt_insert (b_parent b) k kn) \<subseteq> unseen bs kn"
    by (auto simp: unseen_def map_simps split: if_splits)
  ultimately show "unseen bs (bt_insert (b_parent b) k kn) \<subset> unseen bs kn" by blast
qed

type_synonym kahn = "(ava_id, kahn_node) btree \<times> ava_id list"

function kahn_walk :: "nat \<Rightarrow> ('u, 'b) blocks \<Rightarrow> ava_id \<Rightarrow> kahn \<Rightarrow> kahn" where
  "kahn_walk h bs pid (kn, leaves) =
     (case bt_get bs pid of
        None \<Rightarrow> (kn, leaves)
      | Some n \<Rightarrow>
          if sm_decided h n then (kn, leaves)
          else case sm_blk n of
            None \<Rightarrow> (kn, leaves)
          | Some b \<Rightarrow>
              let kahn = kahn_entry kn (b_parent b);
                  kn' = bt_insert (b_parent b)
                          (kahn\<lparr>kn_in_degree := sat_add_i64 (kn_in_degree kahn) 1\<rparr>) kn in
              if bt_get kn (b_parent b) \<noteq> None then (kn', bs_remove (b_parent b) leaves)
              else kahn_walk h bs (b_parent b) (kn', leaves))"
  by pat_completeness auto
termination
  by (relation "measure (\<lambda>(h, bs, pid, kn, leaves). card (unseen bs kn))")
    (auto simp del: card_gt_0_iff intro!: unseen_insert)

definition kahn_vote :: "nat \<Rightarrow> ('u, 'b) blocks \<Rightarrow> ava_id bag \<Rightarrow> kahn \<Rightarrow> ava_id \<Rightarrow> kahn" where
  "kahn_vote h bs votes st vote =
     (case bt_get bs vote of
        None \<Rightarrow> st
      | Some n \<Rightarrow>
          if sm_decided h n then st
          else case sm_blk n of
            None \<Rightarrow> st
          | Some b \<Rightarrow>
              let parent_id = b_parent b;
                  kahn = kahn_entry (fst st) parent_id;
                  kn' = bt_insert parent_id
                          (kahn\<lparr>kn_votes := bag_add_count vote (bag_count votes vote) (kn_votes kahn)\<rparr>) (fst st) in
              if bt_get (fst st) parent_id \<noteq> None then (kn', snd st)
              else kahn_walk h bs parent_id (kn', bs_insert parent_id (snd st)))"

definition calculate_in_degree :: "('u, 'b) topological \<Rightarrow> ava_id bag \<Rightarrow> kahn" where
  "calculate_in_degree s votes =
     foldl (kahn_vote (tp_last_accepted_height s) (tp_blocks s) votes) ([], []) (bag_list votes)"

text \<open>
  The Kahn nodes that wait for a child. Every iteration of \<^verbatim>\<open>push_votes\<close> takes a
  leaf, and a node that becomes a leaf stops waiting.
\<close>

definition waiting :: "(ava_id, kahn_node) btree \<Rightarrow> ava_id set" where
  "waiting kn = {i. \<exists>k. bt_get kn i = Some k \<and> 0 < kn_in_degree k}"

lemma finite_waiting: "finite (waiting kn)"
  by (rule finite_subset [of _ "dom (bt_get kn)"]) (auto simp: waiting_def finite_dom_map_of)

lemma length_bs_insert: "length (bs_insert k xs) \<le> Suc (length xs)"
  by (induction k xs rule: bs_insert.induct) auto

lemma waiting_insert:
  "waiting (bt_insert i k kn) = (if 0 < kn_in_degree k then insert i (waiting kn) else waiting kn - {i})"
  by (auto simp: waiting_def map_simps split: if_splits)

lemma waiting_entry: "i \<in> waiting kn \<longleftrightarrow> 0 < kn_in_degree (kahn_entry kn i)"
  by (auto simp: waiting_def kahn_entry_def kahn_default_def split: option.splits)

lemma waiting_same:
  "kn_in_degree k = kn_in_degree (kahn_entry kn i) \<Longrightarrow> waiting (bt_insert i k kn) = waiting kn"
  by (auto simp: waiting_insert waiting_entry)

lemma sat_pred_i64:
  "0 < sat_sub_i64 x 1 \<Longrightarrow> 0 < x" "sat_sub_i64 x 1 = 0 \<Longrightarrow> 0 < x"
  by (auto simp: sat_sub_i64_def i64_min_def i64_max_def max_def min_def split: if_splits)

lemma waiting_decrement:
  assumes "kn_in_degree k = sat_sub_i64 (kn_in_degree (kahn_entry kn i)) 1"
  shows "card (waiting (bt_insert i k kn)) + (if kn_in_degree k = 0 then 1 else 0) \<le> card (waiting kn)"
proof (cases "kn_in_degree k = 0")
  case True
  with assms have "i \<in> waiting kn" using sat_pred_i64(2) by (simp add: waiting_entry)
  with True finite_waiting [of kn] show ?thesis
    by (simp add: waiting_insert card_Diff_singleton) (metis Suc_leI card_gt_0_iff empty_iff le_refl
        Suc_pred order_refl)
next
  case False
  have "waiting (bt_insert i k kn) \<subseteq> waiting kn"
    using assms sat_pred_i64(1) by (auto simp: waiting_insert waiting_entry)
  with False show ?thesis by (simp add: card_mono finite_waiting)
qed

text \<open>
  One iteration of \<^verbatim>\<open>push_votes\<close>: the leaf \<open>leaf_id\<close> has been removed from
  \<open>leaves\<close>. The vote stack has its top at the head.
\<close>

definition push_step ::
    "('u, 'b) topological \<Rightarrow> ava_id \<Rightarrow> kahn \<times> votes list \<Rightarrow> kahn \<times> votes list" where
  "push_step s leaf_id st =
     (let ((kn, leaves), stack) = st;
          votes_len = (case bt_get kn leaf_id of None \<Rightarrow> 0 | Some k \<Rightarrow> bag_len (kn_votes k));
          (kn1, stack1) =
            (if votes_len \<ge> p_alpha_preference (tp_params s) then
               (case bt_get kn leaf_id of
                  None \<Rightarrow> (kn, stack)
                | Some k \<Rightarrow> (bt_insert leaf_id (k\<lparr>kn_votes := bag_new\<rparr>) kn,
                             \<lparr>vo_parent_id = leaf_id, vo_votes = kn_votes k\<rparr> # stack))
             else (kn, stack)) in
      case bt_get (tp_blocks s) leaf_id of
        None \<Rightarrow> ((kn1, leaves), stack1)
      | Some n \<Rightarrow>
          if sm_decided (tp_last_accepted_height s) n then ((kn1, leaves), stack1)
          else case sm_blk n of
            None \<Rightarrow> ((kn1, leaves), stack1)
          | Some b \<Rightarrow>
              let k = kahn_entry kn1 (b_parent b);
                  k' = k\<lparr>kn_in_degree := sat_sub_i64 (kn_in_degree k) 1,
                         kn_votes := bag_add_count leaf_id votes_len (kn_votes k)\<rparr>;
                  kn2 = bt_insert (b_parent b) k' kn1 in
              ((kn2, if kn_in_degree k' = 0 then bs_insert (b_parent b) leaves else leaves), stack1))"

lemma push_step_measure:
  assumes "push_step s leaf_id ((kn, leaves), stack) = ((kn', leaves'), stack')"
  shows "card (waiting kn') + length leaves' \<le> card (waiting kn) + length leaves"
proof -
  define vl where "vl = (case bt_get kn leaf_id of None \<Rightarrow> 0 | Some k \<Rightarrow> bag_len (kn_votes k))"
  obtain kn1 stack1 where st1:
    "(if vl \<ge> p_alpha_preference (tp_params s) then
        (case bt_get kn leaf_id of
           None \<Rightarrow> (kn, stack)
         | Some k \<Rightarrow> (bt_insert leaf_id (k\<lparr>kn_votes := bag_new\<rparr>) kn,
                      \<lparr>vo_parent_id = leaf_id, vo_votes = kn_votes k\<rparr> # stack))
      else (kn, stack)) = (kn1, stack1)" by fastforce
  then have w1: "waiting kn1 = waiting kn"
    by (auto simp: waiting_same kahn_entry_def split: if_splits option.splits)
  note def = assms [unfolded push_step_def Let_def prod.case, folded vl_def, unfolded st1 prod.case]
  show ?thesis
  proof (cases "bt_get (tp_blocks s) leaf_id")
    case None
    with def w1 show ?thesis by simp
  next
    case (Some n)
    show ?thesis
    proof (cases "sm_decided (tp_last_accepted_height s) n \<or> sm_blk n = None")
      case True
      with Some def w1 show ?thesis by (auto split: option.splits)
    next
      case False
      then obtain b where b: "sm_blk n = Some b" and nd: "\<not> sm_decided (tp_last_accepted_height s) n" by auto
      define k where "k = kahn_entry kn1 (b_parent b)"
      define k' where "k' = k\<lparr>kn_in_degree := sat_sub_i64 (kn_in_degree k) 1,
        kn_votes := bag_add_count leaf_id vl (kn_votes k)\<rparr>"
      from def Some b nd have eq: "kn' = bt_insert (b_parent b) k' kn1"
        "leaves' = (if kn_in_degree k' = 0 then bs_insert (b_parent b) leaves else leaves)"
        by (auto simp: k'_def k_def)
      have "card (waiting kn') + (if kn_in_degree k' = 0 then 1 else 0) \<le> card (waiting kn)"
        using waiting_decrement [of k' kn1 "b_parent b"] w1 eq(1) by (simp add: k'_def k_def)
      with length_bs_insert [of "b_parent b" leaves] eq(2) show ?thesis by (auto split: if_splits)
    qed
  qed
qed

function push_votes ::
    "('u, 'b) topological \<Rightarrow> kahn \<times> votes list \<Rightarrow> votes list" where
  "push_votes s ((kn, []), stack) = stack"
| "push_votes s ((kn, leaf_id # leaves), stack) =
     push_votes s (push_step s leaf_id ((kn, bs_remove leaf_id (leaf_id # leaves)), stack))"
  by pat_completeness auto
termination
proof (relation "measure (\<lambda>(s, (kn, leaves), stack). card (waiting kn) + length leaves)")
  fix s :: "('u, 'b) topological" and kn leaf_id leaves stack
  obtain kn' leaves' stack' where
    eq: "push_step s leaf_id ((kn, bs_remove leaf_id (leaf_id # leaves)), stack) = ((kn', leaves'), stack')"
    by (metis surj_pair)
  have "length (bs_remove leaf_id (leaf_id # leaves)) \<le> length leaves" by (simp add: bs_remove_def)
  with push_step_measure [OF eq] eq
  show "((s, push_step s leaf_id ((kn, bs_remove leaf_id (leaf_id # leaves)), stack)),
         (s, (kn, leaf_id # leaves), stack))
       \<in> measure (\<lambda>(s, (kn, leaves), stack). card (waiting kn) + length leaves)"
    by simp
qed simp

section \<open>Accepting and rejecting\<close>

definition perform ::
    "vm \<Rightarrow> vm_call \<Rightarrow> ('u, 'b) topological \<Rightarrow> ('u, 'b) topological \<times> (top_error + unit)" where
  "perform vm c s =
     (s\<lparr>tp_log := tp_log s @ [c]\<rparr>,
      case vm (tp_log s) c of None \<Rightarrow> Inr () | Some e \<Rightarrow> Inl e)"

fun reject_all ::
    "vm \<Rightarrow> ('u, 'b) topological \<Rightarrow> blk list \<Rightarrow> ('u, 'b) topological \<times> (top_error + unit)" where
  "reject_all vm s [] = (s, Inr ())"
| "reject_all vm s (b # bs) = (case perform vm (Reject b) s of
       (s', Inl e) \<Rightarrow> (s', Inl e)
     | (s', Inr _) \<Rightarrow> reject_all vm s' bs)"

lemma reject_all_blocks [simp]: "tp_blocks (fst (reject_all vm s bs)) = tp_blocks s"
  by (induction vm s bs rule: reject_all.induct) (auto simp: perform_def split: sum.splits option.splits)

lemma reject_all_eq_blocks: "reject_all vm s bs = (s', r) \<Longrightarrow> tp_blocks s' = tp_blocks s"
  using reject_all_blocks [of vm s bs] by simp

text \<open>\<^verbatim>\<open>reject_transitively\<close>: the stack of rejected ids has its top at the head.\<close>

function reject_transitively ::
    "vm \<Rightarrow> ('u, 'b) topological \<Rightarrow> ava_id list \<Rightarrow> ('u, 'b) topological \<times> (top_error + unit)" where
  "reject_transitively vm s [] = (s, Inr ())"
| "reject_transitively vm s (r # rejected) = (case bt_get (tp_blocks s) r of
       None \<Rightarrow> reject_transitively vm s rejected
     | Some n \<Rightarrow>
         (case reject_all vm (s\<lparr>tp_blocks := bt_remove r (tp_blocks s)\<rparr>) (map snd (sm_children n)) of
            (s', Inl e) \<Rightarrow> (s', Inl e)
          | (s', Inr _) \<Rightarrow> reject_transitively vm s' (rev (bt_keys (sm_children n)) @ rejected)))"
  by pat_completeness auto
termination
  by (relation "measures [\<lambda>(vm, s, rejected). length (tp_blocks s), \<lambda>(vm, s, rejected). length rejected]")
    (auto dest!: reject_all_eq_blocks [OF sym] simp: length_bt_remove)

definition accept_preferred_child ::
    "vm \<Rightarrow> ('u, 'b) factory \<Rightarrow> ('u, 'b) topological \<Rightarrow> ava_id
      \<Rightarrow> ('u, 'b) topological \<times> (top_error + unit)" where
  "accept_preferred_child vm F s parent_id = (case bt_get (tp_blocks s) parent_id of
       None \<Rightarrow> (s, Inl UnknownParentBlock)
     | Some n \<Rightarrow>
         let pref = (case sm_sb n of None \<Rightarrow> id_EMPTY | Some sb \<Rightarrow> tree_preference F sb) in
         (case bt_get (sm_children n) pref of
            None \<Rightarrow> (s, Inl UnknownParentBlock)
          | Some pref_child \<Rightarrow>
              let rejects = filter (\<lambda>(i, _). i \<noteq> pref) (sm_children n) in
              (case perform vm (Acceptor pref (b_bytes pref_child)) s of
                 (s1, Inl e) \<Rightarrow> (s1, Inl e)
               | (s1, Inr _) \<Rightarrow>
                   (case perform vm (Accept pref_child) s1 of
                      (s2, Inl e) \<Rightarrow> (s2, Inl e)
                    | (s2, Inr _) \<Rightarrow>
                        let s3 = s2\<lparr>tp_last_accepted_id := pref,
                                    tp_last_accepted_height := b_height pref_child,
                                    tp_preferred_ids := bs_remove pref (tp_preferred_ids s2),
                                    tp_preferred_heights := bt_remove (b_height pref_child) (tp_preferred_heights s2)\<rparr> in
                        (case reject_all vm s3 (map snd rejects) of
                           (s4, Inl e) \<Rightarrow> (s4, Inl e)
                         | (s4, Inr _) \<Rightarrow> reject_transitively vm s4 (rev (map fst rejects)))))))"

section \<open>Voting\<close>

definition modify_block ::
    "ava_id \<Rightarrow> (('u, 'b) snowman_block \<Rightarrow> ('u, 'b) snowman_block) \<Rightarrow> ('u, 'b) topological \<Rightarrow> ('u, 'b) topological" where
  "modify_block i f s = s\<lparr>tp_blocks := bt_modify i f (tp_blocks s)\<rparr>"

text \<open>The votes applied to the snowball instance of the node \<open>i\<close>.\<close>

definition apply_votes ::
    "('u, 'b) factory \<Rightarrow> ava_id \<Rightarrow> ava_id bag \<Rightarrow> ('u, 'b) topological \<Rightarrow> ('u, 'b) topological \<times> bool \<times> ava_id" where
  "apply_votes F i votes s = (case bt_get (tp_blocks s) i of
       None \<Rightarrow> (s, False, id_EMPTY)
     | Some n \<Rightarrow> (case sm_sb n of
          None \<Rightarrow> (s, False, id_EMPTY)
        | Some sb \<Rightarrow>
            let sb' = fst (tree_record_poll F sb votes) in
            (modify_block i (\<lambda>n. n\<lparr>sm_sb := Some sb'\<rparr>) s, tree_finalized F sb', tree_preference F sb')))"

text \<open>Clearing a pending falter of the node \<open>i\<close>.\<close>

definition clear_falter :: "ava_id \<Rightarrow> bool \<Rightarrow> ('u, 'b) topological \<Rightarrow> ('u, 'b) topological" where
  "clear_falter i falter s =
     (if falter
      then modify_block i (\<lambda>n. n\<lparr>sm_sb := map_option tree_record_unsuccessful_poll (sm_sb n),
                                 sm_should_falter := False\<rparr>) s
      else s)"

text \<open>Faltering every child of \<open>i\<close> except the next one to receive a poll.\<close>

definition falter_children :: "ava_id \<Rightarrow> bool \<Rightarrow> ava_id \<Rightarrow> ('u, 'b) topological \<Rightarrow> ('u, 'b) topological" where
  "falter_children i falter next_id s =
     (let child_ids = (case bt_get (tp_blocks s) i of None \<Rightarrow> [] | Some n \<Rightarrow> bt_keys (sm_children n)) in
      foldl (\<lambda>s c. if \<not> falter \<and> c = next_id then s
                   else modify_block c (\<lambda>n. n\<lparr>sm_should_falter := True\<rparr>) s) s child_ids)"

fun vote_loop ::
    "vm \<Rightarrow> ('u, 'b) factory \<Rightarrow> ('u, 'b) topological \<Rightarrow> ava_id \<Rightarrow> bool \<Rightarrow> votes list
      \<Rightarrow> ('u, 'b) topological \<times> (top_error + ava_id)" where
  "vote_loop vm F s new_preferred on_branch [] = (s, Inr new_preferred)"
| "vote_loop vm F s new_preferred on_branch (v # stack) = (case bt_get (tp_blocks s) (vo_parent_id v) of
       None \<Rightarrow> (s, Inr new_preferred)
     | Some n \<Rightarrow>
         let falter = sm_should_falter n;
             (s1, fin, parent_preference) =
               apply_votes F (vo_parent_id v) (vo_votes v) (clear_falter (vo_parent_id v) falter s);
             (s2, res) =
               (if fin \<and> tp_last_accepted_id s1 = vo_parent_id v then
                  (case accept_preferred_child vm F s1 (vo_parent_id v) of
                     (s', Inl e) \<Rightarrow> (s', Inl e)
                   | (s', Inr _) \<Rightarrow> (s'\<lparr>tp_blocks := bt_remove (vo_parent_id v) (tp_blocks s')\<rparr>, Inr ()))
                else (s1, Inr ())) in
         (case res of
            Inl e \<Rightarrow> (s2, Inl e)
          | Inr _ \<Rightarrow>
              let next_id = (case stack of [] \<Rightarrow> id_EMPTY | v' # _ \<Rightarrow> vo_parent_id v') in
              vote_loop vm F (falter_children (vo_parent_id v) falter next_id s2)
                (if on_branch then parent_preference else new_preferred)
                (on_branch \<and> next_id = parent_preference) stack))"

definition topo_vote ::
    "vm \<Rightarrow> ('u, 'b) factory \<Rightarrow> ('u, 'b) topological \<Rightarrow> votes list
      \<Rightarrow> ('u, 'b) topological \<times> (top_error + ava_id)" where
  "topo_vote vm F s stack =
     (if stack = []
      then (modify_block (tp_last_accepted_id s) (\<lambda>n. n\<lparr>sm_should_falter := True\<rparr>) s, Inr (tp_preference s))
      else vote_loop vm F s (tp_last_accepted_id s) True stack)"

section \<open>Recording a poll\<close>

text \<open>
  The two walks that rebuild the preferred branch. They follow parent links and
  preferred children through the block map; on a map with a cycle they would
  not return, which is the result \<open>None\<close>.
\<close>

partial_function (option) walk_ancestors ::
    "nat \<Rightarrow> ('u, 'b) blocks \<Rightarrow> ava_id \<Rightarrow> ava_id list \<Rightarrow> (nat, ava_id) btree
      \<Rightarrow> (ava_id list \<times> (nat, ava_id) btree) option" where
  "walk_ancestors h bs cursor ids heights = (case bt_get bs cursor of
       None \<Rightarrow> Some (ids, heights)
     | Some n \<Rightarrow>
         if sm_decided h n then Some (ids, heights)
         else (case sm_blk n of
            None \<Rightarrow> Some (ids, heights)
          | Some b \<Rightarrow> walk_ancestors h bs (b_parent b) (bs_insert cursor ids)
                        (bt_insert (b_height b) cursor heights)))"

definition insert_height :: "('u, 'b) blocks \<Rightarrow> ava_id \<Rightarrow> (nat, ava_id) btree \<Rightarrow> (nat, ava_id) btree" where
  "insert_height bs i heights = (case bt_get bs i of
       None \<Rightarrow> heights
     | Some n \<Rightarrow> (case sm_blk n of None \<Rightarrow> heights | Some b \<Rightarrow> bt_insert (b_height b) i heights))"

partial_function (option) walk_preferred ::
    "('u, 'b) factory \<Rightarrow> ('u, 'b) blocks \<Rightarrow> ava_id \<Rightarrow> ava_id \<Rightarrow> ava_id list \<Rightarrow> (nat, ava_id) btree
      \<Rightarrow> (ava_id \<times> ava_id list \<times> (nat, ava_id) btree) option" where
  "walk_preferred F bs cursor pref ids heights = (case bt_get bs cursor of
       None \<Rightarrow> Some (pref, ids, heights)
     | Some n \<Rightarrow> (case sm_sb n of
          None \<Rightarrow> Some (pref, ids, heights)
        | Some sb \<Rightarrow> walk_preferred F bs (tree_preference F sb) (tree_preference F sb)
             (bs_insert (tree_preference F sb) ids) (insert_height bs (tree_preference F sb) heights)))"

definition topo_record_poll ::
    "vm \<Rightarrow> ('u, 'b) factory \<Rightarrow> ('u, 'b) topological \<Rightarrow> ava_id bag
      \<Rightarrow> (('u, 'b) topological \<times> (top_error + unit)) option" where
  "topo_record_poll vm F s0 vote_bag =
     (let s = s0\<lparr>tp_poll_number := sat_add64 (tp_poll_number s0) 1\<rparr>;
          stack = (if bag_len vote_bag \<ge> p_alpha_preference (tp_params s)
                   then push_votes s (calculate_in_degree s vote_bag, []) else []) in
      case topo_vote vm F s stack of
        (s1, Inl e) \<Rightarrow> Some (s1, Inl e)
      | (s1, Inr preferred) \<Rightarrow>
          if preferred \<in> set (tp_preferred_ids s1) then Some (s1, Inr ())
          else (case walk_ancestors (tp_last_accepted_height s1) (tp_blocks s1) preferred [] [] of
              None \<Rightarrow> None
            | Some (ids, heights) \<Rightarrow>
                (case walk_preferred F (tp_blocks s1) preferred preferred ids heights of
                   None \<Rightarrow> None
                 | Some (pref, ids', heights') \<Rightarrow>
                     Some (s1\<lparr>tp_preference := pref, tp_preferred_ids := ids',
                              tp_preferred_heights := heights'\<rparr>, Inr ()))))"

end
