(* ===== verification/Ava_Snow_Spec.thy ===== *)
theory Ava_Snow_Spec
  imports Ava_Snow
begin

text \<open>
  What the snow instances promise, and that the state machines of \<open>Ava_Snow\<close>
  keep the promise.

  The abstract specification of a snowflake is a statement about the sequence
  of polls: an instance finalizes exactly when some choice has received
  \<^verbatim>\<open>beta\<close> consecutive polls at \<^verbatim>\<open>alpha_confidence\<close>, for one of its termination
  conditions. The locale \<open>snowflake_machine\<close> holds the step laws the three
  snowflakes and the three snowballs share; the specification is proved once
  inside it and reaches the six machines by interpretation.
\<close>

section \<open>Runs and streaks\<close>

text \<open>A poll outcome: a number of votes for a choice, or an unsuccessful poll.\<close>

datatype 'c poll_event = Vote nat 'c | Falter

definition snow_run ::
    "('s \<Rightarrow> nat \<Rightarrow> 'c \<Rightarrow> 's) \<Rightarrow> ('s \<Rightarrow> 's) \<Rightarrow> 's \<Rightarrow> 'c poll_event list \<Rightarrow> 's" where
  "snow_run poll falter s es =
     foldl (\<lambda>s e. case e of Vote n c \<Rightarrow> poll s n c | Falter \<Rightarrow> falter s) s es"

lemma snow_run_simps [simp]:
  "snow_run poll falter s [] = s"
  "snow_run poll falter s (es @ [Vote n c]) = poll (snow_run poll falter s es) n c"
  "snow_run poll falter s (es @ [Falter]) = falter (snow_run poll falter s es)"
  by (simp_all add: snow_run_def)

lemma snow_run_append:
  "snow_run poll falter s (es @ es') = snow_run poll falter (snow_run poll falter s es) es'"
  by (simp add: snow_run_def)

definition good_vote :: "nat \<Rightarrow> 'c \<Rightarrow> 'c poll_event \<Rightarrow> bool" where
  "good_vote a c e = (case e of Vote n c' \<Rightarrow> c' = c \<and> a \<le> n | Falter \<Rightarrow> False)"

text \<open>\<open>b\<close> consecutive polls for \<open>c\<close> with at least \<open>a\<close> votes each.\<close>

definition streak_of :: "nat \<Rightarrow> nat \<Rightarrow> 'c \<Rightarrow> 'c poll_event list \<Rightarrow> bool" where
  "streak_of b a c es \<longleftrightarrow>
     (\<exists>pre mid post. es = pre @ mid @ post \<and> length mid = b \<and> (\<forall>e \<in> set mid. good_vote a c e))"

text \<open>The length of the streak of \<open>c\<close> that ends at the last poll.\<close>

definition trail :: "nat \<Rightarrow> 'c \<Rightarrow> 'c poll_event list \<Rightarrow> nat" where
  "trail a c es = length (takeWhile (good_vote a c) (rev es))"

lemma trail_Nil [simp]: "trail a c [] = 0"
  by (simp add: trail_def)

lemma trail_snoc: "trail a c (es @ [e]) = (if good_vote a c e then Suc (trail a c es) else 0)"
  by (simp add: trail_def)

lemma streak_iff_trail:
  "streak_of b a c es \<longleftrightarrow> (\<exists>es1 es2. es = es1 @ es2 \<and> b \<le> trail a c es1)"
proof
  assume "streak_of b a c es"
  then obtain pre mid post where es: "es = pre @ mid @ post" "length mid = b"
    and good: "\<forall>e \<in> set mid. good_vote a c e"
    unfolding streak_of_def by blast
  have "takeWhile (good_vote a c) (rev mid @ rev pre) = rev mid @ takeWhile (good_vote a c) (rev pre)"
    using good by (intro takeWhile_append2) simp
  then have "b \<le> trail a c (pre @ mid)" by (simp add: trail_def es(2))
  with es(1) show "\<exists>es1 es2. es = es1 @ es2 \<and> b \<le> trail a c es1"
    by (intro exI [of _ "pre @ mid"] exI [of _ post]) simp
next
  assume "\<exists>es1 es2. es = es1 @ es2 \<and> b \<le> trail a c es1"
  then obtain es1 es2 where es: "es = es1 @ es2" and b: "b \<le> trail a c es1" by blast
  define mid where "mid = rev (take b (takeWhile (good_vote a c) (rev es1)))"
  have len: "length mid = b" using b by (simp add: mid_def trail_def)
  have "rev es1 = rev mid @ drop b (takeWhile (good_vote a c) (rev es1))
      @ dropWhile (good_vote a c) (rev es1)"
    by (simp add: mid_def flip: append_assoc)
  then obtain rest where "rev es1 = rev mid @ rest" by blast
  then have "es1 = rev rest @ mid" by (metis rev_append rev_rev_ident)
  moreover have "\<forall>e \<in> set mid. good_vote a c e"
    by (auto simp: mid_def dest: in_set_takeD set_takeWhileD)
  ultimately show "streak_of b a c es"
    unfolding streak_of_def using es len by fastforce
qed

lemma streak_mono: "streak_of b a c es \<Longrightarrow> streak_of b a c (es @ es')"
  unfolding streak_iff_trail by force

section \<open>Valid termination conditions\<close>

definition valid_conds :: "nat \<Rightarrow> termination_condition list \<Rightarrow> bool" where
  "valid_conds a cs \<longleftrightarrow> sorted_wrt (\<lambda>s t. alpha_confidence s \<le> alpha_confidence t) cs
     \<and> (\<forall>t \<in> set cs. a \<le> alpha_confidence t \<and> 0 < beta t \<and> beta t \<le> u32_max)"

lemma valid_conds_single:
  "valid_conds a (tc_single b n) \<longleftrightarrow> a \<le> b \<and> 0 < n \<and> n \<le> u32_max"
  by (simp add: valid_conds_def tc_single_def)

text \<open>The parameters that pass \<^verbatim>\<open>verify\<close> give valid conditions.\<close>

lemma params_verify_valid:
  assumes "params_verify p = Inr ()"
  shows "p_k p < 2 * p_alpha_preference p" "p_alpha_preference p \<le> p_alpha_confidence p"
    "p_alpha_confidence p \<le> p_k p" "0 < p_beta p"
    "p_beta p \<le> u32_max \<Longrightarrow>
       valid_conds (p_alpha_preference p) (tc_single (p_alpha_confidence p) (p_beta p))"
  using assms by (auto simp: params_verify_def valid_conds_single split: if_splits)

section \<open>The counting loop\<close>

lemma conf_loop_length: "length (fst (conf_loop n cs cf)) = length cf"
  by (induction n cs cf rule: conf_loop.induct) (auto simp: Let_def split: prod.splits)

lemma fill0_map: "length cf = length cs \<Longrightarrow> fill0 cf = map (\<lambda>_. 0) cs"
  by (simp add: fill0_def map_replicate_const)

text \<open>
  On counters given by a function of the condition, the loop increments
  exactly the conditions whose threshold was reached and clears the others, as
  long as none reaches its \<^verbatim>\<open>beta\<close>.
\<close>

lemma conf_loop_not_final:
  assumes "conf_loop n cs (map f cs) = (cf, False)"
    and "sorted_wrt (\<lambda>s t. alpha_confidence s \<le> alpha_confidence t) cs"
    and "\<forall>t \<in> set cs. beta t \<le> u32_max"
  shows "cf = map (\<lambda>t. if n < alpha_confidence t then 0 else Suc (f t)) cs"
    and "\<forall>t \<in> set cs. alpha_confidence t \<le> n \<longrightarrow> Suc (f t) < beta t"
proof -
  have "cf = map (\<lambda>t. if n < alpha_confidence t then 0 else Suc (f t)) cs
      \<and> (\<forall>t \<in> set cs. alpha_confidence t \<le> n \<longrightarrow> Suc (f t) < beta t)"
    using assms
  proof (induction cs arbitrary: cf)
    case (Cons c cs)
    show ?case
    proof (cases "n < alpha_confidence c")
      case True
      with Cons.prems have "\<forall>t \<in> set cs. n < alpha_confidence t" by fastforce
      moreover from this have
        "map (\<lambda>t. if n < alpha_confidence t then 0 else Suc (f t)) cs = replicate (length cs) 0"
        by (simp add: map_replicate_const cong: map_cong)
      ultimately show ?thesis using True Cons.prems(1) by auto
    next
      case False
      with Cons.prems obtain cf' where rest: "conf_loop n cs (map f cs) = (cf', False)"
        and cf: "cf = sat_add32 (f c) 1 # cf'" and lt: "sat_add32 (f c) 1 < beta c"
        by (auto simp: Let_def split: if_splits prod.splits)
      from lt Cons.prems(3) have "sat_add32 (f c) 1 = f c + 1"
        by (intro sat_add32_below) auto
      with lt cf False Cons.IH [OF rest] Cons.prems(2,3) show ?thesis by simp
    qed
  qed simp
  then show "cf = map (\<lambda>t. if n < alpha_confidence t then 0 else Suc (f t)) cs"
    "\<forall>t \<in> set cs. alpha_confidence t \<le> n \<longrightarrow> Suc (f t) < beta t"
    by blast+
qed

lemma conf_loop_final:
  assumes "conf_loop n cs (map f cs) = (cf, True)"
  shows "\<exists>t \<in> set cs. alpha_confidence t \<le> n \<and> beta t \<le> Suc (f t)"
  using assms
proof (induction cs arbitrary: cf)
  case (Cons c cs)
  show ?case
  proof (cases "beta c \<le> sat_add32 (f c) 1")
    case True
    then have "beta c \<le> Suc (f c)" by (simp add: sat_add32_def)
    with Cons.prems show ?thesis by (auto split: if_splits)
  next
    case False
    with Cons show ?thesis by (auto simp: Let_def split: if_splits prod.splits)
  qed
qed simp

lemma conf_loop_zero:
  assumes "\<forall>t \<in> set cs. n < alpha_confidence t" "length cf = length cs"
  shows "conf_loop n cs cf = (fill0 cf, False)"
  using assms by (cases cs; cases cf) (auto simp: fill0_def)

section \<open>The snowflake specification\<close>

locale snowflake_machine =
  fixes inv :: "'s \<Rightarrow> bool"
    and alpha :: nat
    and conds :: "termination_condition list"
    and conf :: "'s \<Rightarrow> nat list"
    and fin :: "'s \<Rightarrow> bool"
    and pref :: "'s \<Rightarrow> 'c"
    and poll :: "'s \<Rightarrow> nat \<Rightarrow> 'c \<Rightarrow> 's"
    and falter :: "'s \<Rightarrow> 's"
  assumes inv_poll: "inv s \<Longrightarrow> inv (poll s n c)"
    and inv_falter: "inv s \<Longrightarrow> inv (falter s)"
    and poll_short: "valid_conds alpha conds \<Longrightarrow> inv s \<Longrightarrow> \<not> fin s \<Longrightarrow> n < alpha \<Longrightarrow>
          conf (poll s n c) = map (\<lambda>_. 0) conds \<and> \<not> fin (poll s n c) \<and> pref (poll s n c) = pref s"
    and poll_enough: "inv s \<Longrightarrow> \<not> fin s \<Longrightarrow> alpha \<le> n \<Longrightarrow>
          (conf (poll s n c), fin (poll s n c))
            = conf_loop n conds (if c = pref s then conf s else map (\<lambda>_. 0) conds)
          \<and> pref (poll s n c) = c"
    and poll_final: "inv s \<Longrightarrow> fin s \<Longrightarrow> fin (poll s n c) \<and> pref (poll s n c) = pref s"
    and falter_conf: "inv s \<Longrightarrow> conf (falter s) = map (\<lambda>_. 0) conds"
    and falter_fin: "inv s \<Longrightarrow> fin (falter s) = fin s"
    and falter_pref: "inv s \<Longrightarrow> pref (falter s) = pref s"
begin

text \<open>The relation between the counters and the polls seen so far.\<close>

definition tracks :: "'s \<Rightarrow> 'c poll_event list \<Rightarrow> bool" where
  "tracks s es \<longleftrightarrow> inv s \<and>
     (if fin s then \<exists>t \<in> set conds. streak_of (beta t) (alpha_confidence t) (pref s) es
      else conf s = map (\<lambda>t. trail (alpha_confidence t) (pref s) es) conds
        \<and> (\<forall>t \<in> set conds. \<forall>c. c \<noteq> pref s \<longrightarrow> trail (alpha_confidence t) c es = 0)
        \<and> (\<forall>t \<in> set conds. \<forall>c. \<not> streak_of (beta t) (alpha_confidence t) c es))"

lemma no_streak_snoc:
  assumes "\<not> streak_of b a c es" "trail a c (es @ [e]) < b"
  shows "\<not> streak_of b a c (es @ [e])"
proof
  assume "streak_of b a c (es @ [e])"
  then obtain es1 es2 where eq: "es @ [e] = es1 @ es2" and le: "b \<le> trail a c es1"
    unfolding streak_iff_trail by blast
  show False
  proof (cases es2 rule: rev_cases)
    case Nil
    with eq le assms(2) show ?thesis by simp
  next
    case (snoc es3 e')
    with eq have "es = es1 @ es3" by simp
    with le assms(1) show ?thesis unfolding streak_iff_trail by blast
  qed
qed

lemma tracks_poll:
  assumes valid: "valid_conds alpha conds" and tr: "tracks s es"
  shows "tracks (poll s n c) (es @ [Vote n c])"
proof (cases "fin s")
  case True
  with tr obtain t where "inv s" "t \<in> set conds" "streak_of (beta t) (alpha_confidence t) (pref s) es"
    by (auto simp: tracks_def)
  with True poll_final [of s n c] inv_poll show ?thesis
    by (auto simp: tracks_def intro: streak_mono)
next
  case nf: False
  with tr have inv: "inv s" and cf: "conf s = map (\<lambda>t. trail (alpha_confidence t) (pref s) es) conds"
    and oth: "\<And>t c. t \<in> set conds \<Longrightarrow> c \<noteq> pref s \<Longrightarrow> trail (alpha_confidence t) c es = 0"
    and ns: "\<And>t c. t \<in> set conds \<Longrightarrow> \<not> streak_of (beta t) (alpha_confidence t) c es"
    by (auto simp: tracks_def)
  from valid have pos: "\<And>t. t \<in> set conds \<Longrightarrow> 0 < beta t"
    and al: "\<And>t. t \<in> set conds \<Longrightarrow> alpha \<le> alpha_confidence t"
    by (auto simp: valid_conds_def)
  show ?thesis
  proof (cases "n < alpha")
    case True
    have bad: "\<not> good_vote (alpha_confidence t) c' (Vote n c)" if "t \<in> set conds" for t c'
      using True al [OF that] by (simp add: good_vote_def)
    have "\<not> streak_of (beta t) (alpha_confidence t) c' (es @ [Vote n c])" if "t \<in> set conds" for t c'
      using that ns pos bad by (intro no_streak_snoc) (simp_all add: trail_snoc)
    with poll_short [OF valid inv nf True, of c] inv_poll [OF inv] bad show ?thesis
      by (auto simp: tracks_def trail_snoc)
  next
    case False
    let ?f = "\<lambda>t. trail (alpha_confidence t) c es"
    have start: "(if c = pref s then conf s else map (\<lambda>_. 0) conds) = map ?f conds"
      using oth by (simp add: cf)
    from poll_enough [OF inv nf, of n c] False
    have loop: "conf_loop n conds (map ?f conds) = (conf (poll s n c), fin (poll s n c))"
      and pc: "pref (poll s n c) = c"
      by (simp_all add: start)
    have tr': "trail (alpha_confidence t) c (es @ [Vote n c])
        = (if n < alpha_confidence t then 0 else Suc (?f t))" for t
      by (simp add: trail_snoc good_vote_def)
    have other: "trail a c' (es @ [Vote n c]) = 0" if "c' \<noteq> c" for a c'
      using that by (simp add: trail_snoc good_vote_def)
    show ?thesis
    proof (cases "fin (poll s n c)")
      case True
      with loop have "conf_loop n conds (map ?f conds) = (conf (poll s n c), True)" by simp
      from conf_loop_final [OF this]
      obtain t where t: "t \<in> set conds" "alpha_confidence t \<le> n" "beta t \<le> Suc (?f t)" by blast
      then have "beta t \<le> trail (alpha_confidence t) c (es @ [Vote n c])" by (simp add: tr')
      then have "streak_of (beta t) (alpha_confidence t) c (es @ [Vote n c])"
        unfolding streak_iff_trail by blast
      with True t(1) pc inv_poll [OF inv] show ?thesis by (auto simp: tracks_def)
    next
      case False
      with loop have l: "conf_loop n conds (map ?f conds) = (conf (poll s n c), False)" by simp
      have srt: "sorted_wrt (\<lambda>s t. alpha_confidence s \<le> alpha_confidence t) conds"
        and bu: "\<forall>t \<in> set conds. beta t \<le> u32_max"
        using valid by (auto simp: valid_conds_def)
      note nf' = conf_loop_not_final [OF l srt bu]
      have "\<not> streak_of (beta t) (alpha_confidence t) c' (es @ [Vote n c])" if t: "t \<in> set conds" for t c'
      proof (rule no_streak_snoc [OF ns [OF t]])
        show "trail (alpha_confidence t) c' (es @ [Vote n c]) < beta t"
          using nf'(2) t pos [OF t] by (cases "c' = c") (auto simp: tr' other not_less)
      qed
      with False nf'(1) pc inv_poll [OF inv] other show ?thesis
        by (auto simp: tracks_def tr')
    qed
  qed
qed

lemma tracks_falter:
  assumes valid: "valid_conds alpha conds" and tr: "tracks s es"
  shows "tracks (falter s) (es @ [Falter])"
proof -
  have z: "trail a c (es @ [Falter]) = 0" for a c by (simp add: trail_snoc good_vote_def)
  have "\<not> streak_of (beta t) (alpha_confidence t) c (es @ [Falter])"
    if "t \<in> set conds" "\<not> streak_of (beta t) (alpha_confidence t) c es" for t c
    using that valid by (intro no_streak_snoc) (auto simp: z valid_conds_def)
  note step = this
  show ?thesis
  proof (cases "fin s")
    case True
    with tr obtain t where "inv s" "t \<in> set conds"
      "streak_of (beta t) (alpha_confidence t) (pref s) es"
      by (auto simp: tracks_def)
    with True show ?thesis
      by (auto simp: tracks_def falter_fin falter_pref inv_falter intro: streak_mono)
  next
    case False
    with tr step show ?thesis
      by (auto simp: tracks_def falter_conf falter_fin falter_pref inv_falter z)
  qed
qed

lemma tracks_run:
  assumes "valid_conds alpha conds" and "tracks s []"
  shows "tracks (snow_run poll falter s es) es"
proof (induction es rule: rev_induct)
  case (snoc e es)
  then show ?case using assms(1) by (cases e) (simp_all add: tracks_poll tracks_falter)
qed (simp add: assms(2))

lemma tracks_init:
  assumes "valid_conds alpha conds" "inv s" "\<not> fin s" "conf s = map (\<lambda>_. 0) conds"
  shows "tracks s []"
proof -
  have "\<not> streak_of (beta t) a c []" if "t \<in> set conds" for t a and c :: 'c
    using that assms(1) by (auto simp: streak_of_def valid_conds_def)
  with assms show ?thesis by (simp add: tracks_def)
qed

text \<open>The specification of a snowflake, for a machine in its initial state.\<close>

theorem finalized_iff:
  assumes "valid_conds alpha conds" "inv s" "\<not> fin s" "conf s = map (\<lambda>_. 0) conds"
  shows "fin (snow_run poll falter s es) \<longleftrightarrow>
      (\<exists>t \<in> set conds. \<exists>c. streak_of (beta t) (alpha_confidence t) c es)"
  using tracks_run [OF assms(1) tracks_init [OF assms], of es]
  by (auto simp: tracks_def split: if_splits)

theorem finalized_choice:
  assumes "valid_conds alpha conds" "inv s" "\<not> fin s" "conf s = map (\<lambda>_. 0) conds"
    and "fin (snow_run poll falter s es)"
  shows "\<exists>t \<in> set conds. streak_of (beta t) (alpha_confidence t) (pref (snow_run poll falter s es)) es"
  using tracks_run [OF assms(1) tracks_init [OF assms(1-4)], of es] assms(5)
  by (auto simp: tracks_def)

theorem counters:
  assumes "valid_conds alpha conds" "inv s" "\<not> fin s" "conf s = map (\<lambda>_. 0) conds"
    and "\<not> fin (snow_run poll falter s es)"
  shows "conf (snow_run poll falter s es)
    = map (\<lambda>t. trail (alpha_confidence t) (pref (snow_run poll falter s es)) es) conds"
  using tracks_run [OF assms(1) tracks_init [OF assms(1-4)], of es] assms(5)
  by (auto simp: tracks_def)

text \<open>A decision is irrevocable.\<close>

theorem final_forever:
  assumes "inv s" "fin s"
  shows "inv (snow_run poll falter s es) \<and> fin (snow_run poll falter s es)
    \<and> pref (snow_run poll falter s es) = pref s"
proof (induction es rule: rev_induct)
  case (snoc e es)
  then show ?case
    by (cases e) (auto simp: inv_poll inv_falter falter_fin falter_pref poll_final)
qed (simp add: assms)

end

section \<open>The six machines\<close>

definition usf_inv :: "nat \<Rightarrow> termination_condition list \<Rightarrow> unary_snowflake \<Rightarrow> bool" where
  "usf_inv a cs s \<longleftrightarrow> usf_alpha_preference s = a \<and> usf_conditions s = cs
     \<and> length (usf_confidence s) = length cs"

definition bsf_inv :: "nat \<Rightarrow> termination_condition list \<Rightarrow> binary_snowflake \<Rightarrow> bool" where
  "bsf_inv a cs s \<longleftrightarrow> bsf_alpha_preference s = a \<and> bsf_conditions s = cs
     \<and> length (bsf_confidence s) = length cs"

definition nsf_inv :: "nat \<Rightarrow> termination_condition list \<Rightarrow> nnary_snowflake \<Rightarrow> bool" where
  "nsf_inv a cs s \<longleftrightarrow> nsf_alpha_preference s = a \<and> nsf_conditions s = cs
     \<and> length (nsf_confidence s) = length cs"

lemmas usf_defs = usf_inv_def usf_record_poll_def usf_record_unsuccessful_poll_def
lemmas bsf_defs = bsf_inv_def bsf_record_poll_def bsf_record_unsuccessful_poll_def
  bsf_preference_def bsl_record_successful_poll_def
lemmas nsf_defs = nsf_inv_def nsf_record_poll_def nsf_record_unsuccessful_poll_def
  nsf_preference_def nsl_record_successful_poll_def

lemma conf_loop_len: "conf_loop n cs cf = (cf', f) \<Longrightarrow> length cf' = length cf"
  using conf_loop_length [of n cs cf] by simp

lemma length_fill0 [simp]: "length (fill0 cf) = length cf"
  by (simp add: fill0_def)

interpretation usf: snowflake_machine "usf_inv a cs" a cs usf_confidence usf_finalized
  "\<lambda>_. ()" "\<lambda>s n _. usf_record_poll s n" usf_record_unsuccessful_poll for a cs
proof unfold_locales
  fix s n
  assume "valid_conds a cs" "usf_inv a cs s" "\<not> usf_finalized s" "n < a"
  then show "usf_confidence (usf_record_poll s n) = map (\<lambda>_. 0) cs
      \<and> \<not> usf_finalized (usf_record_poll s n) \<and> () = ()"
    using conf_loop_zero [of cs n "usf_confidence s"]
    by (force simp: usf_defs valid_conds_def fill0_map)
qed (auto simp: usf_defs fill0_map dest: conf_loop_len split: prod.splits)

interpretation bsf: snowflake_machine "bsf_inv a cs" a cs bsf_confidence bsf_finalized
  bsf_preference bsf_record_poll bsf_record_unsuccessful_poll for a cs
  by unfold_locales
    (auto simp: bsf_defs fill0_map Let_def dest: conf_loop_len split: prod.splits if_splits)

interpretation nsf: snowflake_machine "nsf_inv a cs" a cs nsf_confidence nsf_finalized
  nsf_preference nsf_record_poll nsf_record_unsuccessful_poll for a cs
  by unfold_locales
    (auto simp: nsf_defs fill0_map Let_def dest: conf_loop_len split: prod.splits if_splits)

text \<open>A snowball polls its snowflake, whatever it does to the strengths.\<close>

lemma snowball_snowflake [simp]:
  "usb_snowflake (usb_record_poll u n) = usf_record_poll (usb_snowflake u) n"
  "usb_snowflake (usb_record_unsuccessful_poll u) = usf_record_unsuccessful_poll (usb_snowflake u)"
  "bsb_snowflake (bsb_record_poll b n c) = bsf_record_poll (bsb_snowflake b) n c"
  "bsb_snowflake (bsb_record_unsuccessful_poll b) = bsf_record_unsuccessful_poll (bsb_snowflake b)"
  "nsb_snowflake (nsb_record_poll s n x) = nsf_record_poll (nsb_snowflake s) n x"
  "nsb_snowflake (nsb_record_unsuccessful_poll s) = nsf_record_unsuccessful_poll (nsb_snowflake s)"
  by (simp_all add: usb_record_poll_def usb_record_unsuccessful_poll_def bsb_record_poll_def
      bsb_record_unsuccessful_poll_def nsb_record_poll_def nsb_record_unsuccessful_poll_def Let_def)

interpretation usb: snowflake_machine "\<lambda>s. usf_inv a cs (usb_snowflake s)" a cs
  "\<lambda>s. usf_confidence (usb_snowflake s)" usb_finalized "\<lambda>_. ()"
  "\<lambda>s n _. usb_record_poll s n" usb_record_unsuccessful_poll for a cs
  by unfold_locales
    (unfold usb_finalized_def snowball_snowflake,
      (rule usf.inv_poll usf.inv_falter usf.poll_short usf.poll_enough usf.poll_final
        usf.falter_conf usf.falter_fin usf.falter_pref; assumption)+)

interpretation bsb: snowflake_machine "\<lambda>s. bsf_inv a cs (bsb_snowflake s)" a cs
  "\<lambda>s. bsf_confidence (bsb_snowflake s)" bsb_finalized "\<lambda>s. bsf_preference (bsb_snowflake s)"
  bsb_record_poll bsb_record_unsuccessful_poll for a cs
  by unfold_locales
    (unfold bsb_finalized_def snowball_snowflake,
      (rule bsf.inv_poll bsf.inv_falter bsf.poll_short bsf.poll_enough bsf.poll_final
        bsf.falter_conf bsf.falter_fin bsf.falter_pref; assumption)+)

interpretation nsb: snowflake_machine "\<lambda>s. nsf_inv a cs (nsb_snowflake s)" a cs
  "\<lambda>s. nsf_confidence (nsb_snowflake s)" nsb_finalized "\<lambda>s. nsf_preference (nsb_snowflake s)"
  nsb_record_poll nsb_record_unsuccessful_poll for a cs
  by unfold_locales
    (unfold nsb_finalized_def snowball_snowflake,
      (rule nsf.inv_poll nsf.inv_falter nsf.poll_short nsf.poll_enough nsf.poll_final
        nsf.falter_conf nsf.falter_fin nsf.falter_pref; assumption)+)

section \<open>Runs of the machines from their initial states\<close>

definition usb_run :: "nat \<Rightarrow> termination_condition list \<Rightarrow> unit poll_event list \<Rightarrow> unary_snowball" where
  "usb_run a cs es =
     snow_run (\<lambda>s n _. usb_record_poll s n) usb_record_unsuccessful_poll (usb_new a cs) es"

definition bsb_run ::
    "nat \<Rightarrow> termination_condition list \<Rightarrow> nat \<Rightarrow> nat poll_event list \<Rightarrow> binary_snowball" where
  "bsb_run a cs c0 es =
     snow_run bsb_record_poll bsb_record_unsuccessful_poll (bsb_new a cs c0) es"

definition nsb_run ::
    "nat \<Rightarrow> termination_condition list \<Rightarrow> ava_id \<Rightarrow> ava_id poll_event list \<Rightarrow> nnary_snowball" where
  "nsb_run a cs x0 es =
     snow_run nsb_record_poll nsb_record_unsuccessful_poll (nsb_new a cs x0) es"

lemma snowball_init:
  "usf_inv a cs (usb_snowflake (usb_new a cs))" "\<not> usb_finalized (usb_new a cs)"
  "usf_confidence (usb_snowflake (usb_new a cs)) = map (\<lambda>_. 0) cs"
  "bsf_inv a cs (bsb_snowflake (bsb_new a cs c0))" "\<not> bsb_finalized (bsb_new a cs c0)"
  "bsf_confidence (bsb_snowflake (bsb_new a cs c0)) = map (\<lambda>_. 0) cs"
  "nsf_inv a cs (nsb_snowflake (nsb_new a cs x0))" "\<not> nsb_finalized (nsb_new a cs x0)"
  "nsf_confidence (nsb_snowflake (nsb_new a cs x0)) = map (\<lambda>_. 0) cs"
  by (simp_all add: usb_new_def usf_new_def usf_inv_def usb_finalized_def
      bsb_new_def bsf_new_def bsf_inv_def bsb_finalized_def
      nsb_new_def nsf_new_def nsf_inv_def nsb_finalized_def map_replicate_const)

lemma run_simps [simp]:
  "usb_run a cs [] = usb_new a cs"
  "usb_run a cs (es @ [Vote n u]) = usb_record_poll (usb_run a cs es) n"
  "usb_run a cs (es @ [Falter]) = usb_record_unsuccessful_poll (usb_run a cs es)"
  "bsb_run a cs c0 [] = bsb_new a cs c0"
  "bsb_run a cs c0 (bs @ [Vote n c]) = bsb_record_poll (bsb_run a cs c0 bs) n c"
  "bsb_run a cs c0 (bs @ [Falter]) = bsb_record_unsuccessful_poll (bsb_run a cs c0 bs)"
  "nsb_run a cs x0 [] = nsb_new a cs x0"
  "nsb_run a cs x0 (ns @ [Vote n x]) = nsb_record_poll (nsb_run a cs x0 ns) n x"
  "nsb_run a cs x0 (ns @ [Falter]) = nsb_record_unsuccessful_poll (nsb_run a cs x0 ns)"
  by (simp_all add: usb_run_def bsb_run_def nsb_run_def)

text \<open>
  C6. The default snowball instance decides exactly by the Snow rule. A
  binary snowball finalizes if and only if, for one of its termination
  conditions, some choice received \<^verbatim>\<open>beta\<close> consecutive polls of at least
  \<^verbatim>\<open>alpha_confidence\<close> votes. The preference it then reports is a choice that had
  such a streak, and no later sequence of polls changes it.
\<close>

theorem binary_snowball_decides:
  assumes "valid_conds a cs"
  shows "(bsb_finalized (bsb_run a cs c0 es) \<longleftrightarrow>
           (\<exists>t \<in> set cs. \<exists>c. streak_of (beta t) (alpha_confidence t) c es))
    \<and> (bsb_finalized (bsb_run a cs c0 es) \<longrightarrow>
         (\<exists>t \<in> set cs. streak_of (beta t) (alpha_confidence t) (bsb_preference (bsb_run a cs c0 es)) es)
         \<and> (\<forall>es'. bsb_preference (bsb_run a cs c0 (es @ es')) = bsb_preference (bsb_run a cs c0 es)))"
proof -
  note init = snowball_init(4-6) [of a cs c0]
  have inv: "bsf_inv a cs (bsb_snowflake (bsb_run a cs c0 es))"
    using bsb.tracks_run [OF assms bsb.tracks_init [OF assms init], of es]
    by (simp add: bsb.tracks_def bsb_run_def)
  have fin: "bsb_preference (bsb_run a cs c0 es') = bsf_preference (bsb_snowflake (bsb_run a cs c0 es'))"
    if "bsb_finalized (bsb_run a cs c0 es')" for es'
    using that by (simp add: bsb_preference_def bsb_finalized_def)
  have later: "bsb_finalized (bsb_run a cs c0 (es @ es'))
      \<and> bsf_preference (bsb_snowflake (bsb_run a cs c0 (es @ es')))
        = bsf_preference (bsb_snowflake (bsb_run a cs c0 es))"
    if "bsb_finalized (bsb_run a cs c0 es)" for es'
    using bsb.final_forever [OF inv that, of es'] by (simp add: bsb_run_def snow_run_append)
  show ?thesis
    using bsb.finalized_iff [OF assms init, of es] bsb.finalized_choice [OF assms init, of es]
      fin later by (simp add: bsb_run_def)
qed

text \<open>Definitions that evaluate a machine on a concrete sequence of polls.\<close>

lemmas snow_eval = snow_run_def tc_single_def fill0_def u32_max_value sat_add32_def other_def
  usb_run_def usb_new_def usf_new_def usb_record_poll_def usf_record_poll_def
  usb_record_unsuccessful_poll_def usf_record_unsuccessful_poll_def usb_finalized_def
  usb_extend_def bsb_from_extension_def bsf_from_parts_def usf_extend_def
  bsb_run_def bsb_new_def bsf_new_def bsl_new_def bsb_record_poll_def bsf_record_poll_def
  bsb_record_unsuccessful_poll_def bsf_record_unsuccessful_poll_def bsb_finalized_def
  bsb_preference_def bsf_preference_def bsl_record_successful_poll_def
  nsb_run_def nsb_new_def nsf_new_def nsb_record_poll_def nsf_record_poll_def
  nsb_record_unsuccessful_poll_def nsf_record_unsuccessful_poll_def nsb_finalized_def
  nsb_preference_def nsf_preference_def nsl_record_successful_poll_def strength_of_def

lemma streakI: "es = pre @ mid @ post \<Longrightarrow> length mid = b \<Longrightarrow> \<forall>e \<in> set mid. good_vote a c e \<Longrightarrow>
    streak_of b a c es"
  unfolding streak_of_def by blast

theorem binary_snowball_decides_witness:
  "valid_conds 2 (tc_single 2 2)
    \<and> bsb_finalized (bsb_run 2 (tc_single 2 2) 0 [Vote 3 0, Falter, Vote 2 1, Vote 3 1])
    \<and> bsb_preference (bsb_run 2 (tc_single 2 2) 0 ([Vote 3 0, Falter, Vote 2 1, Vote 3 1] @ [Vote 3 0, Vote 3 0])) = 1"
proof -
  let ?es = "[Vote 3 0, Falter, Vote 2 1, Vote 3 (1::nat)]"
  have v: "valid_conds 2 (tc_single 2 2)" by (simp add: valid_conds_single u32_max_def)
  have "streak_of 2 2 1 ?es"
    by (rule streakI [of _ "[Vote 3 0, Falter]" "[Vote 2 1, Vote 3 1]" "[]"])
      (simp_all add: good_vote_def)
  then have fin: "bsb_finalized (bsb_run 2 (tc_single 2 2) 0 ?es)"
    using binary_snowball_decides [OF v, of 0 ?es] by (auto simp: tc_single_def)
  moreover have "bsb_preference (bsb_run 2 (tc_single 2 2) 0 ?es) = 1" by (simp add: snow_eval)
  ultimately show ?thesis
    using v binary_snowball_decides [OF v, of 0 ?es] by metis
qed

text \<open>
  C7. The same rule for the n-nary snowball over arbitrary ids: it finalizes
  exactly on a streak, reports a choice that had the streak, and never changes
  it afterwards.
\<close>

theorem nnary_snowball_decides:
  assumes "valid_conds a cs"
  shows "(nsb_finalized (nsb_run a cs x0 es) \<longleftrightarrow>
           (\<exists>t \<in> set cs. \<exists>x. streak_of (beta t) (alpha_confidence t) x es))
    \<and> (nsb_finalized (nsb_run a cs x0 es) \<longrightarrow>
         (\<exists>t \<in> set cs. streak_of (beta t) (alpha_confidence t) (nsb_preference (nsb_run a cs x0 es)) es)
         \<and> (\<forall>es'. nsb_preference (nsb_run a cs x0 (es @ es')) = nsb_preference (nsb_run a cs x0 es)))"
proof -
  note init = snowball_init(7-9) [of a cs x0]
  have inv: "nsf_inv a cs (nsb_snowflake (nsb_run a cs x0 es))"
    using nsb.tracks_run [OF assms nsb.tracks_init [OF assms init], of es]
    by (simp add: nsb.tracks_def nsb_run_def)
  have fin: "nsb_preference (nsb_run a cs x0 es') = nsf_preference (nsb_snowflake (nsb_run a cs x0 es'))"
    if "nsb_finalized (nsb_run a cs x0 es')" for es'
    using that by (simp add: nsb_preference_def nsb_finalized_def)
  have later: "nsb_finalized (nsb_run a cs x0 (es @ es'))
      \<and> nsf_preference (nsb_snowflake (nsb_run a cs x0 (es @ es')))
        = nsf_preference (nsb_snowflake (nsb_run a cs x0 es))"
    if "nsb_finalized (nsb_run a cs x0 es)" for es'
    using nsb.final_forever [OF inv that, of es'] by (simp add: nsb_run_def snow_run_append)
  show ?thesis
    using nsb.finalized_iff [OF assms init, of es] nsb.finalized_choice [OF assms init, of es]
      fin later by (simp add: nsb_run_def)
qed

theorem nnary_snowball_decides_witness:
  "valid_conds 2 (tc_single 3 1)
    \<and> nsb_finalized (nsb_run 2 (tc_single 3 1) id_EMPTY [Vote 2 id_EMPTY, Vote 3 id_EMPTY])"
proof -
  have v: "valid_conds 2 (tc_single 3 1)" by (simp add: valid_conds_single u32_max_def)
  have "streak_of 1 3 id_EMPTY [Vote 2 id_EMPTY, Vote 3 id_EMPTY]"
    by (rule streakI [of _ "[Vote 2 id_EMPTY]" "[Vote 3 id_EMPTY]" "[]"])
      (simp_all add: good_vote_def)
  then show ?thesis
    using v nnary_snowball_decides [OF v, of id_EMPTY "[Vote 2 id_EMPTY, Vote 3 id_EMPTY]"]
    by (auto simp: tc_single_def)
qed

text \<open>
  C8. The confidence counters mean what their documentation says. While a
  unary snowball is undecided, counter \<open>i\<close> is the number of consecutive polls,
  up to the last one, that reached the threshold of condition \<open>i\<close>; it
  finalizes exactly on a streak of \<^verbatim>\<open>beta\<close> such polls.
\<close>

theorem unary_snowball_counts:
  assumes "valid_conds a cs"
  shows "(usb_finalized (usb_run a cs es) \<longleftrightarrow>
           (\<exists>t \<in> set cs. streak_of (beta t) (alpha_confidence t) () es))
    \<and> (\<not> usb_finalized (usb_run a cs es) \<longrightarrow>
         usf_confidence (usb_snowflake (usb_run a cs es))
           = map (\<lambda>t. trail (alpha_confidence t) () es) cs)"
  using usb.finalized_iff [OF assms snowball_init(1-3), of es]
    usb.counters [OF assms snowball_init(1-3), of es]
  by (simp add: usb_run_def)

theorem unary_snowball_counts_witness:
  "valid_conds 2 (tc_single 2 3)
    \<and> usf_confidence (usb_snowflake (usb_run 2 (tc_single 2 3) [Vote 2 (), Vote 1 (), Vote 2 (), Vote 5 ()])) = [2]"
proof -
  let ?es = "[Vote 2 (), Vote 1 (), Vote 2 (), Vote 5 ()]"
  have v: "valid_conds 2 (tc_single 2 3)" by (simp add: valid_conds_single u32_max_def)
  have "\<not> usb_finalized (usb_run 2 (tc_single 2 3) ?es)" by (simp add: snow_eval)
  with unary_snowball_counts [OF v, of ?es]
  have "usf_confidence (usb_snowflake (usb_run 2 (tc_single 2 3) ?es))
      = map (\<lambda>t. trail (alpha_confidence t) () ?es) (tc_single 2 3)" by blast
  with v show ?thesis by (simp add: tc_single_def trail_def good_vote_def)
qed

section \<open>Preference by popularity\<close>

text \<open>The polls that counted for a choice: those of at least \<^verbatim>\<open>alpha_preference\<close> votes.\<close>

definition votes_for :: "nat \<Rightarrow> 'c \<Rightarrow> 'c poll_event list \<Rightarrow> nat" where
  "votes_for a c es = length (filter (good_vote a c) es)"

lemma votes_for_simps [simp]:
  "votes_for a c [] = 0"
  "votes_for a c (es @ [Vote n d]) = votes_for a c es + (if d = c \<and> a \<le> n then 1 else 0)"
  "votes_for a c (es @ [Falter]) = votes_for a c es"
  by (simp_all add: votes_for_def good_vote_def)

lemma min_Suc_sat: "sat_add32 (min u32_max m) (Suc 0) = min u32_max (Suc m)"
  by (simp add: sat_add32_def)

fun binary_event :: "nat poll_event \<Rightarrow> bool" where
  "binary_event (Vote n c) = (c < 2)"
| "binary_event Falter = True"

lemma bsb_run_alpha [simp]: "bsf_alpha_preference (bsb_snowflake (bsb_run a cs c0 es)) = a"
proof (induction es rule: rev_induct)
  case (snoc e es)
  then show ?case
    by (cases e) (auto simp: bsf_record_poll_def bsf_record_unsuccessful_poll_def Let_def split: prod.splits)
qed (simp add: bsb_new_def bsf_new_def)

lemma nsb_run_alpha [simp]: "nsf_alpha_preference (nsb_snowflake (nsb_run a cs x0 es)) = a"
proof (induction es rule: rev_induct)
  case (snoc e es)
  then show ?case
    by (cases e) (auto simp: nsf_record_poll_def nsf_record_unsuccessful_poll_def Let_def split: prod.splits)
qed (simp add: nsb_new_def nsf_new_def)

lemma bsb_strengths:
  assumes "list_all binary_event es" "c0 < 2"
  shows "bsb_preference_strength (bsb_run a cs c0 es)
      = A2 (min u32_max (votes_for a 0 es)) (min u32_max (votes_for a 1 es))
    \<and> bsb_pref (bsb_run a cs c0 es) < 2
    \<and> min u32_max (votes_for a (other (bsb_pref (bsb_run a cs c0 es))) es)
        \<le> min u32_max (votes_for a (bsb_pref (bsb_run a cs c0 es)) es)"
  using assms
proof (induction es rule: rev_induct)
  case Nil
  then show ?case by (simp add: bsb_new_def)
next
  case (snoc e es)
  let ?s = "bsb_run a cs c0 es"
  from snoc have IH: "bsb_preference_strength ?s
      = A2 (min u32_max (votes_for a 0 es)) (min u32_max (votes_for a 1 es))"
    "bsb_pref ?s < 2"
    "min u32_max (votes_for a (other (bsb_pref ?s)) es) \<le> min u32_max (votes_for a (bsb_pref ?s) es)"
    by simp_all
  show ?case
  proof (cases e)
    case Falter
    with IH show ?thesis by (simp add: bsb_record_unsuccessful_poll_def)
  next
    case (Vote n c)
    with snoc.prems have "c = 0 \<or> c = 1" by auto
    moreover from IH(2) have "bsb_pref ?s = 0 \<or> bsb_pref ?s = 1" by auto
    ultimately show ?thesis using IH(1,3) Vote
      by (elim disjE) (auto simp: bsb_record_poll_def Let_def min_Suc_sat)
  qed
qed

text \<open>
  C9. A binary snowball prefers the popular choice. The stored strengths are
  the numbers of polls that met \<^verbatim>\<open>alpha_preference\<close> for each choice, saturated at
  \<^verbatim>\<open>u32::MAX\<close>, and while the instance is undecided no choice is stronger than the
  one it prefers.
\<close>

theorem binary_snowball_popularity:
  assumes "list_all binary_event es" "c0 < 2"
  shows "(\<forall>c < 2. get2 (bsb_preference_strength (bsb_run a cs c0 es)) c = min u32_max (votes_for a c es))
    \<and> (\<not> bsb_finalized (bsb_run a cs c0 es) \<longrightarrow>
        (\<forall>c < 2. get2 (bsb_preference_strength (bsb_run a cs c0 es)) c
           \<le> get2 (bsb_preference_strength (bsb_run a cs c0 es)) (bsb_preference (bsb_run a cs c0 es))))"
proof -
  let ?s = "bsb_run a cs c0 es"
  note st = bsb_strengths [OF assms, of a cs]
  from st have "bsb_pref ?s = 0 \<or> bsb_pref ?s = 1" by auto
  with st show ?thesis
    by (auto simp: all_less_2 bsb_preference_def bsb_finalized_def)
qed

theorem binary_snowball_popularity_witness:
  "get2 (bsb_preference_strength (bsb_run 2 (tc_single 3 3) 0 [Vote 2 0, Vote 2 1, Vote 4 1])) 1 = 2"
  using binary_snowball_popularity [of "[Vote 2 0, Vote 2 1, Vote 4 1]" 0 2 "tc_single 3 3"]
  by (simp add: all_less_2 votes_for_def good_vote_def u32_max_value)

section \<open>Binary and n-nary snowball agree\<close>

lemma strength_of_insert:
  "strength_of (bt_insert c n m) d = (if d = c then n else strength_of m d)"
  by (simp add: strength_of_def map_simps)

text \<open>
  The simulation: a binary instance over the choices 0 and 1 and an n-nary
  instance over the ids \<open>f 0\<close> and \<open>f 1\<close> in corresponding states.
\<close>

definition bn_sim :: "(nat \<Rightarrow> ava_id) \<Rightarrow> binary_snowball \<Rightarrow> nnary_snowball \<Rightarrow> bool" where
  "bn_sim f b n \<longleftrightarrow>
     (let bf = bsb_snowflake b; nf = nsb_snowflake n; st = bsb_preference_strength b in
      nsf_alpha_preference nf = bsf_alpha_preference bf \<and> nsf_conditions nf = bsf_conditions bf
      \<and> nsf_confidence nf = bsf_confidence bf \<and> nsf_finalized nf = bsf_finalized bf
      \<and> nsf_preference nf = f (bsf_preference bf) \<and> bsf_preference bf < 2
      \<and> nsb_pref n = f (bsb_pref b) \<and> bsb_pref b < 2
      \<and> (\<forall>c < 2. strength_of (nsb_preference_strength n) (f c) = get2 st c \<and> get2 st c \<le> u32_max)
      \<and> nsb_max_preference_strength n = get2 st (bsb_pref b)
      \<and> get2 st (other (bsb_pref b)) \<le> get2 st (bsb_pref b))"

lemma bn_simD:
  assumes "bn_sim f b n"
  shows "nsf_alpha_preference (nsb_snowflake n) = bsf_alpha_preference (bsb_snowflake b)"
    "nsf_conditions (nsb_snowflake n) = bsf_conditions (bsb_snowflake b)"
    "nsf_confidence (nsb_snowflake n) = bsf_confidence (bsb_snowflake b)"
    "nsf_finalized (nsb_snowflake n) = bsf_finalized (bsb_snowflake b)"
    "nsf_preference (nsb_snowflake n) = f (bsf_preference (bsb_snowflake b))"
    "bsf_preference (bsb_snowflake b) < 2"
    "nsb_pref n = f (bsb_pref b)" "bsb_pref b < 2"
    "c < 2 \<Longrightarrow> strength_of (nsb_preference_strength n) (f c) = get2 (bsb_preference_strength b) c"
    "c < 2 \<Longrightarrow> get2 (bsb_preference_strength b) c \<le> u32_max"
    "nsb_max_preference_strength n = get2 (bsb_preference_strength b) (bsb_pref b)"
    "get2 (bsb_preference_strength b) (other (bsb_pref b)) \<le> get2 (bsb_preference_strength b) (bsb_pref b)"
  using assms by (simp_all add: bn_sim_def Let_def)

lemma pair_inj: "f 0 \<noteq> f 1 \<Longrightarrow> c < 2 \<Longrightarrow> d < 2 \<Longrightarrow> f c = f d \<longleftrightarrow> c = (d :: nat)"
  unfolding less_2_cases_nat by (elim disjE) auto

lemma bn_sim_snowflake:
  fixes m :: nat
  assumes "bn_sim f b n" "c < 2" "f 0 \<noteq> f 1"
  defines "bf \<equiv> bsf_record_poll (bsb_snowflake b) m c"
    and "nf \<equiv> nsf_record_poll (nsb_snowflake n) m (f c)"
  shows "nsf_alpha_preference nf = bsf_alpha_preference bf" "nsf_conditions nf = bsf_conditions bf"
    "nsf_confidence nf = bsf_confidence bf" "nsf_finalized nf = bsf_finalized bf"
    "nsf_preference nf = f (bsf_preference bf)" "bsf_preference bf < 2"
proof -
  note D = bn_simD(1-6) [OF assms(1)]
  have inj: "f c = nsf_preference (nsb_snowflake n) \<longleftrightarrow> c = bsf_preference (bsb_snowflake b)"
    using pair_inj [OF assms(3,2) D(6)] by (simp add: D(5))
  show "nsf_alpha_preference nf = bsf_alpha_preference bf" "nsf_conditions nf = bsf_conditions bf"
    "nsf_confidence nf = bsf_confidence bf" "nsf_finalized nf = bsf_finalized bf"
    "nsf_preference nf = f (bsf_preference bf)" "bsf_preference bf < 2"
    using D inj assms(2) unfolding bf_def nf_def nsf_record_poll_def bsf_record_poll_def
    by (simp_all add: nsf_record_unsuccessful_poll_def bsf_record_unsuccessful_poll_def Let_def
        nsl_record_successful_poll_def bsl_record_successful_poll_def nsf_preference_def
        bsf_preference_def split: prod.split)
qed

lemma bn_sim_poll:
  assumes sim: "bn_sim f b n" and c: "c < 2" and inj: "f 0 \<noteq> f 1"
  shows "bn_sim f (bsb_record_poll b m c) (nsb_record_poll n m (f c))"
proof -
  note sf = bn_sim_snowflake [OF sim c inj, of m]
  note D = bn_simD [OF sim]
  obtain s0 s1 where st: "bsb_preference_strength b = A2 s0 s1" by (cases "bsb_preference_strength b")
  have s: "strength_of (nsb_preference_strength n) (f 0) = s0"
    "strength_of (nsb_preference_strength n) (f 1) = s1"
    "s0 \<le> u32_max" "s1 \<le> u32_max"
    using D(9,10) [of 0] D(9,10) [of 1] by (simp_all add: st)
  have p: "bsb_pref b = 0 \<or> bsb_pref b = 1" using D(8) by auto
  have "c = 0 \<or> c = 1" using c by auto
  then show ?thesis
    using p sf s D(1,7,11,12) inj inj [symmetric]
    unfolding bn_sim_def bsb_record_poll_def nsb_record_poll_def
    by (elim disjE) (simp_all add: Let_def st all_less_2 strength_of_insert sat_add32_def min_def)
qed

lemma bn_sim_falter:
  "bn_sim f b n \<Longrightarrow> bn_sim f (bsb_record_unsuccessful_poll b) (nsb_record_unsuccessful_poll n)"
  by (auto simp: bn_sim_def bsb_record_unsuccessful_poll_def nsb_record_unsuccessful_poll_def
      bsf_defs nsf_defs Let_def)

lemma bn_sim_run:
  assumes "list_all binary_event es" "c0 < 2" "f 0 \<noteq> f 1"
  shows "bn_sim f (bsb_run a cs c0 es) (nsb_run a cs (f c0) (map (map_poll_event f) es))"
  using assms(1)
proof (induction es rule: rev_induct)
  case Nil
  with assms(2) show ?case
    by (auto simp: bn_sim_def bsb_new_def nsb_new_def bsf_new_def nsf_new_def bsl_new_def
        bsf_preference_def nsf_preference_def strength_of_def get2_def Let_def)
next
  case (snoc e es)
  with assms(3) show ?case by (cases e) (auto intro: bn_sim_poll bn_sim_falter)
qed

text \<open>
  C10. The two implementations of snowball are interchangeable on two choices:
  fed the same polls, a binary instance over 0 and 1 and an n-nary instance over
  the corresponding ids report the same preference and the same finality after
  every poll, including under saturation.
\<close>

theorem binary_nnary_equivalent:
  assumes "list_all binary_event es" "c0 < 2" "f 0 \<noteq> f 1"
  shows "nsb_preference (nsb_run a cs (f c0) (map (map_poll_event f) es))
      = f (bsb_preference (bsb_run a cs c0 es))
    \<and> nsb_finalized (nsb_run a cs (f c0) (map (map_poll_event f) es))
      = bsb_finalized (bsb_run a cs c0 es)"
  using bn_sim_run [OF assms, of a cs]
  by (simp add: bn_sim_def Let_def nsb_preference_def bsb_preference_def
      nsb_finalized_def bsb_finalized_def)

definition byte_id :: "u8 \<Rightarrow> ava_id" where
  "byte_id b = id_of (b # replicate 31 0)"

lemma as_bytes_byte_id [simp]: "as_bytes (byte_id b) = b # replicate 31 0"
  by (simp add: byte_id_def)

lemma byte_id_inject [simp]: "byte_id a = byte_id b \<longleftrightarrow> a = b"
  by (metis as_bytes_byte_id list.inject)

theorem binary_nnary_equivalent_witness:
  "nsb_preference (nsb_run 2 (tc_single 2 2) (byte_id 7)
     (map (map_poll_event (\<lambda>c. if c = 0 then byte_id 7 else byte_id 9)) [Vote 2 1, Vote 2 (1::nat)]))
   = byte_id 9"
proof -
  let ?f = "\<lambda>c::nat. if c = 0 then byte_id 7 else byte_id 9"
  have "bsb_preference (bsb_run 2 (tc_single 2 2) 0 [Vote 2 1, Vote 2 1]) = 1"
    by (simp add: snow_eval)
  with binary_nnary_equivalent [of "[Vote 2 1, Vote 2 1]" 0 ?f 2 "tc_single 2 2"]
  show ?thesis by simp
qed

section \<open>Extending a unary instance\<close>



end
