(* ===== verification/Ava_Tree_Inv.thy ===== *)
theory Ava_Tree_Inv
  imports Ava_Tree Ava_Snow_Spec
begin

text \<open>
  The contract of the snow factories, the invariant of the snowball tree and
  the proofs that \<^const>\<open>tree_add\<close>, \<^const>\<open>tree_record_poll\<close> and
  \<^const>\<open>tree_record_unsuccessful_poll\<close> keep it.

  The contract (locale \<open>snow_factory\<close>) speaks about an instance through a
  \<open>snow_view\<close>: its invariant, its confidence counter and, for binary
  instances, the choice the counter is for. It is interpreted for both
  factories of \<^verbatim>\<open>consensus.rs\<close>.
\<close>

section \<open>The factory contract\<close>

definition params_ok :: "parameters \<Rightarrow> bool" where
  "params_ok p \<longleftrightarrow> params_verify p = Inr () \<and> p_k p \<le> u32_max \<and> p_beta p \<le> u32_max"

lemma params_okD:
  assumes "params_ok p"
  shows "p_k p < 2 * p_alpha_preference p" "p_alpha_preference p \<le> p_alpha_confidence p"
    "p_alpha_confidence p \<le> p_k p" "0 < p_beta p" "p_beta p \<le> u32_max" "p_k p \<le> u32_max"
    "p_alpha_preference p \<le> u32_max" "p_alpha_confidence p \<le> u32_max"
    "valid_conds (p_alpha_preference p) (tc_single (p_alpha_confidence p) (p_beta p))"
  using assms params_verify_valid [of p] unfolding params_ok_def by auto

record ('u, 'b) snow_view =
  v_uinv :: "'u \<Rightarrow> bool"
  v_uconf :: "'u \<Rightarrow> nat"
  v_binv :: "'b \<Rightarrow> bool"
  v_bconf :: "'b \<Rightarrow> nat"
  v_bslush :: "'b \<Rightarrow> nat"

locale snow_factory =
  fixes F :: "('u, 'b) factory"
    and P :: parameters
    and V :: "('u, 'b) snow_view"
  assumes new_unary: "params_ok P \<Longrightarrow> v_uinv V (f_new_unary F P)"
    and new_conf: "v_uconf V (f_new_unary F P) = 0"
    and new_open: "\<not> f_unary_finalized F (f_new_unary F P)"
    and u_ok: "v_uinv V u \<Longrightarrow> params_ok P"
    and u_falter: "v_uinv V u \<Longrightarrow> v_uinv V (f_unary_falter F u)
          \<and> v_uconf V (f_unary_falter F u) = 0
          \<and> f_unary_finalized F (f_unary_falter F u) = f_unary_finalized F u"
    and u_poll: "v_uinv V u \<Longrightarrow> v_uinv V (f_unary_poll F u n)"
    and u_sticky: "v_uinv V u \<Longrightarrow> f_unary_finalized F u \<Longrightarrow> f_unary_finalized F (f_unary_poll F u n)"
    and u_final: "v_uinv V u \<Longrightarrow> \<not> f_unary_finalized F u \<Longrightarrow>
          f_unary_finalized F (f_unary_poll F u n)
            \<longleftrightarrow> p_alpha_confidence P \<le> n \<and> p_beta P \<le> Suc (v_uconf V u)"
    and u_conf: "v_uinv V u \<Longrightarrow> \<not> f_unary_finalized F (f_unary_poll F u n) \<Longrightarrow>
          v_uconf V (f_unary_poll F u n) = (if p_alpha_confidence P \<le> n then Suc (v_uconf V u) else 0)"
    and u_extend: "v_uinv V u \<Longrightarrow> c < 2 \<Longrightarrow>
          v_binv V (f_unary_extend F u c)
          \<and> v_bconf V (f_unary_extend F u c) = v_uconf V u
          \<and> v_bslush V (f_unary_extend F u c) = c
          \<and> f_binary_preference F (f_unary_extend F u c) = c
          \<and> f_binary_finalized F (f_unary_extend F u c) = f_unary_finalized F u"
    and b_ok: "v_binv V b \<Longrightarrow> params_ok P"
    and b_choice: "v_binv V b \<Longrightarrow> f_binary_preference F b < 2"
    and b_falter: "v_binv V b \<Longrightarrow> v_binv V (f_binary_falter F b)
          \<and> v_bconf V (f_binary_falter F b) = 0
          \<and> v_bslush V (f_binary_falter F b) = v_bslush V b
          \<and> f_binary_preference F (f_binary_falter F b) = f_binary_preference F b
          \<and> f_binary_finalized F (f_binary_falter F b) = f_binary_finalized F b"
    and b_poll: "v_binv V b \<Longrightarrow> c < 2 \<Longrightarrow> v_binv V (f_binary_poll F b n c)"
    and b_sticky: "v_binv V b \<Longrightarrow> f_binary_finalized F b \<Longrightarrow>
          f_binary_finalized F (f_binary_poll F b n c)
          \<and> f_binary_preference F (f_binary_poll F b n c) = f_binary_preference F b"
    and b_slush: "v_binv V b \<Longrightarrow> \<not> f_binary_finalized F b \<Longrightarrow> p_alpha_preference P \<le> n \<Longrightarrow>
          v_bslush V (f_binary_poll F b n c) = c"
    and b_final: "v_binv V b \<Longrightarrow> \<not> f_binary_finalized F b \<Longrightarrow> p_alpha_preference P \<le> n \<Longrightarrow>
          f_binary_finalized F (f_binary_poll F b n c)
            \<longleftrightarrow> p_alpha_confidence P \<le> n \<and> p_beta P \<le> Suc (if c = v_bslush V b then v_bconf V b else 0)"
    and b_conf: "v_binv V b \<Longrightarrow> \<not> f_binary_finalized F (f_binary_poll F b n c) \<Longrightarrow>
          p_alpha_preference P \<le> n \<Longrightarrow>
          v_bconf V (f_binary_poll F b n c)
            = (if p_alpha_confidence P \<le> n then Suc (if c = v_bslush V b then v_bconf V b else 0) else 0)"
    and b_decided: "v_binv V b \<Longrightarrow> \<not> f_binary_finalized F b \<Longrightarrow>
          f_binary_finalized F (f_binary_poll F b n c) \<Longrightarrow>
          f_binary_preference F (f_binary_poll F b n c) = c"

subsection \<open>Both factories keep the contract\<close>

definition snowflake_view :: "parameters \<Rightarrow> (unary_snowflake, binary_snowflake) snow_view" where
  "snowflake_view P =
     (let a = p_alpha_preference P; cs = tc_single (p_alpha_confidence P) (p_beta P) in
      \<lparr>v_uinv = (\<lambda>u. params_ok P \<and> usf_inv a cs u),
       v_uconf = (\<lambda>u. hd (usf_confidence u)),
       v_binv = (\<lambda>b. params_ok P \<and> bsf_inv a cs b \<and> bsf_preference b < 2),
       v_bconf = (\<lambda>b. hd (bsf_confidence b)),
       v_bslush = bsf_preference\<rparr>)"

definition snowball_view :: "parameters \<Rightarrow> (unary_snowball, binary_snowball) snow_view" where
  "snowball_view P =
     (let w = snowflake_view P in
      \<lparr>v_uinv = (\<lambda>u. v_uinv w (usb_snowflake u)),
       v_uconf = (\<lambda>u. v_uconf w (usb_snowflake u)),
       v_binv = (\<lambda>b. v_binv w (bsb_snowflake b) \<and> bsb_pref b < 2),
       v_bconf = (\<lambda>b. v_bconf w (bsb_snowflake b)),
       v_bslush = (\<lambda>b. v_bslush w (bsb_snowflake b))\<rparr>)"

lemma conf_loop_single:
  assumes "0 < bt" "bt \<le> u32_max" "length cf = Suc 0"
  shows "conf_loop n (tc_single al bt) cf =
    (if n < al then ([0], False) else ([sat_add32 (hd cf) 1], bt \<le> Suc (hd cf)))"
proof (cases cf)
  case (Cons x xs)
  with assms have "cf = [x]" by simp
  moreover have "bt \<le> sat_add32 x 1 \<longleftrightarrow> bt \<le> Suc x"
    using assms by (auto simp: sat_add32_def)
  ultimately show ?thesis using assms by (auto simp: tc_single_def Let_def)
qed (use assms in simp)

lemma params_ok_sat:
  "params_ok p \<Longrightarrow> \<not> p_beta p \<le> Suc x \<Longrightarrow> sat_add32 x (Suc 0) = Suc x"
  by (drule params_okD(5)) (simp add: sat_add32_def)

lemma length_tc_single [simp]: "length (tc_single x y) = Suc 0"
  by (simp add: tc_single_def)

lemma params_ok_single:
  assumes "params_ok p" "length cf = Suc 0"
  shows "conf_loop n (tc_single (p_alpha_confidence p) (p_beta p)) cf =
    (if n < p_alpha_confidence p then ([0], False)
     else ([sat_add32 (hd cf) 1], p_beta p \<le> Suc (hd cf)))"
  using assms conf_loop_single [of "p_beta p" cf n "p_alpha_confidence p"] params_okD [of p]
  by (simp add: tc_single_def)

lemma fill0_single: "length cf = Suc 0 \<Longrightarrow> fill0 cf = [0]"
  by (simp add: fill0_def)

lemmas view_defs = snowflake_view_def snowball_view_def snowflake_factory_def snowball_factory_def
  usf_defs bsf_defs usf_extend_def usb_extend_def bsf_from_parts_def bsb_from_extension_def bsl_new_def
  usb_record_poll_def usb_record_unsuccessful_poll_def usb_finalized_def
  bsb_record_unsuccessful_poll_def bsb_finalized_def bsb_preference_def
  snowflake_new_unary_def snowball_new_unary_def usf_new_def usb_new_def

interpretation sff: snow_factory snowflake_factory P "snowflake_view P" for P
  by unfold_locales
    (auto simp: view_defs Let_def params_ok_single fill0_single params_ok_sat split: if_splits prod.splits)

lemma bsb_record_poll_pref:
  "bsb_pref b < 2 \<Longrightarrow> c < 2 \<Longrightarrow> bsb_pref (bsb_record_poll b n c) < 2"
  by (simp add: bsb_record_poll_def Let_def)

interpretation sbf: snow_factory snowball_factory P "snowball_view P" for P
  by unfold_locales
    (auto simp: view_defs Let_def params_ok_single fill0_single params_ok_sat
      bsb_record_poll_pref split: if_splits prod.splits)

section \<open>The tree invariant\<close>

fun node_conf :: "('u, 'b) snow_view \<Rightarrow> ('u, 'b) node \<Rightarrow> nat" where
  "node_conf V (UnaryN p dp cp u sr ch) = v_uconf V u"
| "node_conf V (BinaryN ps i b rs chs) = v_bconf V b"
| "node_conf V EmptyN = 0"

definition branch_conf :: "('u, 'b) snow_view \<Rightarrow> 'b \<Rightarrow> nat \<Rightarrow> nat" where
  "branch_conf V b j = (if j = v_bslush V b then v_bconf V b else 0)"

text \<open>
  \<open>wf_node F V n S\<close>: the sub-tree \<open>n\<close> is a well-formed Patricia tree over the set
  \<open>S\<close> of choices. A run ends at bit 256 or at the decided prefix of its child; a
  split separates its choices by one bit; the stored preferences are those of
  the children; no inner node is finalized; and no node is more confident than
  the node above it, unless a reset is still to be passed down.
\<close>

inductive wf_node ::
    "('u, 'b) factory \<Rightarrow> ('u, 'b) snow_view \<Rightarrow> ('u, 'b) node \<Rightarrow> ava_id set \<Rightarrow> bool"
  for F :: "('u, 'b) factory" and V :: "('u, 'b) snow_view" where
  wf_leaf: "d < 256 \<Longrightarrow> v_uinv V u \<Longrightarrow> wf_node F V (UnaryN p (int d) 256 u sr None) {p}"
| wf_run: "wf_node F V c S \<Longrightarrow> d < e \<Longrightarrow> node_decided_prefix c = int e \<Longrightarrow>
     node_preference F c = p \<Longrightarrow> \<not> node_finalized F c \<Longrightarrow>
     v_uinv V u \<Longrightarrow> \<not> f_unary_finalized F u \<Longrightarrow> sr \<or> node_conf V c \<le> v_uconf V u \<Longrightarrow>
     wf_node F V (UnaryN p (int d) (int e) u sr (Some c)) S"
| wf_last: "id_bit p0 255 = 0 \<Longrightarrow> id_bit p1 255 = 1 \<Longrightarrow> agree 0 255 p0 p1 \<Longrightarrow> v_binv V b \<Longrightarrow>
     wf_node F V (BinaryN (A2 p0 p1) 255 b rs (A2 None None)) {p0, p1}"
| wf_split: "(\<And>j. j < 2 \<Longrightarrow> wf_node F V (C j) (T j)) \<Longrightarrow>
     (\<forall>j<2. node_decided_prefix (C j) = int (Suc i) \<and> \<not> node_finalized F (C j)
        \<and> (\<forall>x \<in> T j. id_bit x i = j)
        \<and> (get2 rs j \<or> node_conf V (C j) \<le> branch_conf V b j)) \<Longrightarrow>
     (\<forall>x \<in> T 0. \<forall>y \<in> T 1. agree 0 i x y) \<Longrightarrow>
     v_binv V b \<Longrightarrow> \<not> f_binary_finalized F b \<Longrightarrow>
     p0 = node_preference F (C 0) \<Longrightarrow> p1 = node_preference F (C 1) \<Longrightarrow> S = T 0 \<union> T 1 \<Longrightarrow>
     wf_node F V (BinaryN (A2 p0 p1) (int i) b rs (A2 (Some (C 0)) (Some (C 1)))) S"

inductive_cases wf_unaryE: "wf_node F V (UnaryN p dp cp u sr ch) S"
inductive_cases wf_binaryE: "wf_node F V (BinaryN ps i b rs chs) S"

context snow_factory
begin

lemma wf_facts:
  assumes "wf_node F V n S"
  shows "\<exists>d < 256. node_decided_prefix n = int d \<and> node_preference F n \<in> S
    \<and> (\<forall>x \<in> S. \<forall>y \<in> S. agree 0 d x y)"
  using assms
proof induction
  case (wf_run c S d e p u sr)
  then have e: "e < 256" "p \<in> S" "\<forall>x \<in> S. \<forall>y \<in> S. agree 0 e x y" by auto
  with wf_run(2) have "\<forall>x \<in> S. \<forall>y \<in> S. agree 0 d x y"
    by (meson agree_mono le_refl less_imp_le)
  with e wf_run(2) show ?case by (auto intro!: exI [of _ d])
next
  case (wf_split C T i rs b p0 p1 S)
  have sub: "i < 256 \<and> node_preference F (C j) \<in> T j \<and> (\<forall>x \<in> T j. \<forall>y \<in> T j. agree 0 i x y)"
    if "j < 2" for j
  proof -
    from wf_split.IH [OF that] obtain d where d: "d < 256" "node_decided_prefix (C j) = int d"
      "node_preference F (C j) \<in> T j" "\<forall>x \<in> T j. \<forall>y \<in> T j. agree 0 d x y" by blast
    with wf_split.hyps(2) that have "d = Suc i" by auto
    with d show ?thesis by (auto simp: agree_Suc)
  qed
  from b_choice [OF wf_split.hyps(4)] wf_split.hyps(3,6-8) sub [of 0] sub [of 1] show ?case
    by (auto intro!: exI [of _ i] dest: agree_sym)
qed (auto simp: agree_sym dest: b_choice)

lemma wf_nonempty: "wf_node F V n S \<Longrightarrow> S \<noteq> {}"
  using wf_facts by blast

lemma wf_decided: "wf_node F V n S \<Longrightarrow> 0 \<le> node_decided_prefix n \<and> node_decided_prefix n < 256"
  using wf_facts by fastforce

lemma wf_agree:
  "wf_node F V n S \<Longrightarrow> x \<in> S \<Longrightarrow> y \<in> S \<Longrightarrow> agree 0 (nat (node_decided_prefix n)) x y"
  using wf_facts by fastforce

lemma wf_preference: "wf_node F V n S \<Longrightarrow> node_preference F n \<in> S"
  using wf_facts by blast

text \<open>A finalized node has no children, so its choices are decided.\<close>

lemma wf_finalized:
  assumes "wf_node F V n S" "node_finalized F n"
  obtains p d u sr where "n = UnaryN p (int d) 256 u sr None" "d < 256" "S = {p}"
  | p0 p1 b rs where "n = BinaryN (A2 p0 p1) 255 b rs (A2 None None)" "S = {p0, p1}"
  using assms by (cases rule: wf_node.cases) auto

end

section \<open>Adding a choice\<close>

lemma sat_i32_small:
  "0 \<le> x \<Longrightarrow> x \<le> 256 \<Longrightarrow> sat_add_i32 x 1 = x + 1"
  "0 \<le> x \<Longrightarrow> x \<le> 256 \<Longrightarrow> sat_sub_i32 x 1 = x - 1"
  by (simp_all add: sat_add_i32_def sat_sub_i32_def i32_max_def i32_min_def)

text \<open>What is left of a run below bit \<open>i\<close>, and the common shape of the four splits.\<close>

definition unary_rest ::
    "ava_id \<Rightarrow> nat \<Rightarrow> int \<Rightarrow> 'u \<Rightarrow> bool \<Rightarrow> ('u, 'b) node option \<Rightarrow> ('u, 'b) node option" where
  "unary_rest p i cp u sr ch =
     (if int (Suc i) = cp then ch else Some (UnaryN p (int (Suc i)) cp u sr ch))"

definition split_node ::
    "('u, 'b) factory \<Rightarrow> parameters \<Rightarrow> ava_id \<Rightarrow> nat \<Rightarrow> ava_id \<Rightarrow> 'u \<Rightarrow> bool \<Rightarrow> ('u, 'b) node option
      \<Rightarrow> ('u, 'b) node" where
  "split_node F P x i p u sr rest =
     (let bt = id_bit p i;
          new = UnaryN x (int (Suc i)) 256 (f_new_unary F P) False None in
      BinaryN (set2 (A2 x x) bt p) (int i) (f_unary_extend F u bt) (A2 sr sr)
        (case rest of None \<Rightarrow> A2 None None
         | Some r \<Rightarrow> set2 (A2 (Some new) (Some new)) bt (Some r)))"

lemma unary_split_eq:
  assumes "d \<le> i" "i < e" "e \<le> 256"
  shows "unary_split F P x i p (int d) (int e) u sr ch =
    (let B = split_node F P x i p u sr (unary_rest p i (int e) u sr ch) in
     if i = d then B else UnaryN p (int d) (int i) u (sr \<and> Suc i = e) (Some B))"
proof -
  have sat: "sat_sub_i32 (int e) 1 = int e - 1" "sat_add_i32 (int d) 1 = int (Suc d)"
    "sat_add_i32 (int i) 1 = int (Suc i)"
    using assms by (simp_all add: sat_i32_small)
  have ints: "int d = int e - 1 \<longleftrightarrow> Suc d = e" "int i = int e - 1 \<longleftrightarrow> Suc i = e"
    "int i = int d \<longleftrightarrow> i = d" "int (Suc i) = int e \<longleftrightarrow> Suc i = e" "int e - 1 = int i \<longleftrightarrow> Suc i = e"
    using assms by linarith+
  consider "Suc i = e" "i = d" | "Suc i = e" "i \<noteq> d" | "Suc i \<noteq> e" "i = d" | "Suc i \<noteq> e" "i \<noteq> d" by blast
  moreover have "Suc d = e \<longrightarrow> i = d" using assms by linarith
  ultimately show ?thesis
    using id_bit_cases [of p i]
    unfolding unary_split_def Let_def sat ints split_node_def unary_rest_def split_children_def
      NUM_BITS_def nat_int
    by cases (elim disjE; simp add: ints split: option.split)+
qed

context snow_factory
begin

lemma wf_rest:
  assumes "wf_node F V (UnaryN p (int d) (int e) u sr ch) S" "d \<le> i" "i < e" "\<not> f_unary_finalized F u"
  shows "case unary_rest p i (int e) u sr ch of
      None \<Rightarrow> i = 255 \<and> S = {p}
    | Some r \<Rightarrow> wf_node F V r S \<and> node_decided_prefix r = int (Suc i) \<and> node_preference F r = p
        \<and> \<not> node_finalized F r \<and> (sr \<or> node_conf V r \<le> v_uconf V u)"
  using assms(1)
proof (cases rule: wf_node.cases)
  case wf_leaf
  with assms show ?thesis
    using wf_node.wf_leaf [of "Suc i" V u F p sr] by (auto simp: unary_rest_def)
next
  case (wf_run c)
  then show ?thesis
  proof (cases "Suc i = e")
    case False
    with wf_run assms have "wf_node F V (UnaryN p (int (Suc i)) (int e) u sr (Some c)) S"
      by (intro wf_node.wf_run) auto
    with False wf_run assms show ?thesis by (auto simp: unary_rest_def)
  qed (use wf_run assms in \<open>auto simp: unary_rest_def\<close>)
qed

lemma wf_unary_inv:
  "wf_node F V (UnaryN p (int d) (int e) u sr ch) S \<Longrightarrow> v_uinv V u \<and> d < e \<and> e \<le> 256 \<and> p \<in> S"
  by (erule wf_unaryE) (auto dest: wf_decided wf_preference)

lemma wf_split_node:
  assumes wf: "wf_node F V (UnaryN p (int d) (int e) u sr ch) S"
    and i: "d \<le> i" "i < e" and nf: "\<not> f_unary_finalized F u"
    and x: "\<forall>y \<in> S. agree 0 i x y" "id_bit x i \<noteq> id_bit p i"
  defines "B \<equiv> split_node F P x i p u sr (unary_rest p i (int e) u sr ch)"
  shows "wf_node F V B (insert x S)" "node_preference F B = p" "\<not> node_finalized F B"
    "node_conf V B = v_uconf V u" "node_decided_prefix B = int i"
proof -
  let ?bt = "id_bit p i"
  have u: "v_uinv V u" and e: "e \<le> 256" and pS: "p \<in> S" using wf_unary_inv [OF wf] by auto
  note ext = u_extend [OF u, of ?bt]
  show "node_preference F B = p" "\<not> node_finalized F B" "node_conf V B = v_uconf V u"
    "node_decided_prefix B = int i"
    using ext nf by (simp_all add: B_def split_node_def Let_def)
  have xo: "id_bit x i = other ?bt" using x(2) by (metis id_bit_neq_iff)
  show "wf_node F V B (insert x S)"
  proof (cases "unary_rest p i (int e) u sr ch")
    case None
    with wf_rest [OF wf i nf] have i255: "i = 255" and S: "S = {p}" by auto
    have "wf_node F V (BinaryN (set2 (A2 x x) ?bt p) 255 (f_unary_extend F u ?bt) (A2 sr sr)
        (A2 None None)) {at0 (set2 (A2 x x) ?bt p), at1 (set2 (A2 x x) ?bt p)}"
      using id_bit_cases [of p i] xo x(1) S i255 ext
      by (auto intro!: wf_node.wf_last intro: agree_sym)
    moreover have "{at0 (set2 (A2 x x) ?bt p), at1 (set2 (A2 x x) ?bt p)} = insert x S"
      using id_bit_cases [of p i] S by auto
    ultimately show ?thesis using None i255 by (simp add: B_def split_node_def Let_def)
  next
    case (Some r)
    let ?new = "UnaryN x (int (Suc i)) 256 (f_new_unary F P) False None"
    let ?C = "\<lambda>j. if j = ?bt then r else ?new" and ?T = "\<lambda>j. if j = ?bt then S else {x}"
    from Some wf_rest [OF wf i nf] have r: "wf_node F V r S" "node_decided_prefix r = int (Suc i)"
      "node_preference F r = p" "\<not> node_finalized F r" "sr \<or> node_conf V r \<le> v_uconf V u" by auto
    have si: "Suc i < 256" using wf_decided [OF r(1)] r(2) by simp
    have new: "wf_node F V ?new {x}"
      using si new_unary [OF u_ok [OF u]] by (intro wf_node.wf_leaf)
    have Sbit: "id_bit y i = ?bt" if "y \<in> S" for y
      using wf_agree [OF r(1) that pS] unfolding r(2) nat_int agree_Suc by simp
    have "wf_node F V (BinaryN (A2 (node_preference F (?C 0)) (node_preference F (?C 1))) (int i)
        (f_unary_extend F u ?bt) (A2 sr sr) (A2 (Some (?C 0)) (Some (?C 1)))) (insert x S)"
    proof (rule wf_node.wf_split [where C = ?C and T = ?T])
      show "\<forall>j<2. node_decided_prefix (?C j) = int (Suc i) \<and> \<not> node_finalized F (?C j)
          \<and> (\<forall>x \<in> ?T j. id_bit x i = j)
          \<and> (get2 (A2 sr sr) j \<or> node_conf V (?C j) \<le> branch_conf V (f_unary_extend F u ?bt) j)"
      proof (intro allI impI)
        fix j :: nat assume "j < 2"
        with xo have "j = ?bt \<or> j \<noteq> ?bt \<and> j = id_bit x i"
          using id_bit_cases [of p i] by (auto simp: less_2_cases_nat)
        then show "node_decided_prefix (?C j) = int (Suc i) \<and> \<not> node_finalized F (?C j)
          \<and> (\<forall>x \<in> ?T j. id_bit x i = j)
          \<and> (get2 (A2 sr sr) j \<or> node_conf V (?C j) \<le> branch_conf V (f_unary_extend F u ?bt) j)"
        proof (elim disjE conjE)
          assume "j = ?bt"
          with r ext Sbit show ?thesis by (simp add: branch_conf_def)
        next
          assume "j \<noteq> ?bt" "j = id_bit x i"
          then show ?thesis by (simp add: new_open new_conf)
        qed
      qed
      show "\<forall>x \<in> ?T 0. \<forall>y \<in> ?T 1. agree 0 i x y"
        using x(1) id_bit_cases [of p i] by (auto intro: agree_sym)
      show "insert x S = ?T 0 \<union> ?T 1"
        using id_bit_cases [of p i] by auto
    qed (use r new ext nf in auto)
    moreover have "B = BinaryN (A2 (node_preference F (?C 0)) (node_preference F (?C 1))) (int i)
        (f_unary_extend F u ?bt) (A2 sr sr) (A2 (Some (?C 0)) (Some (?C 1)))"
      using r(3) Some id_bit_cases [of p i] by (auto simp: B_def split_node_def)
    ultimately show ?thesis by simp
  qed
qed

lemma unary_split_wf:
  assumes wf: "wf_node F V (UnaryN p (int d) (int e) u sr ch) S"
    and i: "d \<le> i" "i < e" and nf: "\<not> f_unary_finalized F u"
    and x: "\<forall>y \<in> S. agree 0 i x y" "id_bit x i \<noteq> id_bit p i"
  defines "n' \<equiv> unary_split F P x i p (int d) (int e) u sr ch"
  shows "wf_node F V n' (insert x S) \<and> node_preference F n' = p \<and> \<not> node_finalized F n'
    \<and> node_conf V n' = v_uconf V u \<and> node_decided_prefix n' = int d"
proof -
  note inv = wf_unary_inv [OF wf]
  note B = wf_split_node [OF wf i nf x]
  show ?thesis
  proof (cases "i = d")
    case True
    with inv i B show ?thesis by (simp add: n'_def unary_split_eq Let_def)
  next
    case False
    with inv i B nf have "wf_node F V (UnaryN p (int d) (int i) u (sr \<and> Suc i = e)
        (Some (split_node F P x i p u sr (unary_rest p i (int e) u sr ch)))) (insert x S)"
      by (intro wf_node.wf_run) auto
    with False inv i nf show ?thesis by (simp add: n'_def unary_split_eq Let_def)
  qed
qed

end

context snow_factory
begin

text \<open>
  A choice that agrees with the decided prefix becomes one of the choices of the
  tree; nothing else that the nodes above can see changes.
\<close>

definition add_ok :: "ava_id \<Rightarrow> ('u, 'b) node \<Rightarrow> ava_id set \<Rightarrow> bool" where
  "add_ok x n S \<longleftrightarrow> (let n' = node_add F P x n in
     wf_node F V n' (insert x S) \<and> node_preference F n' = node_preference F n
     \<and> \<not> node_finalized F n' \<and> node_conf V n' = node_conf V n
     \<and> node_decided_prefix n' = node_decided_prefix n)"

lemma add_ok_unary:
  assumes wf: "wf_node F V (UnaryN p (int d) (int e) u sr ch) S"
    and nf: "\<not> f_unary_finalized F u" and x: "\<forall>y \<in> S. agree 0 d x y"
    and none: "agree d e p x \<Longrightarrow> case ch of None \<Rightarrow> True | Some c \<Rightarrow> add_ok x c S"
  shows "add_ok x (UnaryN p (int d) (int e) u sr ch) S"
proof -
  note inv = wf_unary_inv [OF wf]
  from inv have e: "e \<le> 256" and pS: "p \<in> S" by auto
  note spec = first_difference_subset_spec [OF e, of d p x]
  show ?thesis
  proof (cases "first_difference_subset (int d) (int e) p x")
    case (Some i)
    with spec have i: "d \<le> i" "i < e" "agree d i p x" "id_bit x i \<noteq> id_bit p i"
      by (auto simp: first_diff_spec_def)
    have "\<forall>y \<in> S. agree 0 i x y"
    proof
      fix y assume y: "y \<in> S"
      have "agree 0 i x p"
        using x pS i(1,3) agree_append [of 0 d i x p] by (auto intro: agree_sym)
      moreover have "agree 0 i p y"
      proof (cases "unary_rest p i (int e) u sr ch")
        case None
        with wf_rest [OF wf i(1,2) nf] y show ?thesis by simp
      next
        case (Some r)
        with wf_rest [OF wf i(1,2) nf] have r: "wf_node F V r S" "node_decided_prefix r = int (Suc i)" by auto
        from wf_agree [OF r(1) pS y] show ?thesis unfolding r(2) nat_int agree_Suc by blast
      qed
      ultimately show "agree 0 i x y" by (rule agree_trans)
    qed
    from unary_split_wf [OF wf i(1,2) nf this i(4)] Some nf show ?thesis
      by (simp add: add_ok_def Let_def)
  next
    case None
    with spec have ag: "agree d e p x" by (simp add: first_diff_spec_def)
    show ?thesis
    proof (cases ch)
      case None': None
      with wf have "e = 256" "S = {p}" by (auto elim: wf_node.cases)
      moreover from this ag x have "p = x"
        using inv agree_append [of 0 d 256 p x] by (auto intro!: agree_all_imp_eq intro: agree_sym)
      ultimately show ?thesis using wf nf None None' by (simp add: add_ok_def)
    next
      case (Some c)
      from wf Some have c: "node_decided_prefix c = int e" "d < e" "node_preference F c = p"
        "sr \<or> node_conf V c \<le> v_uconf V u" "v_uinv V u" by (auto elim: wf_node.cases)
      from none [OF ag] Some have "add_ok x c S" by simp
      with c nf have "wf_node F V (UnaryN p (int d) (int e) u sr (Some (node_add F P x c))) (insert x S)"
        unfolding add_ok_def Let_def by (intro wf_node.wf_run) auto
      with Some None nf show ?thesis by (simp add: add_ok_def)
    qed
  qed
qed

lemma wf_add:
  assumes "wf_node F V n S" "\<not> node_finalized F n"
    "\<forall>y \<in> S. agree 0 (nat (node_decided_prefix n)) x y"
  shows "add_ok x n S"
  using assms
proof induction
  case (wf_leaf d u p sr)
  from wf_node.wf_leaf [OF wf_leaf(1,2), of F p sr] wf_leaf(3,4) show ?case
    using add_ok_unary [of p d 256 u sr None "{p}" x] by simp
next
  case (wf_run c S d e p u sr)
  have "add_ok x c S" if "agree d e p x"
  proof (rule wf_run.IH [OF wf_run.hyps(5)])
    have "p \<in> S" using wf_preference [OF wf_run.hyps(1)] wf_run.hyps(4) by simp
    show "\<forall>y \<in> S. agree 0 (nat (node_decided_prefix c)) x y"
    proof
      fix y assume "y \<in> S"
      from wf_agree [OF wf_run.hyps(1) \<open>p \<in> S\<close> this] have "agree 0 e p y"
        using wf_run.hyps by simp
      moreover have "agree 0 e x p"
        using wf_run.hyps wf_run.prems \<open>p \<in> S\<close> that agree_append [of 0 d e x p]
        by (auto intro: agree_sym)
      ultimately show "agree 0 (nat (node_decided_prefix c)) x y"
        using wf_run.hyps by (auto intro: agree_trans)
    qed
  qed
  moreover have "wf_node F V (UnaryN p (int d) (int e) u sr (Some c)) S"
    using wf_run.hyps by (intro wf_node.wf_run)
  ultimately show ?case
    using add_ok_unary [of p d e u sr "Some c" S x] wf_run.prems wf_run.hyps by simp
next
  case (wf_last p0 p1 b rs)
  have "id_bit x 255 = 0 \<Longrightarrow> x = p0" "id_bit x 255 = 1 \<Longrightarrow> x = p1"
    using wf_last agree_all_imp_eq [of x p0] agree_all_imp_eq [of x p1]
      agree_Suc [of 0 255 x p0] agree_Suc [of 0 255 x p1] by simp_all
  then have "x = p0 \<or> x = p1" using id_bit_cases [of x 255] by linarith
  moreover have "wf_node F V (BinaryN (A2 p0 p1) 255 b rs (A2 None None)) {p0, p1}"
    using wf_last by (intro wf_node.wf_last)
  ultimately show ?case using wf_last by (auto simp: add_ok_def insert_absorb)
next
  case (wf_split C T i rs b p0 p1 S)
  define j where "j = id_bit x i"
  have j: "j < 2" by (simp add: j_def)
  have cj: "node_decided_prefix (C j) = int (Suc i)" "\<not> node_finalized F (C j)"
    "\<forall>x \<in> T j. id_bit x i = j" "get2 rs j \<or> node_conf V (C j) \<le> branch_conf V b j"
    using wf_split.hyps(2) j by blast+
  have TS: "T j \<subseteq> S" using j wf_split.hyps(8) by (auto simp: less_2_cases_nat)
  have "\<forall>y \<in> T j. agree 0 (nat (node_decided_prefix (C j))) x y"
    using wf_split.prems(2) TS cj(1,3) by (auto simp: agree_Suc nat_add_distrib j_def)
  from wf_split.IH [OF j cj(2) this] have add: "add_ok x (C j) (T j)" .
  let ?C = "C(j := node_add F P x (C j))" and ?T = "T(j := insert x (T j))"
  have "wf_node F V (BinaryN (A2 (node_preference F (?C 0)) (node_preference F (?C 1))) (int i) b rs
      (A2 (Some (?C 0)) (Some (?C 1)))) (insert x S)"
  proof (rule wf_node.wf_split [where C = ?C and T = ?T])
    show "\<forall>j'<2. node_decided_prefix (?C j') = int (Suc i) \<and> \<not> node_finalized F (?C j')
        \<and> (\<forall>x \<in> ?T j'. id_bit x i = j') \<and> (get2 rs j' \<or> node_conf V (?C j') \<le> branch_conf V b j')"
      using wf_split.hyps(2) add by (auto simp: add_ok_def Let_def j_def)
    show "\<forall>x \<in> ?T 0. \<forall>y \<in> ?T 1. agree 0 i x y"
      using wf_split.hyps(3,8) wf_split.prems(2) j by (auto simp: less_2_cases_nat intro: agree_sym)
    show "insert x S = ?T 0 \<union> ?T 1" using wf_split.hyps(8) j by (auto simp: less_2_cases_nat)
  qed (use wf_split.hyps add in \<open>auto simp: add_ok_def Let_def\<close>)
  moreover have "node_add F P x (BinaryN (A2 p0 p1) (int i) b rs (A2 (Some (C 0)) (Some (C 1))))
      = BinaryN (A2 (node_preference F (?C 0)) (node_preference F (?C 1))) (int i) b rs
          (A2 (Some (?C 0)) (Some (?C 1)))"
    using wf_split.hyps(6,7) add j by (auto simp: add_ok_def Let_def less_2_cases_nat j_def)
  ultimately show ?case using wf_split.hyps add j by (auto simp: add_ok_def Let_def less_2_cases_nat)
qed

end

end
