(* ===== verification/Ava_Tree_Spec.thy ===== *)
theory Ava_Tree_Spec
  imports Ava_Tree_Inv
begin

text \<open>
  Polling the snowball tree: the invariant \<^const>\<open>wf_node\<close> is kept, only choices
  of the tree survive, decided bits stay decided, and repeated strong polls for
  one choice finalize it. The properties of the tree are stated for both
  factories over arbitrary sequences of operations.
\<close>

section \<open>Filtering votes\<close>

lemma filter_bag_wf: "bag_wf votes \<Longrightarrow> bag_wf (filter_bag votes keep)"
  unfolding filter_bag_def by (rule bg.rebuild)

lemma filter_bag_mset: "bag_wf votes \<Longrightarrow> bag_mset (filter_bag votes keep) = filter_mset keep (bag_mset votes)"
  unfolding filter_bag_def by (rule bg.rebuild)

lemma filter_bag_len:
  "bag_wf votes \<Longrightarrow> bag_len (filter_bag votes keep) = size (filter_mset keep (bag_mset votes))"
  by (simp add: filter_bag_wf filter_bag_mset flip: size_bag_mset)

lemma filter_bag_len_le: "bag_wf votes \<Longrightarrow> bag_len (filter_bag votes keep) \<le> bag_len votes"
  by (simp add: filter_bag_len size_filter_mset_lesseq flip: size_bag_mset)

section \<open>One poll\<close>

context snow_factory
begin

lemma u_reset:
  assumes "v_uinv V u"
  shows "v_uinv V (if r then f_unary_falter F u else u)"
    "v_uconf V (if r then f_unary_falter F u else u) = (if r then 0 else v_uconf V u)"
    "f_unary_finalized F (if r then f_unary_falter F u else u) = f_unary_finalized F u"
  using u_falter [OF assms] assms by simp_all

lemma b_reset:
  assumes "v_binv V b"
  shows "v_binv V (if r then f_binary_falter F b else b)"
    "v_bconf V (if r then f_binary_falter F b else b) = (if r then 0 else v_bconf V b)"
    "v_bslush V (if r then f_binary_falter F b else b) = v_bslush V b"
    "f_binary_preference F (if r then f_binary_falter F b else b) = f_binary_preference F b"
    "f_binary_finalized F (if r then f_binary_falter F b else b) = f_binary_finalized F b"
  using b_falter [OF assms] assms by simp_all

text \<open>What a poll of \<open>m\<close> votes does to a sub-tree over the choices \<open>S\<close>.\<close>

definition poll_post ::
    "('u, 'b) node \<Rightarrow> ava_id set \<Rightarrow> nat \<Rightarrow> bool \<Rightarrow> ('u, 'b) node \<times> bool \<Rightarrow> ava_id set \<Rightarrow> bool" where
  "poll_post n S m r res S' \<longleftrightarrow>
     (let n' = fst res; strong = (p_alpha_confidence P \<le> m); eff = (if r then 0 else node_conf V n) in
      wf_node F V n' S' \<and> S' \<subseteq> S \<and> node_decided_prefix n \<le> node_decided_prefix n'
      \<and> (\<not> snd res \<longrightarrow> S' = S \<and> node_preference F n' = node_preference F n
           \<and> node_decided_prefix n' = node_decided_prefix n)
      \<and> (node_finalized F n \<longrightarrow> node_finalized F n' \<and> S' = S
           \<and> node_preference F n' = node_preference F n \<and> node_decided_prefix n' = node_decided_prefix n)
      \<and> (\<not> node_finalized F n \<longrightarrow>
           (node_finalized F n' \<or> node_decided_prefix n' \<noteq> node_decided_prefix n
              \<longrightarrow> strong \<and> p_beta P \<le> Suc eff)
           \<and> (\<not> node_finalized F n' \<longrightarrow> node_conf V n' \<le> (if strong then Suc eff else 0))))"

lemma poll_postI:
  assumes "\<not> node_finalized F n" "eff = (if r then 0 else node_conf V n)"
    "wf_node F V n' S'" "S' \<subseteq> S" "node_decided_prefix n \<le> node_decided_prefix n'"
    "node_finalized F n' \<or> node_decided_prefix n' \<noteq> node_decided_prefix n \<Longrightarrow>
       p_alpha_confidence P \<le> m \<and> p_beta P \<le> Suc eff"
    "\<not> node_finalized F n' \<Longrightarrow> node_conf V n' \<le> (if p_alpha_confidence P \<le> m then Suc eff else 0)"
  shows "poll_post n S m r (n', True) S'"
  using assms(1,3-) unfolding poll_post_def Let_def assms(2) [symmetric] by simp

lemma poll_postD:
  assumes "poll_post n S m r (n', ok) S'" "\<not> node_finalized F n" "eff = (if r then 0 else node_conf V n)"
  shows "wf_node F V n' S'" "S' \<subseteq> S" "node_decided_prefix n \<le> node_decided_prefix n'"
    "node_finalized F n' \<or> node_decided_prefix n' \<noteq> node_decided_prefix n \<Longrightarrow>
       p_alpha_confidence P \<le> m \<and> p_beta P \<le> Suc eff"
    "\<not> node_finalized F n' \<Longrightarrow> node_conf V n' \<le> (if p_alpha_confidence P \<le> m then Suc eff else 0)"
  using assms(1,2) unfolding poll_post_def Let_def assms(3) [symmetric] by auto

lemma poll_leaf:
  assumes "d < 256" "v_uinv V u"
  shows "poll_post (UnaryN p (int d) 256 u sr None) {p} (clamp_u32 (bag_len votes)) r
    (node_record_poll F P (UnaryN p (int d) 256 u sr None) votes r) {p}"
proof -
  define u1 where "u1 = (if r then f_unary_falter F u else u)"
  note r1 = u_reset [OF assms(2), of r, folded u1_def]
  have wf: "wf_node F V (UnaryN p (int d) 256 u' sr' None) {p}" if "v_uinv V u'" for u' sr'
    using assms(1) that by (rule wf_node.wf_leaf)
  show ?thesis
  proof (cases "clamp_u32 (bag_len votes) < p_alpha_preference P")
    case True
    then show ?thesis using u_falter [OF r1(1)] r1 wf [of "f_unary_falter F u1" True]
      by (simp add: poll_post_def Let_def u1_def [symmetric])
  next
    case False
    then show ?thesis
      using u_poll [OF r1(1)] u_sticky [OF r1(1)] u_final [OF r1(1)] u_conf [OF r1(1)] r1 wf
      by (simp add: poll_post_def Let_def u1_def [symmetric])
  qed
qed

lemma poll_run:
  assumes wfc: "wf_node F V c S" and de: "d < e" and dp: "node_decided_prefix c = int e"
    and p: "node_preference F c = p" and nfc: "\<not> node_finalized F c"
    and u: "v_uinv V u" and nfu: "\<not> f_unary_finalized F u" and cu: "sr \<or> node_conf V c \<le> v_uconf V u"
    and IH: "\<And>r. \<exists>S'. poll_post c S (clamp_u32 (bag_len votes)) r (node_record_poll F P c votes r) S'"
  shows "\<exists>S'. poll_post (UnaryN p (int d) (int e) u sr (Some c)) S (clamp_u32 (bag_len votes)) r
    (node_record_poll F P (UnaryN p (int d) (int e) u sr (Some c)) votes r) S'"
proof -
  define u1 where "u1 = (if r then f_unary_falter F u else u)"
  note r1 = u_reset [OF u, of r, folded u1_def]
  define m where "m = clamp_u32 (bag_len votes)"
  show ?thesis
  proof (cases "m < p_alpha_preference P")
    case True
    have "wf_node F V (UnaryN p (int d) (int e) (f_unary_falter F u1) True (Some c)) S"
      using wfc de dp p nfc u_falter [OF r1(1)] r1(3) nfu by (intro wf_node.wf_run) auto
    then show ?thesis using True u_falter [OF r1(1)] r1 nfu
      by (auto simp: poll_post_def Let_def u1_def [symmetric] m_def [symmetric] intro!: exI [of _ S])
  next
    case False
    define sr1 where "sr1 = (if r then True else sr)"
    define u2 where "u2 = f_unary_poll F u1 m"
    define c' where "c' = fst (node_record_poll F P c votes sr1)"
    define eff where "eff = (if sr1 then 0 else node_conf V c)"
    have eff: "eff \<le> v_uconf V u1" using cu r1(2) by (auto simp: eff_def sr1_def)
    from IH [of sr1] obtain S' where "poll_post c S m sr1 (c', snd (node_record_poll F P c votes sr1)) S'"
      by (auto simp: c'_def m_def)
    note c' = poll_postD [OF this nfc eff_def]
    have u2: "v_uinv V u2"
      "f_unary_finalized F u2 \<longleftrightarrow> p_alpha_confidence P \<le> m \<and> p_beta P \<le> Suc (v_uconf V u1)"
      "\<not> f_unary_finalized F u2 \<Longrightarrow>
         v_uconf V u2 = (if p_alpha_confidence P \<le> m then Suc (v_uconf V u1) else 0)"
      unfolding u2_def using u_poll [OF r1(1)] u_final [OF r1(1)] u_conf [OF r1(1)] r1(3) nfu by simp_all
    have res: "node_record_poll F P (UnaryN p (int d) (int e) u sr (Some c)) votes r =
        (if f_unary_finalized F u2 then c'
         else UnaryN (node_preference F c') (int d) (int e) u2 False (Some c'), True)"
      using False by (simp add: Let_def m_def u1_def u2_def sr1_def c'_def)
    have "poll_post (UnaryN p (int d) (int e) u sr (Some c)) S m r
        (if f_unary_finalized F u2 then c'
         else UnaryN (node_preference F c') (int d) (int e) u2 False (Some c'), True) S'"
    proof (rule poll_postI [where eff = "v_uconf V u1"])
      assume "\<not> node_finalized F (if f_unary_finalized F u2 then c'
         else UnaryN (node_preference F c') (int d) (int e) u2 False (Some c'))"
      then show "node_conf V (if f_unary_finalized F u2 then c'
         else UnaryN (node_preference F c') (int d) (int e) u2 False (Some c'))
         \<le> (if p_alpha_confidence P \<le> m then Suc (v_uconf V u1) else 0)"
        using c'(5) eff u2(3) by (auto split: if_splits)
    next
      show "wf_node F V (if f_unary_finalized F u2 then c'
         else UnaryN (node_preference F c') (int d) (int e) u2 False (Some c')) S'"
      proof (cases "f_unary_finalized F u2")
        case nf: False
        with u2(2) eff have "\<not> (p_alpha_confidence P \<le> m \<and> p_beta P \<le> Suc eff)" by linarith
        with c'(4) have c'e: "node_decided_prefix c' = int e" "\<not> node_finalized F c'"
          by (auto simp: dp)
        have "node_conf V c' \<le> v_uconf V u2" using c'(5) [OF c'e(2)] u2(3) [OF nf] eff by auto
        with nf c'e c'(1) de u2(1) show ?thesis by (auto intro!: wf_node.wf_run)
      qed (use c' in simp)
    qed (use nfu r1 c' u2 de dp in \<open>auto split: if_splits\<close>)
    then show ?thesis unfolding res m_def by blast
  qed
qed

lemma b_branch_reset:
  "v_binv V b \<Longrightarrow>
    branch_conf V (if r then f_binary_falter F b else b) j = (if r then 0 else branch_conf V b j)"
  using b_falter [of b] by (simp add: branch_conf_def)

lemma branch_conf_le: "branch_conf V b j \<le> v_bconf V b"
  by (simp add: branch_conf_def)

text \<open>The choice a binary node polls, and the votes it passes on.\<close>

definition poll_bit :: "nat \<Rightarrow> ava_id bag \<Rightarrow> nat" where
  "poll_bit i votes =
     (if clamp_u32 (bag_len (filter_bag votes (\<lambda>x. id_bit x i = 1))) \<ge> p_alpha_preference P
      then 1 else 0)"

definition pruned :: "nat \<Rightarrow> ava_id bag \<Rightarrow> ava_id bag" where
  "pruned i votes = filter_bag votes (\<lambda>x. id_bit x i = poll_bit i votes)"

lemma poll_bit_less: "poll_bit i votes < 2"
  by (simp add: poll_bit_def)

lemma pruned_le: "bag_wf votes \<Longrightarrow> clamp_u32 (bag_len (pruned i votes)) \<le> clamp_u32 (bag_len votes)"
  by (simp add: pruned_def filter_bag_len_le clamp_u32_mono)

lemma binary_poll_eq:
  fixes i votes b r rs
  defines "j \<equiv> poll_bit i votes" and "m' \<equiv> clamp_u32 (bag_len (pruned i votes))"
    and "b1 \<equiv> if r then f_binary_falter F b else b"
    and "r0 \<equiv> r \<or> get2 rs (poll_bit i votes)"
  shows "node_record_poll F P (BinaryN ps (int i) b rs chs) votes r =
    (if m' < p_alpha_preference P then (BinaryN ps (int i) (f_binary_falter F b1) (A2 True True) chs, False)
     else let b2 = f_binary_poll F b1 m' j in
       case get2 chs j of
         None \<Rightarrow> (BinaryN ps (int i) b2 (set2 (A2 True True) j False) chs, True)
       | Some c \<Rightarrow> let c' = fst (node_record_poll F P c (pruned i votes) r0) in
           (if f_binary_finalized F b2 then c'
            else BinaryN (set2 ps j (node_preference F c')) (int i) b2
                   (set2 (A2 True True) j False) (set2 chs j (Some c')), True))"
proof -
  define q where "q \<longleftrightarrow> p_alpha_preference P \<le> clamp_u32 (bag_len (filter_bag votes (\<lambda>x. id_bit x i = 1)))"
  obtain r0' r1' where rs: "rs = A2 r0' r1'" by (cases rs)
  show ?thesis
    unfolding node_record_poll.simps nat_int Let_def j_def m'_def b1_def r0_def pruned_def
      poll_bit_def q_def [symmetric] rs
    by (cases q) (simp_all split: option.split)
qed

lemma b_poll_facts:
  fixes b r m' j
  assumes b: "v_binv V b" and j: "j < 2" and m': "\<not> m' < p_alpha_preference P"
  defines "b1 \<equiv> if r then f_binary_falter F b else b"
  defines "b2 \<equiv> f_binary_poll F b1 m' j" and "eff \<equiv> if r then 0 else branch_conf V b j"
  shows "v_binv V b2"
    "f_binary_finalized F b \<Longrightarrow>
       f_binary_finalized F b2 \<and> f_binary_preference F b2 = f_binary_preference F b"
    "\<not> f_binary_finalized F b \<Longrightarrow>
       f_binary_finalized F b2 \<longleftrightarrow> p_alpha_confidence P \<le> m' \<and> p_beta P \<le> Suc eff"
    "\<not> f_binary_finalized F b \<Longrightarrow> \<not> f_binary_finalized F b2 \<Longrightarrow>
       v_bslush V b2 = j \<and> v_bconf V b2 = (if p_alpha_confidence P \<le> m' then Suc eff else 0)"
    "eff \<le> (if r then 0 else v_bconf V b)"
proof -
  note r1 = b_reset [OF b, of r, folded b1_def] b_branch_reset [OF b, of r j, folded b1_def]
  have eff1: "(if j = v_bslush V b1 then v_bconf V b1 else 0) = eff"
    using r1(6) by (auto simp: branch_conf_def eff_def)
  show "v_binv V b2" unfolding b2_def by (rule b_poll [OF r1(1) j])
  show "f_binary_finalized F b \<Longrightarrow>
      f_binary_finalized F b2 \<and> f_binary_preference F b2 = f_binary_preference F b"
    using b_sticky [OF r1(1)] r1(4,5) unfolding b2_def by simp
  show "\<not> f_binary_finalized F b \<Longrightarrow>
      f_binary_finalized F b2 \<longleftrightarrow> p_alpha_confidence P \<le> m' \<and> p_beta P \<le> Suc eff"
    using b_final [OF r1(1), of m' j] r1(5) m' unfolding b2_def eff1 by simp
  show "\<not> f_binary_finalized F b \<Longrightarrow> \<not> f_binary_finalized F b2 \<Longrightarrow>
      v_bslush V b2 = j \<and> v_bconf V b2 = (if p_alpha_confidence P \<le> m' then Suc eff else 0)"
    using b_slush [OF r1(1), of m' j] b_conf [OF r1(1), of m' j] r1(5) m'
    unfolding b2_def eff1 by simp
  show "eff \<le> (if r then 0 else v_bconf V b)" by (simp add: eff_def branch_conf_le)
qed

lemma poll_last:
  assumes ids: "id_bit p0 255 = 0" "id_bit p1 255 = 1" "agree 0 255 p0 p1"
    and b: "v_binv V b" and votes: "bag_wf votes"
  shows "poll_post (BinaryN (A2 p0 p1) 255 b rs (A2 None None)) {p0, p1} (clamp_u32 (bag_len votes)) r
    (node_record_poll F P (BinaryN (A2 p0 p1) 255 b rs (A2 None None)) votes r) {p0, p1}"
proof -
  have wf: "wf_node F V (BinaryN (A2 p0 p1) 255 b' rs' (A2 None None)) {p0, p1}"
    if "v_binv V b'" for b' rs' using ids that by (rule wf_node.wf_last)
  let ?j = "poll_bit 255 votes" and ?m' = "clamp_u32 (bag_len (pruned 255 votes))"
  have eq: "node_record_poll F P (BinaryN (A2 p0 p1) 255 b rs (A2 None None)) votes r
      = node_record_poll F P (BinaryN (A2 p0 p1) (int 255) b rs (A2 None None)) votes r" by simp
  show ?thesis
  proof (cases "?m' < p_alpha_preference P")
    case True
    with b_falter [OF b_reset(1) [OF b]] b_reset [OF b] wf show ?thesis
      unfolding eq binary_poll_eq by (simp add: poll_post_def Let_def)
  next
    case False
    note b2 = b_poll_facts [OF b poll_bit_less [of 255 votes] False, of r]
    define b2 where "b2 = f_binary_poll F (if r then f_binary_falter F b else b) ?m' ?j"
    have "node_record_poll F P (BinaryN (A2 p0 p1) 255 b rs (A2 None None)) votes r
        = (BinaryN (A2 p0 p1) 255 b2 (set2 (A2 True True) ?j False) (A2 None None), True)"
      unfolding eq binary_poll_eq using False by (simp add: Let_def b2_def)
    moreover have "poll_post (BinaryN (A2 p0 p1) 255 b rs (A2 None None)) {p0, p1}
        (clamp_u32 (bag_len votes)) r
        (BinaryN (A2 p0 p1) 255 b2 (set2 (A2 True True) ?j False) (A2 None None), True) {p0, p1}"
    proof (cases "f_binary_finalized F b")
      case True
      with b2(1) [folded b2_def] b2(2) [OF True, folded b2_def] wf show ?thesis
        by (simp add: poll_post_def Let_def)
    next
      case nf: False
      note b2' = b2(3,4) [OF nf, folded b2_def] b2(1,5) [folded b2_def]
      show ?thesis
      proof (rule poll_postI)
        assume "node_finalized F (BinaryN (A2 p0 p1) 255 b2 (set2 (A2 True True) ?j False) (A2 None None))
          \<or> node_decided_prefix (BinaryN (A2 p0 p1) 255 b2 (set2 (A2 True True) ?j False) (A2 None None))
            \<noteq> node_decided_prefix (BinaryN (A2 p0 p1) 255 b rs (A2 None None))"
        then have "f_binary_finalized F b2" by simp
        with b2'(1) have "p_alpha_confidence P \<le> ?m'" "p_beta P \<le> Suc (if r then 0 else branch_conf V b ?j)"
          by blast+
        with b2'(4) pruned_le [OF votes, of 255]
        show "p_alpha_confidence P \<le> clamp_u32 (bag_len votes)
            \<and> p_beta P \<le> Suc (if r then 0 else v_bconf V b)" by linarith
      next
        assume "\<not> node_finalized F (BinaryN (A2 p0 p1) 255 b2 (set2 (A2 True True) ?j False) (A2 None None))"
        with b2'(2) have "v_bconf V b2
            = (if p_alpha_confidence P \<le> ?m' then Suc (if r then 0 else branch_conf V b ?j) else 0)"
          by simp
        with b2'(4) pruned_le [OF votes, of 255]
        show "node_conf V (BinaryN (A2 p0 p1) 255 b2 (set2 (A2 True True) ?j False) (A2 None None))
            \<le> (if p_alpha_confidence P \<le> clamp_u32 (bag_len votes)
               then Suc (if r then 0 else v_bconf V b) else 0)" by (simp split: if_splits)
      qed (use nf wf b2'(3) in auto)
    qed
    ultimately show ?thesis by simp
  qed
qed

end

context snow_factory
begin

lemma poll_split:
  assumes wf: "\<And>j. j < 2 \<Longrightarrow> wf_node F V (C j) (T j)"
    and cs: "\<forall>j<2. node_decided_prefix (C j) = int (Suc i) \<and> \<not> node_finalized F (C j)
        \<and> (\<forall>x \<in> T j. id_bit x i = j)
        \<and> (get2 rs j \<or> node_conf V (C j) \<le> branch_conf V b j)"
    and ag: "\<forall>x \<in> T 0. \<forall>y \<in> T 1. agree 0 i x y"
    and b: "v_binv V b" and nfb: "\<not> f_binary_finalized F b"
    and votes: "bag_wf votes"
    and IH: "\<And>j votes r. j < 2 \<Longrightarrow> bag_wf votes \<Longrightarrow>
      \<exists>S'. poll_post (C j) (T j) (clamp_u32 (bag_len votes)) r (node_record_poll F P (C j) votes r) S'"
  defines "n \<equiv> BinaryN (A2 (node_preference F (C 0)) (node_preference F (C 1))) (int i) b rs
      (A2 (Some (C 0)) (Some (C 1)))"
  shows "\<exists>S'. poll_post n (T 0 \<union> T 1) (clamp_u32 (bag_len votes)) r (node_record_poll F P n votes r) S'"
proof -
  define j where "j = poll_bit i votes"
  define m' where "m' = clamp_u32 (bag_len (pruned i votes))"
  have j: "j < 2" by (simp add: j_def poll_bit_less)
  have m: "m' \<le> clamp_u32 (bag_len votes)" using pruned_le [OF votes] by (simp add: m'_def)
  note eq = binary_poll_eq [of _ i b rs _ votes r, folded j_def m'_def]
  show ?thesis
  proof (cases "m' < p_alpha_preference P")
    case True
    let ?b' = "f_binary_falter F (if r then f_binary_falter F b else b)"
    have b': "v_binv V ?b'" "v_bconf V ?b' = 0" "f_binary_finalized F ?b' = f_binary_finalized F b"
      "f_binary_preference F ?b' = f_binary_preference F b"
      using b_falter [OF b_reset(1) [OF b]] b_reset [OF b] by simp_all
    have "wf_node F V (BinaryN (A2 (node_preference F (C 0)) (node_preference F (C 1))) (int i) ?b'
        (A2 True True) (A2 (Some (C 0)) (Some (C 1)))) (T 0 \<union> T 1)"
      using wf cs ag b' nfb by (intro wf_node.wf_split [where C = C and T = T]) auto
    then have "poll_post n (T 0 \<union> T 1) (clamp_u32 (bag_len votes)) r
        (BinaryN (A2 (node_preference F (C 0)) (node_preference F (C 1))) (int i) ?b'
        (A2 True True) (A2 (Some (C 0)) (Some (C 1))), False) (T 0 \<union> T 1)"
      using b' nfb unfolding poll_post_def Let_def n_def by simp
    then show ?thesis unfolding n_def eq using True by auto
  next
    case False
    define b2 where "b2 = f_binary_poll F (if r then f_binary_falter F b else b) m' j"
    note b2 = b_poll_facts [OF b j False, of r, folded b2_def]
    note b2' = b2(3,4) [OF nfb]
    define effb where "effb = (if r then 0 else branch_conf V b j)"
    define c' where "c' = fst (node_record_poll F P (C j) (pruned i votes) (r \<or> get2 rs j))"
    have cj: "node_decided_prefix (C j) = int (Suc i)" "\<not> node_finalized F (C j)"
      "\<forall>x \<in> T j. id_bit x i = j" "get2 rs j \<or> node_conf V (C j) \<le> branch_conf V b j"
      using cs j by blast+
    define eff where "eff = (if r \<or> get2 rs j then 0 else node_conf V (C j))"
    have eff: "eff \<le> effb" using cj(4) by (auto simp: eff_def effb_def)
    have "bag_wf (pruned i votes)" by (simp add: pruned_def filter_bag_wf votes)
    from IH [OF j this, of "r \<or> get2 rs j"] obtain S' where
      "poll_post (C j) (T j) m' (r \<or> get2 rs j)
         (c', snd (node_record_poll F P (C j) (pruned i votes) (r \<or> get2 rs j))) S'"
      by (auto simp: c'_def m'_def)
    note c' = poll_postD [OF this cj(2) eff_def]
    have TS: "T j \<subseteq> T 0 \<union> T 1" using j by (auto simp: less_2_cases_nat)
    let ?C = "C(j := c')" and ?T = "T(j := S')"
    define n' where "n' = BinaryN (A2 (node_preference F (?C 0)) (node_preference F (?C 1))) (int i) b2
      (set2 (A2 True True) j False) (A2 (Some (?C 0)) (Some (?C 1)))"
    have res: "node_record_poll F P n votes r = (if f_binary_finalized F b2 then c' else n', True)"
      unfolding n_def eq n'_def using False j
      by (auto simp: Let_def b2_def c'_def less_2_cases_nat)
    have strong: "p_alpha_confidence P \<le> clamp_u32 (bag_len votes)" if "p_alpha_confidence P \<le> m'"
      using that m by simp
    have effn: "effb \<le> (if r then 0 else node_conf V n)"
      by (simp add: effb_def n_def branch_conf_le)
    show ?thesis
    proof (cases "f_binary_finalized F b2")
      case True
      have "poll_post n (T 0 \<union> T 1) (clamp_u32 (bag_len votes)) r (c', True) S'"
      proof (rule poll_postI [OF _ refl])
        assume "\<not> node_finalized F c'"
        with c'(5) eff effn strong show "node_conf V c' \<le> (if p_alpha_confidence P \<le>
           clamp_u32 (bag_len votes) then Suc (if r then 0 else node_conf V n) else 0)"
          by (auto split: if_splits)
      next
        from True b2'(1) effn strong show "p_alpha_confidence P \<le> clamp_u32 (bag_len votes)
            \<and> p_beta P \<le> Suc (if r then 0 else node_conf V n)" by (fold effb_def) linarith
      qed (use c' TS cj nfb in \<open>auto simp: n_def\<close>)
      then show ?thesis unfolding res using True by auto
    next
      case nf: False
      with b2'(1) eff have "\<not> (p_alpha_confidence P \<le> m' \<and> p_beta P \<le> Suc eff)"
        by (fold effb_def) linarith
      with c'(4) cj(1) have c'i: "node_decided_prefix c' = int (Suc i)" "\<not> node_finalized F c'" by auto
      have b2c: "v_bslush V b2 = j" "v_bconf V b2 = (if p_alpha_confidence P \<le> m' then Suc effb else 0)"
        using b2'(2) [OF nf] by (simp_all add: effb_def)
      have wf': "wf_node F V n' (?T 0 \<union> ?T 1)"
        unfolding n'_def
      proof (rule wf_node.wf_split [where C = ?C and T = ?T])
        show "\<forall>k<2. node_decided_prefix (?C k) = int (Suc i) \<and> \<not> node_finalized F (?C k)
          \<and> (\<forall>x \<in> ?T k. id_bit x i = k)
          \<and> (get2 (set2 (A2 True True) j False) k \<or> node_conf V (?C k) \<le> branch_conf V b2 k)"
        proof (intro allI impI)
          fix k :: nat assume k: "k < 2"
          show "node_decided_prefix (?C k) = int (Suc i) \<and> \<not> node_finalized F (?C k)
            \<and> (\<forall>x \<in> ?T k. id_bit x i = k)
            \<and> (get2 (set2 (A2 True True) j False) k \<or> node_conf V (?C k) \<le> branch_conf V b2 k)"
          proof (cases "k = j")
            case True
            have "node_conf V c' \<le> branch_conf V b2 j"
              using c'(5) [OF c'i(2)] b2c eff by (auto simp: branch_conf_def split: if_splits)
            with True c'i c'(2) cj show ?thesis by auto
          next
            case False
            with k j have "get2 (set2 (A2 True True) j False) k" by (auto simp: less_2_cases_nat)
            with False k cs show ?thesis by simp
          qed
        qed
        show "\<forall>x \<in> ?T 0. \<forall>y \<in> ?T 1. agree 0 i x y"
          using ag c'(2) j by (auto simp: less_2_cases_nat)
      qed (use wf c' b2(1) nf in auto)
      have "poll_post n (T 0 \<union> T 1) (clamp_u32 (bag_len votes)) r (n', True) (?T 0 \<union> ?T 1)"
      proof (rule poll_postI [OF _ refl wf'])
        show "?T 0 \<union> ?T 1 \<subseteq> T 0 \<union> T 1" using c'(2) j by (auto simp: less_2_cases_nat)
        show "node_conf V n' \<le> (if p_alpha_confidence P \<le> clamp_u32 (bag_len votes)
            then Suc (if r then 0 else node_conf V n) else 0)"
          using b2c effn strong by (auto simp: n'_def split: if_splits)
      qed (use nf nfb in \<open>auto simp: n_def n'_def\<close>)
      then show ?thesis unfolding res using nf by auto
    qed
  qed
qed

theorem wf_poll:
  assumes "wf_node F V n S" "bag_wf votes"
  shows "\<exists>S'. poll_post n S (clamp_u32 (bag_len votes)) r (node_record_poll F P n votes r) S'"
  using assms
proof (induction arbitrary: votes r)
  case (wf_leaf d u p sr)
  then show ?case using poll_leaf by blast
next
  case (wf_run c S d e p u sr)
  then show ?case by (intro poll_run)
next
  case (wf_last p0 p1 b rs)
  then show ?case using poll_last by blast
next
  case (wf_split C T i rs b p0 p1 S)
  show ?case
    unfolding wf_split.hyps(6-8)
    by (rule poll_split [OF wf_split.hyps(1-5) wf_split.prems wf_split.IH])
qed

end

end
