(* ===== verification/Ava_Tree_Live.thy ===== *)
theory Ava_Tree_Live
  imports Ava_Tree_Spec
begin

text \<open>
  Progress of the snowball tree: every node on the path of a choice gains
  confidence in a poll with enough votes for that choice, so the choice is
  decided after \<^verbatim>\<open>beta\<close> such polls.
\<close>

section \<open>The choices of a tree\<close>

function node_choices :: "('u, 'b) node \<Rightarrow> ava_id list" where
  "node_choices (UnaryN p dp cp u sr None) = [p]"
| "node_choices (UnaryN p dp cp u sr (Some c)) = node_choices c"
| "node_choices (BinaryN ps i b rs (A2 (Some c0) (Some c1))) = node_choices c0 @ node_choices c1"
| "node_choices (BinaryN ps i b rs (A2 None ch)) = [at0 ps, at1 ps]"
| "node_choices (BinaryN ps i b rs (A2 (Some c) None)) = [at0 ps, at1 ps]"
| "node_choices EmptyN = []"
  by pat_completeness auto
termination
  by (relation "measure size") auto

lemma wf_choices: "wf_node F V n S \<Longrightarrow> set (node_choices n) = S"
  by (induction rule: wf_node.induct) auto

section \<open>Confidence along a path\<close>

inductive path_ge ::
    "('u, 'b) snow_view \<Rightarrow> ava_id \<Rightarrow> nat \<Rightarrow> bool \<Rightarrow> ('u, 'b) node \<Rightarrow> bool"
  for V :: "('u, 'b) snow_view" and x :: ava_id and k :: nat where
  pg_leaf: "k \<le> (if r then 0 else v_uconf V u) \<Longrightarrow> path_ge V x k r (UnaryN p dp cp u sr None)"
| pg_run: "k \<le> (if r then 0 else v_uconf V u) \<Longrightarrow> path_ge V x k (r \<or> sr) c \<Longrightarrow>
     path_ge V x k r (UnaryN p dp cp u sr (Some c))"
| pg_last: "k \<le> (if r then 0 else branch_conf V b (id_bit x i)) \<Longrightarrow>
     get2 chs (id_bit x i) = None \<Longrightarrow> path_ge V x k r (BinaryN ps (int i) b rs chs)"
| pg_split: "k \<le> (if r then 0 else branch_conf V b (id_bit x i)) \<Longrightarrow>
     get2 chs (id_bit x i) = Some c \<Longrightarrow> path_ge V x k (r \<or> get2 rs (id_bit x i)) c \<Longrightarrow>
     path_ge V x k r (BinaryN ps (int i) b rs chs)"

inductive_simps path_ge_leaf: "path_ge V x k r (UnaryN p dp cp u sr None)"
inductive_simps path_ge_run: "path_ge V x k r (UnaryN p dp cp u sr (Some c))"
inductive_simps path_ge_binary: "path_ge V x k r (BinaryN ps i b rs chs)"

lemma path_ge_int:
  "path_ge V x k r (BinaryN ps (int i) b rs chs) \<longleftrightarrow>
     k \<le> (if r then 0 else branch_conf V b (id_bit x i))
     \<and> (case get2 chs (id_bit x i) of None \<Rightarrow> True
        | Some c \<Rightarrow> path_ge V x k (r \<or> get2 rs (id_bit x i)) c)"
  by (auto simp: path_ge_binary split: option.split)

lemma path_ge_0: "wf_node F V n S \<Longrightarrow> path_ge V x 0 r n"
proof (induction arbitrary: r rule: wf_node.induct)
  case (wf_last p0 p1 b rs)
  then show ?case using path_ge_int [of V x 0 r "A2 p0 p1" 255 b rs "A2 None None"] by simp
next
  case (wf_split C T i rs b p0 p1 S)
  then show ?case using id_bit_cases [of x i] by (auto simp: path_ge_int)
qed (auto simp: path_ge_leaf path_ge_run)

text \<open>
  The votes of a poll that is strong for \<open>x\<close>: enough of them for \<open>x\<close> itself, and
  no more than \<^verbatim>\<open>k\<close> altogether.
\<close>

definition strong_for :: "parameters \<Rightarrow> ava_id \<Rightarrow> ava_id bag \<Rightarrow> bool" where
  "strong_for P x votes \<longleftrightarrow> bag_wf votes \<and> p_alpha_confidence P \<le> count (bag_mset votes) x
     \<and> bag_len votes \<le> p_k P"

lemma strong_for_filter:
  "strong_for P x votes \<Longrightarrow> keep x \<Longrightarrow> strong_for P x (filter_bag votes keep)"
  using filter_bag_len_le [of votes keep]
  by (auto simp: strong_for_def filter_bag_wf filter_bag_mset)

lemma strong_for_len:
  assumes "strong_for P x votes"
  shows "p_alpha_confidence P \<le> bag_len votes"
  using assms count_le_size [of "bag_mset votes" x] size_bag_mset [of votes]
  by (auto simp: strong_for_def)

context snow_factory
begin

lemma strong_clamp:
  assumes "strong_for P x votes" "params_ok P"
  shows "p_alpha_confidence P \<le> clamp_u32 (bag_len votes)"
    "p_alpha_preference P \<le> clamp_u32 (bag_len votes)"
  using strong_for_len [OF assms(1)] params_okD(2,8) [OF assms(2)]
  by (auto simp: clamp_u32_def)

lemma strong_poll_bit:
  assumes "strong_for P x votes" "params_ok P"
  shows "poll_bit i votes = id_bit x i"
proof -
  let ?f = "\<lambda>j. filter_mset (\<lambda>y. id_bit y i = j) (bag_mset votes)"
  note ok = params_okD [OF assms(2)]
  from assms(1) have wf: "bag_wf votes" and c: "p_alpha_confidence P \<le> count (bag_mset votes) x"
    and k: "bag_len votes \<le> p_k P" by (auto simp: strong_for_def)
  have "count (bag_mset votes) x = count (?f (id_bit x i)) x" by simp
  then have fx: "p_alpha_confidence P \<le> size (?f (id_bit x i))"
    using c count_le_size [of "?f (id_bit x i)" x] by simp
  have "filter_mset (\<lambda>y. \<not> id_bit y i = 1) (bag_mset votes) = ?f 0"
    using id_bit_cases by (intro filter_mset_cong) auto
  then have "size (?f 1) + size (?f 0) = size (bag_mset votes)"
    using multiset_partition [of "bag_mset votes" "\<lambda>y. id_bit y i = 1"] by (metis size_union)
  then have sum: "size (?f 1) + size (?f 0) \<le> p_k P" using k size_bag_mset [OF wf] by simp
  have len1: "bag_len (filter_bag votes (\<lambda>y. id_bit y i = 1)) = size (?f 1)"
    by (rule filter_bag_len [OF wf])
  show ?thesis
  proof (cases "id_bit x i = 1")
    case True
    with fx ok show ?thesis unfolding poll_bit_def len1 by (simp add: clamp_u32_def)
  next
    case False
    then have x0: "id_bit x i = 0" using id_bit_cases [of x i] by auto
    with fx sum ok have "size (?f 1) < p_alpha_preference P" by simp
    with x0 show ?thesis unfolding poll_bit_def len1 by (simp add: clamp_u32_def)
  qed
qed

lemma strong_pruned:
  assumes "strong_for P x votes" "params_ok P"
  shows "strong_for P x (pruned i votes)"
  unfolding pruned_def strong_poll_bit [OF assms]
  by (rule strong_for_filter [OF assms(1)]) simp

text \<open>One strong poll for \<open>x\<close>.\<close>

definition live_post :: "ava_id \<Rightarrow> nat \<Rightarrow> ('u, 'b) node \<Rightarrow> bool" where
  "live_post x k n' \<longleftrightarrow> x \<in> set (node_choices n')
     \<and> (if node_finalized F n' then node_preference F n' = x
        else Suc k < p_beta P \<and> path_ge V x (Suc k) False n')"

lemma live_leaf:
  assumes u: "v_uinv V u" and nf: "\<not> f_unary_finalized F u"
    and votes: "strong_for P p votes" and path: "path_ge V p k r (UnaryN p dp cp u sr None)"
  shows "live_post p k (fst (node_record_poll F P (UnaryN p dp cp u sr None) votes r))"
proof -
  note ok = u_ok [OF u]
  define u1 where "u1 = (if r then f_unary_falter F u else u)"
  note r1 = u_reset [OF u, of r, folded u1_def]
  define m where "m = clamp_u32 (bag_len votes)"
  note m = strong_clamp [OF votes ok, folded m_def]
  have k: "k \<le> v_uconf V u1" using path r1(2) by (simp add: path_ge_leaf)
  have "fst (node_record_poll F P (UnaryN p dp cp u sr None) votes r)
      = UnaryN p dp cp (f_unary_poll F u1 m) False None"
    using m(2) by (simp add: Let_def m_def u1_def)
  then show ?thesis
    using u_final [OF r1(1), of m] u_conf [OF r1(1), of m] r1(3) nf m(1) k
    by (auto simp: live_post_def path_ge_leaf)
qed

lemma live_run:
  assumes wf: "wf_node F V c S" and x: "x \<in> S" and nfc: "\<not> node_finalized F c"
    and dp: "node_decided_prefix c = int e"
    and u: "v_uinv V u" and nfu: "\<not> f_unary_finalized F u" and cu: "sr \<or> node_conf V c \<le> v_uconf V u"
    and votes: "strong_for P x votes"
    and path: "path_ge V x k r (UnaryN p (int d) (int e) u sr (Some c))"
    and IH: "\<And>r. path_ge V x k r c \<Longrightarrow> live_post x k (fst (node_record_poll F P c votes r))"
  shows "live_post x k (fst (node_record_poll F P (UnaryN p (int d) (int e) u sr (Some c)) votes r))"
proof -
  note ok = u_ok [OF u]
  define u1 where "u1 = (if r then f_unary_falter F u else u)"
  note r1 = u_reset [OF u, of r, folded u1_def]
  define m where "m = clamp_u32 (bag_len votes)"
  note m = strong_clamp [OF votes ok, folded m_def]
  define u2 where "u2 = f_unary_poll F u1 m"
  define c' where "c' = fst (node_record_poll F P c votes (r \<or> sr))"
  have k: "k \<le> v_uconf V u1" and pc: "path_ge V x k (r \<or> sr) c"
    using path r1(2) by (simp_all add: path_ge_run)
  have eq: "fst (node_record_poll F P (UnaryN p (int d) (int e) u sr (Some c)) votes r)
      = (if f_unary_finalized F u2 then c'
         else UnaryN (node_preference F c') (int d) (int e) u2 False (Some c'))"
    using m(2) by (auto simp: Let_def m_def u1_def u2_def c'_def)
  have c': "live_post x k c'" unfolding c'_def by (rule IH [OF pc])
  have bw: "bag_wf votes" using votes by (simp add: strong_for_def)
  define eff where "eff = (if r \<or> sr then 0 else node_conf V c)"
  from wf_poll [OF wf bw, of "r \<or> sr"] obtain S' where
    "poll_post c S m (r \<or> sr) (c', snd (node_record_poll F P c votes (r \<or> sr))) S'"
    by (auto simp: c'_def m_def)
  note post = poll_postD [OF this nfc eff_def]
  have eff: "eff \<le> v_uconf V u1" using cu r1(2) by (auto simp: eff_def)
  have fin: "f_unary_finalized F u2 \<longleftrightarrow> p_beta P \<le> Suc (v_uconf V u1)"
    using u_final [OF r1(1), of m] r1(3) nfu m(1) by (simp add: u2_def)
  show ?thesis
  proof (cases "f_unary_finalized F u2")
    case True
    then show ?thesis unfolding eq using c' by simp
  next
    case False
    with fin post(4) eff have "\<not> node_finalized F c'" by auto
    with c' have "Suc k < p_beta P" "path_ge V x (Suc k) False c'" "x \<in> set (node_choices c')"
      by (auto simp: live_post_def)
    moreover have "v_uconf V u2 = Suc (v_uconf V u1)"
      using u_conf [OF r1(1), of m] False m(1) by (simp add: u2_def)
    ultimately show ?thesis unfolding eq using False k by (simp add: live_post_def path_ge_run)
  qed
qed

end

context snow_factory
begin

lemma live_binary:
  assumes b: "v_binv V b" and nfb: "\<not> f_binary_finalized F b"
    and votes: "strong_for P x votes"
    and path: "path_ge V x k r (BinaryN ps (int i) b rs chs)"
    and none: "get2 chs (id_bit x i) = None \<Longrightarrow> get2 ps (id_bit x i) = x \<and> chs = A2 None None"
    and some: "\<And>c. get2 chs (id_bit x i) = Some c \<Longrightarrow>
      \<not> node_finalized F c \<and> x \<in> S' \<and> wf_node F V c S'
      \<and> (get2 rs (id_bit x i) \<or> node_conf V c \<le> branch_conf V b (id_bit x i))
      \<and> get2 chs (other (id_bit x i)) \<noteq> None"
    and IH: "\<And>c votes r. get2 chs (id_bit x i) = Some c \<Longrightarrow> strong_for P x votes \<Longrightarrow> path_ge V x k r c \<Longrightarrow>
      live_post x k (fst (node_record_poll F P c votes r))"
  shows "live_post x k (fst (node_record_poll F P (BinaryN ps (int i) b rs chs) votes r))"
proof -
  note ok = b_ok [OF b]
  define j where "j = id_bit x i"
  have j: "j < 2" by (simp add: j_def)
  note jb = strong_poll_bit [OF votes ok, of i]
  define m' where "m' = clamp_u32 (bag_len (pruned i votes))"
  note votes' = strong_pruned [OF votes ok, of i]
  note m = strong_clamp [OF votes' ok, folded m'_def]
  define b2 where "b2 = f_binary_poll F (if r then f_binary_falter F b else b) m' j"
  define effb where "effb = (if r then 0 else branch_conf V b j)"
  have m2: "\<not> m' < p_alpha_preference P" using m(2) by simp
  note b2 = b_poll_facts [OF b j m2, of r, folded b2_def effb_def]
  note b2' = b2(3,4) [OF nfb]
  have k: "k \<le> effb" using path unfolding path_ge_int j_def effb_def by blast
  have slush2: "branch_conf V b2 j = Suc effb" if "\<not> f_binary_finalized F b2"
    using b2'(2) [OF that] m(1) by (simp add: branch_conf_def)
  show ?thesis
  proof (cases "get2 chs j")
    case None
    then have eq: "fst (node_record_poll F P (BinaryN ps (int i) b rs chs) votes r)
        = BinaryN ps (int i) b2 (set2 (A2 True True) j False) chs"
      unfolding binary_poll_eq jb using m2 by (simp add: Let_def b2_def m'_def j_def jb)
    from None none have ps: "get2 ps j = x" "chs = A2 None None" by (auto simp: j_def)
    have "f_binary_preference F b2 = j" if "f_binary_finalized F b2"
      using b_decided [OF b_reset(1) [OF b]] b_reset(5) [OF b] nfb that unfolding b2_def by blast
    moreover have "x \<in> set (node_choices (BinaryN ps (int i) b2 (set2 (A2 True True) j False) chs))"
      using ps j by (cases ps) (auto simp: less_2_cases_nat)
    ultimately show ?thesis
      unfolding eq using None ps slush2 k b2'(1) m(1)
      by (auto simp: live_post_def path_ge_int j_def [symmetric])
  next
    case (Some c)
    define c' where "c' = fst (node_record_poll F P c (pruned i votes) (r \<or> get2 rs j))"
    have eq: "fst (node_record_poll F P (BinaryN ps (int i) b rs chs) votes r)
        = (if f_binary_finalized F b2 then c'
           else BinaryN (set2 ps j (node_preference F c')) (int i) b2
                  (set2 (A2 True True) j False) (set2 chs j (Some c')))"
      unfolding binary_poll_eq jb using m2 Some by (simp add: Let_def b2_def m'_def j_def jb c'_def)
    from Some some have c: "\<not> node_finalized F c" "wf_node F V c S'"
      "get2 rs j \<or> node_conf V c \<le> branch_conf V b j" "get2 chs (other j) \<noteq> None"
      by (auto simp: j_def)
    from path Some have "path_ge V x k (r \<or> get2 rs j) c" by (simp add: path_ge_int j_def)
    from IH [OF Some [unfolded j_def] votes' this] have c': "live_post x k c'"
      by (simp add: c'_def)
    define eff where "eff = (if r \<or> get2 rs j then 0 else node_conf V c)"
    from wf_poll [OF c(2), of "pruned i votes" "r \<or> get2 rs j"] votes' obtain S'' where
      "poll_post c S' m' (r \<or> get2 rs j) (c', snd (node_record_poll F P c (pruned i votes) (r \<or> get2 rs j))) S''"
      by (auto simp: c'_def m'_def strong_for_def)
    note post = poll_postD [OF this c(1) eff_def]
    have eff: "eff \<le> effb" using c(3) by (auto simp: eff_def effb_def)
    show ?thesis
    proof (cases "f_binary_finalized F b2")
      case True
      then show ?thesis unfolding eq using c' by simp
    next
      case False
      with b2'(1) post(4) eff have "\<not> node_finalized F c'" by auto
      with c' have "Suc k < p_beta P" "path_ge V x (Suc k) False c'" "x \<in> set (node_choices c')"
        by (auto simp: live_post_def)
      moreover have "set (node_choices c') \<subseteq> set (node_choices (BinaryN ps' (int i) b2 rs' (set2 chs j (Some c'))))"
        for ps' rs' using c(4) j by (cases chs) (auto simp: less_2_cases_nat)
      ultimately show ?thesis
        unfolding eq using False slush2 k by (auto simp: live_post_def path_ge_int j_def [symmetric])
    qed
  qed
qed

lemma live_step:
  assumes "wf_node F V n S" "x \<in> S" "\<not> node_finalized F n" "strong_for P x votes" "path_ge V x k r n"
  shows "live_post x k (fst (node_record_poll F P n votes r))"
  using assms
proof (induction arbitrary: votes r)
  case (wf_leaf d u p sr)
  then show ?case using live_leaf by simp
next
  case (wf_run c S d e p u sr)
  then show ?case by (intro live_run) auto
next
  case (wf_last p0 p1 b rs)
  have "live_post x k (fst (node_record_poll F P (BinaryN (A2 p0 p1) (int 255) b rs (A2 None None)) votes r))"
    using wf_last by (intro live_binary) auto
  then show ?case by simp
next
  case (wf_split C T i rs b p0 p1 S)
  define j where "j = id_bit x i"
  have j: "j < 2" by (simp add: j_def)
  have chs: "get2 (A2 (Some (C 0)) (Some (C 1))) j = Some (C j)"
    "get2 (A2 (Some (C 0)) (Some (C 1))) (other j) \<noteq> None"
    using j by (auto simp: less_2_cases_nat)
  have x: "x \<in> T j" 
  proof -
    from wf_split.prems(1) wf_split.hyps(8) have "x \<in> T 0 \<or> x \<in> T 1" by simp
    then obtain l where "l < 2" "x \<in> T l" by (auto intro: that [of 0] that [of 1])
    moreover from this wf_split.hyps(2) have "l = j" by (auto simp: j_def)
    ultimately show ?thesis by simp
  qed
  show ?case
  proof (rule live_binary [where S' = "T j"])
    fix c votes r
    assume "get2 (A2 (Some (C 0)) (Some (C 1))) (id_bit x i) = Some c" "strong_for P x votes" "path_ge V x k r c"
    with wf_split.IH [OF j x] wf_split.hyps(2) j chs(1) show "live_post x k (fst (node_record_poll F P c votes r))"
      by (auto simp: j_def)
  next
    fix c
    assume "get2 (A2 (Some (C 0)) (Some (C 1))) (id_bit x i) = Some c"
    with chs j_def have c: "c = C j" by simp
    show "\<not> node_finalized F c \<and> x \<in> T j \<and> wf_node F V c (T j)
      \<and> (get2 rs (id_bit x i) \<or> node_conf V c \<le> branch_conf V b (id_bit x i))
      \<and> get2 (A2 (Some (C 0)) (Some (C 1))) (other (id_bit x i)) \<noteq> None"
      using wf_split.hyps(1,2) j x chs(2) unfolding c j_def by blast
  qed (use wf_split.hyps wf_split.prems chs in \<open>auto simp: j_def\<close>)
qed

end

end
