(* ===== verification/Ava_Tree_Props.thy ===== *)
theory Ava_Tree_Props
  imports Ava_Tree_Live
begin

text \<open>
  The properties of the snowball tree over arbitrary sequences of operations,
  for both factories: the Patricia structure, that decided bits are never
  revisited, when a tree can finalize and when it must.
\<close>

section \<open>Sequences of operations\<close>

datatype tree_op = AddChoice ava_id | PollVotes "ava_id list" | FailedPoll

definition tree_step :: "('u, 'b) factory \<Rightarrow> ('u, 'b) tree \<Rightarrow> tree_op \<Rightarrow> ('u, 'b) tree" where
  "tree_step F t op = (case op of
       AddChoice x \<Rightarrow> tree_add F t x
     | PollVotes vs \<Rightarrow> fst (tree_record_poll F t (bag_of vs))
     | FailedPoll \<Rightarrow> tree_record_unsuccessful_poll t)"

definition tree_run :: "('u, 'b) factory \<Rightarrow> parameters \<Rightarrow> ava_id \<Rightarrow> tree_op list \<Rightarrow> ('u, 'b) tree" where
  "tree_run F P x0 ops = foldl (tree_step F) (tree_new F P x0) ops"

fun added :: "tree_op \<Rightarrow> ava_id set" where
  "added (AddChoice x) = {x}"
| "added (PollVotes vs) = {}"
| "added FailedPoll = {}"

lemma tree_run_simps [simp]:
  "tree_run F P x0 [] = tree_new F P x0"
  "tree_run F P x0 (ops @ [op]) = tree_step F (tree_run F P x0 ops) op"
  by (simp_all add: tree_run_def)

section \<open>Well-formed Patricia trees\<close>

text \<open>
  The structural part of \<^const>\<open>wf_node\<close> as a predicate on nodes: what the field
  comments of \<^verbatim>\<open>UnaryNode\<close> and \<^verbatim>\<open>BinaryNode\<close> promise.
\<close>

function patricia :: "('u, 'b) factory \<Rightarrow> ('u, 'b) node \<Rightarrow> bool" where
  "patricia F (UnaryN p dp cp u sr None) \<longleftrightarrow> 0 \<le> dp \<and> dp < cp \<and> cp = 256"
| "patricia F (UnaryN p dp cp u sr (Some c)) \<longleftrightarrow> 0 \<le> dp \<and> dp < cp \<and> cp < 256
     \<and> node_decided_prefix c = cp \<and> node_preference F c = p
     \<and> \<not> f_unary_finalized F u \<and> \<not> node_finalized F c
     \<and> (\<forall>x \<in> set (node_choices c). agree 0 (nat cp) p x) \<and> patricia F c"
| "patricia F (BinaryN ps i b rs (A2 None None)) \<longleftrightarrow> i = 255 \<and> f_binary_preference F b < 2
     \<and> id_bit (at0 ps) 255 = 0 \<and> id_bit (at1 ps) 255 = 1 \<and> agree 0 255 (at0 ps) (at1 ps)"
| "patricia F (BinaryN ps i b rs (A2 (Some c0) (Some c1))) \<longleftrightarrow> 0 \<le> i \<and> i < 255
     \<and> f_binary_preference F b < 2 \<and> \<not> f_binary_finalized F b
     \<and> node_decided_prefix c0 = i + 1 \<and> node_decided_prefix c1 = i + 1
     \<and> node_preference F c0 = at0 ps \<and> node_preference F c1 = at1 ps
     \<and> \<not> node_finalized F c0 \<and> \<not> node_finalized F c1
     \<and> (\<forall>x \<in> set (node_choices c0). id_bit x (nat i) = 0)
     \<and> (\<forall>x \<in> set (node_choices c1). id_bit x (nat i) = 1)
     \<and> (\<forall>x \<in> set (node_choices c0). \<forall>y \<in> set (node_choices c1). agree 0 (nat i) x y)
     \<and> patricia F c0 \<and> patricia F c1"
| "patricia F (BinaryN ps i b rs (A2 None (Some c))) \<longleftrightarrow> False"
| "patricia F (BinaryN ps i b rs (A2 (Some c) None)) \<longleftrightarrow> False"
| "patricia F EmptyN \<longleftrightarrow> False"
  by pat_completeness auto
termination
  by (relation "measure (\<lambda>(F, n). size n)") auto

context snow_factory
begin

lemma wf_patricia: "wf_node F V n S \<Longrightarrow> patricia F n"
proof (induction rule: wf_node.induct)
  case (wf_run c S d e p u sr)
  have "p \<in> S" "e < 256" using wf_preference [OF wf_run.hyps(1)] wf_decided [OF wf_run.hyps(1)] wf_run.hyps by auto
  moreover have "\<forall>x \<in> S. agree 0 e p x"
    using wf_agree [OF wf_run.hyps(1) \<open>p \<in> S\<close>] wf_run.hyps(3) by simp
  ultimately show ?case using wf_run wf_choices [OF wf_run.hyps(1)] by simp
next
  case (wf_split C T i rs b p0 p1 S)
  have c: "node_decided_prefix (C j) = int i + 1 \<and> \<not> node_finalized F (C j) \<and> patricia F (C j)
      \<and> set (node_choices (C j)) = T j \<and> (\<forall>x \<in> T j. id_bit x i = j) \<and> i < 255" if "j < 2" for j
    using wf_split.hyps(1,2) wf_split.IH wf_choices wf_decided [of "C j" "T j"] that by force
  from c [of 0] c [of 1] show ?case
    using wf_split.hyps(3-8) b_choice [OF wf_split.hyps(4)] by simp
qed (auto simp: b_choice)

text \<open>What one operation does to a well-formed tree.\<close>

definition tree_conf :: "('u, 'b) tree \<Rightarrow> nat" where
  "tree_conf t = (if t_should_reset t then 0 else node_conf V (t_node t))"

definition tree_ok :: "('u, 'b) tree \<Rightarrow> ava_id set \<Rightarrow> bool" where
  "tree_ok t S \<longleftrightarrow> t_params t = P \<and> wf_node F V (t_node t) S"

lemma tree_ok_new: "params_ok P \<Longrightarrow> tree_ok (tree_new F P x0) {x0}"
  using wf_node.wf_leaf [of 0 V "f_new_unary F P" F x0 False] new_unary
  by (simp add: tree_ok_def tree_new_def NUM_BITS_def)

lemma tree_prefix_agree:
  assumes "tree_ok t S"
  shows "equal_subset 0 (node_decided_prefix (t_node t)) (node_preference F (t_node t)) x
    \<longleftrightarrow> agree 0 (nat (node_decided_prefix (t_node t))) (node_preference F (t_node t)) x"
proof -
  from assms obtain d where "d < 256" "node_decided_prefix (t_node t) = int d"
    using wf_facts [of "t_node t" S] by (auto simp: tree_ok_def)
  then show ?thesis using equal_subset_agree [of d 0] by simp
qed

definition step_post :: "('u, 'b) tree \<Rightarrow> ava_id set \<Rightarrow> ('u, 'b) tree \<Rightarrow> ava_id set \<Rightarrow> bool" where
  "step_post t S t' S' \<longleftrightarrow> tree_ok t' S'
     \<and> node_decided_prefix (t_node t) \<le> node_decided_prefix (t_node t')
     \<and> agree 0 (nat (node_decided_prefix (t_node t))) (tree_preference F t) (tree_preference F t')
     \<and> (tree_finalized F t \<longrightarrow> tree_finalized F t' \<and> tree_preference F t' = tree_preference F t)"

lemma add_final: "wf_node F V n S \<Longrightarrow> node_finalized F n \<Longrightarrow> node_add F P x n = n"
  by (erule (1) wf_finalized) simp_all

lemma tree_add_post:
  assumes ok: "tree_ok t S"
  shows "\<exists>S'. step_post t S (tree_add F t x) S' \<and> S \<subseteq> S' \<and> S' \<subseteq> insert x S
    \<and> tree_preference F (tree_add F t x) = tree_preference F t
    \<and> tree_finalized F (tree_add F t x) = tree_finalized F t
    \<and> tree_conf (tree_add F t x) = tree_conf t
    \<and> (\<not> tree_finalized F t \<longrightarrow>
         agree 0 (nat (node_decided_prefix (t_node t))) (tree_preference F t) x \<longrightarrow> S' = insert x S)"
proof -
  let ?n = "t_node t"
  from ok have wf: "wf_node F V ?n S" and P: "t_params t = P" by (auto simp: tree_ok_def)
  show ?thesis
  proof (cases "\<not> node_finalized F ?n
      \<and> agree 0 (nat (node_decided_prefix ?n)) (node_preference F ?n) x")
    case True
    have "\<forall>y \<in> S. agree 0 (nat (node_decided_prefix ?n)) x y"
      using wf_agree [OF wf wf_preference [OF wf]] True by (meson agree_sym agree_trans)
    from wf_add [OF wf _ this] True have "add_ok x ?n S" by blast
    with True P show ?thesis
      by (intro exI [of _ "insert x S"])
        (auto simp: tree_add_def tree_prefix_agree [OF ok] add_ok_def Let_def step_post_def tree_ok_def
          tree_preference_def tree_finalized_def tree_conf_def)
  next
    case False
    then have "tree_add F t x = t"
      using add_final [OF wf] P by (auto simp: tree_add_def tree_prefix_agree [OF ok])
    with False ok show ?thesis
      by (intro exI [of _ S]) (auto simp: step_post_def tree_finalized_def tree_preference_def)
  qed
qed

lemma tree_poll_post:
  assumes ok: "tree_ok t S" and votes: "bag_wf votes"
  defines "t' \<equiv> fst (tree_record_poll F t votes)"
  shows "\<exists>S'. step_post t S t' S' \<and> S' \<subseteq> S
    \<and> (\<not> tree_finalized F t \<longrightarrow>
         (if tree_finalized F t'
          then p_alpha_confidence P \<le> bag_len votes \<and> p_beta P \<le> Suc (tree_conf t)
          else tree_conf t' \<le> (if p_alpha_confidence P \<le> bag_len votes then Suc (tree_conf t) else 0)))"
proof -
  let ?n = "t_node t"
  define f where "f = filter_bag votes (\<lambda>x. equal_subset 0 (node_decided_prefix ?n) (tree_preference F t) x)"
  from ok have wf: "wf_node F V ?n S" and P: "t_params t = P" by (auto simp: tree_ok_def)
  obtain n' s where res: "node_record_poll F P ?n f (t_should_reset t) = (n', s)" by fastforce
  have t': "t' = t\<lparr>t_node := n', t_should_reset := False\<rparr>"
    by (simp add: t'_def tree_record_poll_def Let_def f_def [symmetric] P res)
  have "bag_wf f" unfolding f_def by (rule filter_bag_wf [OF votes])
  from wf_poll [OF wf this, of "t_should_reset t"] obtain S' where
    post: "poll_post ?n S (clamp_u32 (bag_len f)) (t_should_reset t) (n', s) S'" by (auto simp: res)
  have "clamp_u32 (bag_len f) \<le> bag_len f" by (simp add: clamp_u32_def)
  then have len: "clamp_u32 (bag_len f) \<le> bag_len votes"
    using filter_bag_len_le [OF votes] by (auto simp: f_def intro: order_trans)
  have wf': "wf_node F V n' S'" and sub: "S' \<subseteq> S" using post by (auto simp: poll_post_def Let_def)
  have "agree 0 (nat (node_decided_prefix ?n)) (node_preference F ?n) (node_preference F n')"
    using wf_agree [OF wf wf_preference [OF wf]] wf_preference [OF wf'] sub by blast
  then have "step_post t S t' S'"
    using post P by (auto simp: step_post_def t' tree_ok_def tree_preference_def tree_finalized_def
        poll_post_def Let_def)
  moreover have "(if tree_finalized F t'
          then p_alpha_confidence P \<le> bag_len votes \<and> p_beta P \<le> Suc (tree_conf t)
          else tree_conf t' \<le> (if p_alpha_confidence P \<le> bag_len votes then Suc (tree_conf t) else 0))"
    if "\<not> tree_finalized F t"
    using poll_postD(4,5) [OF post that [unfolded tree_finalized_def], OF tree_conf_def [of t]] len
    by (auto simp: t' tree_finalized_def tree_conf_def split: if_splits)
  ultimately show ?thesis using sub by blast
qed

lemma tree_step_post:
  assumes ok: "tree_ok t S"
  shows "\<exists>S'. step_post t S (tree_step F t op) S' \<and> S' \<subseteq> S \<union> added op"
proof (cases op)
  case (AddChoice x)
  with tree_add_post [OF ok, of x] show ?thesis by (auto simp: tree_step_def)
next
  case (PollVotes vs)
  with tree_poll_post [OF ok bag_wf_of, of vs] show ?thesis by (auto simp: tree_step_def)
next
  case FailedPoll
  with ok show ?thesis
    by (auto simp: tree_step_def tree_record_unsuccessful_poll_def step_post_def tree_ok_def
        tree_preference_def tree_finalized_def)
qed

lemma tree_run_post:
  assumes "tree_ok t S"
  shows "\<exists>S'. step_post t S (foldl (tree_step F) t ops) S' \<and> S' \<subseteq> S \<union> \<Union> (added ` set ops)"
proof (induction ops rule: rev_induct)
  case Nil
  with assms show ?case by (auto simp: step_post_def)
next
  case (snoc op ops)
  let ?t = "foldl (tree_step F) t ops"
  from snoc obtain S1 where S1: "step_post t S ?t S1" "S1 \<subseteq> S \<union> \<Union> (added ` set ops)" by blast
  then have ok1: "tree_ok ?t S1" by (simp add: step_post_def)
  from tree_step_post [OF this, of op] obtain S2 where
    S2: "step_post ?t S1 (tree_step F ?t op) S2" "S2 \<subseteq> S1 \<union> added op" by blast
  note d1 = S1(1) [unfolded step_post_def] and d2 = S2(1) [unfolded step_post_def]
  have "agree 0 (nat (node_decided_prefix (t_node t))) (tree_preference F ?t)
      (tree_preference F (tree_step F ?t op))"
    by (rule agree_mono [where lo = 0 and hi = "nat (node_decided_prefix (t_node ?t))"])
      (use d1 d2 in \<open>simp_all add: nat_mono\<close>)
  then have "agree 0 (nat (node_decided_prefix (t_node t))) (tree_preference F t)
      (tree_preference F (tree_step F ?t op))"
    using d1 agree_trans by blast
  with d1 d2 have "step_post t S (tree_step F ?t op) S2" unfolding step_post_def by simp
  with S1(2) S2(2) show ?case by (intro exI [of _ S2]) (simp, blast)
qed

end

section \<open>Streaks of strong polls\<close>

fun streak_step :: "nat \<Rightarrow> nat \<Rightarrow> tree_op \<Rightarrow> nat" where
  "streak_step a n (AddChoice x) = n"
| "streak_step a n (PollVotes vs) = (if a \<le> length vs then Suc n else 0)"
| "streak_step a n FailedPoll = 0"

text \<open>
  The number of uninterrupted polls with at least \<open>a\<close> votes at the end of a
  sequence of operations.
\<close>

definition poll_streak :: "nat \<Rightarrow> tree_op list \<Rightarrow> nat" where
  "poll_streak a ops = foldl (streak_step a) 0 ops"

lemma bag_len_of [simp]: "bag_len (bag_of vs) = length vs"
  using size_bag_mset [OF bag_wf_of, of vs] by (simp add: bag_mset_of)

context snow_factory
begin

lemma run_ok:
  assumes "params_ok P"
  obtains S where "tree_ok (tree_run F P x0 ops) S" "S \<subseteq> insert x0 (\<Union> (added ` set ops))"
  using tree_run_post [OF tree_ok_new [OF assms, of x0], of ops]
  by (auto simp: step_post_def tree_run_def)

lemma run_structure:
  fixes x0 ops
  assumes "params_ok P"
  defines "t \<equiv> tree_run F P x0 ops"
  shows "patricia F (t_node t) \<and> tree_preference F t \<in> set (node_choices (t_node t))
    \<and> set (node_choices (t_node t)) \<subseteq> insert x0 (\<Union> (added ` set ops))"
proof -
  from run_ok [OF assms(1), of x0 ops] obtain S where
    wf: "wf_node F V (t_node t) S" and S: "S \<subseteq> insert x0 (\<Union> (added ` set ops))"
    unfolding t_def tree_ok_def by blast
  from wf_patricia [OF wf] wf_choices [OF wf] wf_preference [OF wf] S
  show ?thesis by (simp add: tree_preference_def)
qed

lemma run_add:
  fixes x0 ops
  assumes "params_ok P"
  defines "t \<equiv> tree_run F P x0 ops"
  assumes "\<not> tree_finalized F t"
    "agree 0 (nat (node_decided_prefix (t_node t))) (tree_preference F t) x"
  shows "set (node_choices (t_node (tree_add F t x))) = insert x (set (node_choices (t_node t)))
    \<and> tree_preference F (tree_add F t x) = tree_preference F t"
proof -
  from run_ok [OF assms(1), of x0 ops] obtain S where ok: "tree_ok t S" unfolding t_def by blast
  from tree_add_post [OF ok, of x] assms(3,4) have
    ok': "tree_ok (tree_add F t x) (insert x S)" and "tree_preference F (tree_add F t x) = tree_preference F t"
    by (auto simp: step_post_def)
  with wf_choices [OF conjunct2 [OF ok [unfolded tree_ok_def]]]
    wf_choices [OF conjunct2 [OF ok' [unfolded tree_ok_def]]] show ?thesis by simp
qed

lemma run_irrevocable:
  fixes x0 ops later
  assumes "params_ok P"
  defines "t \<equiv> tree_run F P x0 ops" and "t' \<equiv> tree_run F P x0 (ops @ later)"
  shows "node_decided_prefix (t_node t) \<le> node_decided_prefix (t_node t')
    \<and> agree 0 (nat (node_decided_prefix (t_node t))) (tree_preference F t) (tree_preference F t')
    \<and> (tree_finalized F t \<longrightarrow> tree_finalized F t' \<and> tree_preference F t' = tree_preference F t)"
proof -
  from run_ok [OF assms(1), of x0 ops] obtain S where ok: "tree_ok t S" unfolding t_def by blast
  have "t' = foldl (tree_step F) t later" by (simp add: t_def t'_def tree_run_def)
  with tree_run_post [OF ok, of later] show ?thesis by (auto simp: step_post_def)
qed

lemma run_streak:
  assumes "params_ok P"
  shows "if tree_finalized F (tree_run F P x0 ops)
    then \<exists>k \<le> length ops. p_beta P \<le> poll_streak (p_alpha_confidence P) (take k ops)
    else tree_conf (tree_run F P x0 ops) \<le> poll_streak (p_alpha_confidence P) ops"
proof (induction ops rule: rev_induct)
  case Nil
  show ?case by (simp add: tree_finalized_def tree_new_def new_open tree_conf_def new_conf)
next
  case (snoc op ops)
  let ?t = "tree_run F P x0 ops" and ?a = "p_alpha_confidence P"
  from run_ok [OF assms, of x0 ops] obtain S where ok: "tree_ok ?t S" by blast
  have streak: "poll_streak ?a (ops @ [op]) = streak_step ?a (poll_streak ?a ops) op"
    by (simp add: poll_streak_def)
  show ?case
  proof (cases "tree_finalized F ?t")
    case True
    then have "tree_finalized F (tree_step F ?t op)"
      using tree_step_post [OF ok, of op] by (auto simp: step_post_def)
    moreover from True snoc obtain k where "k \<le> length ops" "p_beta P \<le> poll_streak ?a (take k ops)"
      by auto
    ultimately show ?thesis by (auto intro!: exI [of _ k])
  next
    case nf: False
    with snoc have conf: "tree_conf ?t \<le> poll_streak ?a ops" by simp
    have fin: "\<exists>k \<le> length (ops @ [op]). p_beta P \<le> poll_streak ?a (take k (ops @ [op]))"
      if "p_beta P \<le> poll_streak ?a (ops @ [op])"
      using that by (intro exI [of _ "length (ops @ [op])"]) simp
    show ?thesis
    proof (cases op)
      case (AddChoice x)
      with tree_add_post [OF ok, of x] nf conf streak show ?thesis by (auto simp: tree_step_def)
    next
      case (PollVotes vs)
      with tree_poll_post [OF ok bag_wf_of, of vs] nf conf streak fin show ?thesis
        by (force simp: tree_step_def split: if_splits)
    next
      case FailedPoll
      with nf streak show ?thesis
        by (simp add: tree_step_def tree_record_unsuccessful_poll_def tree_finalized_def tree_conf_def)
    qed
  qed
qed

text \<open>Strong polls for a live choice.\<close>

lemma tree_live_step:
  assumes ok: "tree_ok t S" and x: "x \<in> S" and nf: "\<not> tree_finalized F t"
    and votes: "strong_for P x votes" and path: "path_ge V x k (t_should_reset t) (t_node t)"
  defines "t' \<equiv> fst (tree_record_poll F t votes)"
  shows "live_post x k (t_node t') \<and> \<not> t_should_reset t' \<and> (\<exists>S'. tree_ok t' S')"
proof -
  let ?n = "t_node t"
  define f where "f = filter_bag votes (\<lambda>x. equal_subset 0 (node_decided_prefix ?n) (tree_preference F t) x)"
  from ok have wf: "wf_node F V ?n S" and P: "t_params t = P" by (auto simp: tree_ok_def)
  have "equal_subset 0 (node_decided_prefix ?n) (tree_preference F t) x"
    using tree_prefix_agree [OF ok] wf_agree [OF wf wf_preference [OF wf] x] by (simp add: tree_preference_def)
  then have "strong_for P x f" unfolding f_def by (intro strong_for_filter votes)
  from live_step [OF wf x _ this path] nf
  have "live_post x k (fst (node_record_poll F P ?n f (t_should_reset t)))"
    by (simp add: tree_finalized_def)
  moreover have "t_node t' = fst (node_record_poll F P ?n f (t_should_reset t)) \<and> \<not> t_should_reset t'"
    by (simp add: t'_def tree_record_poll_def Let_def f_def [symmetric] P split: prod.split)
  moreover have "\<exists>S'. tree_ok t' S'"
    using tree_poll_post [OF ok, of votes] votes unfolding t'_def strong_for_def step_post_def by blast
  ultimately show ?thesis by simp
qed

lemma tree_live:
  assumes "\<forall>vs \<in> set vss. strong_for P x (bag_of vs)" "tree_ok t S" "x \<in> S"
    "\<not> tree_finalized F t" "path_ge V x k (t_should_reset t) (t_node t)" "p_beta P \<le> k + length vss" "k < p_beta P"
  shows "tree_finalized F (foldl (tree_step F) t (map PollVotes vss))
    \<and> tree_preference F (foldl (tree_step F) t (map PollVotes vss)) = x"
  using assms
proof (induction vss arbitrary: t S k)
  case (Cons vs vss)
  let ?t' = "tree_step F t (PollVotes vs)"
  from tree_live_step [OF Cons.prems(2-4) _ Cons.prems(5), of "bag_of vs"] Cons.prems(1)
  have live: "live_post x k (t_node ?t')" "\<not> t_should_reset ?t'" "\<exists>S'. tree_ok ?t' S'"
    by (simp_all add: tree_step_def)
  then obtain S' where ok': "tree_ok ?t' S'" by blast
  have x': "x \<in> S'" 
    using live(1) wf_choices [OF conjunct2 [OF ok' [unfolded tree_ok_def]]] by (simp add: live_post_def)
  show ?case
  proof (cases "tree_finalized F ?t'")
    case True
    with live(1) have "tree_preference F ?t' = x"
      by (simp add: live_post_def tree_finalized_def tree_preference_def)
    with True tree_run_post [OF ok', of "map PollVotes vss"] show ?thesis by (auto simp: step_post_def)
  next
    case False
    with live have "Suc k < p_beta P" "path_ge V x (Suc k) (t_should_reset ?t') (t_node ?t')"
      by (auto simp: live_post_def tree_finalized_def)
    with Cons.IH [OF _ ok' x' False] Cons.prems show ?thesis by simp
  qed
qed simp

lemma run_live:
  fixes x0 ops vss
  assumes "params_ok P"
  defines "t \<equiv> tree_run F P x0 ops"
  assumes "\<not> tree_finalized F t" "x \<in> set (node_choices (t_node t))" "length vss = p_beta P"
    "\<forall>vs \<in> set vss. p_alpha_confidence P \<le> count_list vs x \<and> length vs \<le> p_k P"
  defines "t' \<equiv> tree_run F P x0 (ops @ map PollVotes vss)"
  shows "tree_finalized F t' \<and> tree_preference F t' = x"
proof -
  from run_ok [OF assms(1), of x0 ops] obtain S where ok: "tree_ok t S" unfolding t_def by blast
  then have "x \<in> S"
    using assms(4) wf_choices [OF conjunct2 [OF ok [unfolded tree_ok_def]]] by simp
  moreover have "\<forall>vs \<in> set vss. strong_for P x (bag_of vs)"
    using assms(6) by (simp add: strong_for_def bag_wf_of bag_mset_of count_mset count_list_eq_length_filter eq_commute)
  moreover have "path_ge V x 0 (t_should_reset t) (t_node t)"
    by (rule path_ge_0 [OF conjunct2 [OF ok [unfolded tree_ok_def]]])
  ultimately have "tree_finalized F (foldl (tree_step F) t (map PollVotes vss))
    \<and> tree_preference F (foldl (tree_step F) t (map PollVotes vss)) = x"
    using ok assms(3,5) params_okD(4) [OF assms(1)] by (intro tree_live [where k = 0]) auto
  then show ?thesis by (simp add: t'_def t_def tree_run_def)
qed

end

section \<open>Properties of the tree\<close>

text \<open>
  C12. Every tree reachable by any sequence of operations, with either factory,
  is a well-formed Patricia tree: runs and splits meet at consecutive bits, the
  stored preferences are those of the children, a split separates its choices
  by its bit, no node with children is finalized. Its preference is one of its
  choices, and every choice was added.
\<close>

theorem tree_well_formed:
  assumes "params_ok P"
  shows "patricia snowball_factory (t_node (tree_run snowball_factory P x0 ops))
    \<and> tree_preference snowball_factory (tree_run snowball_factory P x0 ops)
        \<in> set (node_choices (t_node (tree_run snowball_factory P x0 ops)))
    \<and> set (node_choices (t_node (tree_run snowball_factory P x0 ops))) \<subseteq> insert x0 (\<Union> (added ` set ops))
    \<and> patricia snowflake_factory (t_node (tree_run snowflake_factory P x0 ops))
    \<and> tree_preference snowflake_factory (tree_run snowflake_factory P x0 ops)
        \<in> set (node_choices (t_node (tree_run snowflake_factory P x0 ops)))
    \<and> set (node_choices (t_node (tree_run snowflake_factory P x0 ops))) \<subseteq> insert x0 (\<Union> (added ` set ops))"
  using sbf.run_structure [OF assms, of x0 ops] sff.run_structure [OF assms, of x0 ops]
  by (elim conjE, intro conjI)

lemma params_ok_default: "params_ok DEFAULT_PARAMETERS"
  by (simp add: params_ok_def params_verify_def DEFAULT_PARAMETERS_def u32_max_def)

theorem tree_well_formed_witness:
  "patricia snowball_factory (t_node (tree_run snowball_factory DEFAULT_PARAMETERS (byte_id 7)
     [AddChoice (byte_id 9), PollVotes [byte_id 9], FailedPoll]))"
  by (rule conjunct1 [OF tree_well_formed [OF params_ok_default]])

text \<open>
  C16. A new choice that agrees with the decided bits of a tree that is not
  finalized becomes one of its choices, and adding it changes neither the
  other choices nor the preference, whichever of the five cases of
  \<^verbatim>\<open>UnaryNode::add\<close> applies on the way.
\<close>

theorem tree_add_inserts:
  assumes "params_ok P"
    and "\<not> tree_finalized snowball_factory (tree_run snowball_factory P x0 ops)"
    and "agree 0 (nat (node_decided_prefix (t_node (tree_run snowball_factory P x0 ops))))
           (tree_preference snowball_factory (tree_run snowball_factory P x0 ops)) x"
  shows "set (node_choices (t_node (tree_add snowball_factory (tree_run snowball_factory P x0 ops) x)))
      = insert x (set (node_choices (t_node (tree_run snowball_factory P x0 ops))))
    \<and> tree_preference snowball_factory (tree_add snowball_factory (tree_run snowball_factory P x0 ops) x)
      = tree_preference snowball_factory (tree_run snowball_factory P x0 ops)"
  using sbf.run_add [OF assms] .

lemma new_not_finalized: "\<not> tree_finalized snowball_factory (tree_run snowball_factory P x0 [])"
  by (simp add: tree_finalized_def tree_new_def sbf.new_open)

theorem tree_add_inserts_witness:
  "set (node_choices (t_node (tree_add snowball_factory
     (tree_run snowball_factory DEFAULT_PARAMETERS (byte_id 7) []) (byte_id 9)))) = {byte_id 9, byte_id 7}"
proof -
  have "agree 0 (nat (node_decided_prefix (t_node (tree_run snowball_factory DEFAULT_PARAMETERS (byte_id 7) []))))
      (tree_preference snowball_factory (tree_run snowball_factory DEFAULT_PARAMETERS (byte_id 7) [])) (byte_id 9)"
    by (simp add: tree_new_def)
  from tree_add_inserts [OF params_ok_default new_not_finalized this] show ?thesis
    by (simp add: tree_new_def)
qed

text \<open>
  C14. Decisions are irrevocable. Whatever operations follow, the decided prefix
  never shrinks, every later preference agrees with the earlier one on the bits
  that were decided, and a finalized tree stays finalized with the same
  preference.
\<close>

theorem tree_decisions_irrevocable:
  assumes "params_ok P"
  shows "node_decided_prefix (t_node (tree_run snowball_factory P x0 ops))
      \<le> node_decided_prefix (t_node (tree_run snowball_factory P x0 (ops @ later)))
    \<and> agree 0 (nat (node_decided_prefix (t_node (tree_run snowball_factory P x0 ops))))
        (tree_preference snowball_factory (tree_run snowball_factory P x0 ops))
        (tree_preference snowball_factory (tree_run snowball_factory P x0 (ops @ later)))
    \<and> (tree_finalized snowball_factory (tree_run snowball_factory P x0 ops) \<longrightarrow>
        tree_finalized snowball_factory (tree_run snowball_factory P x0 (ops @ later))
        \<and> tree_preference snowball_factory (tree_run snowball_factory P x0 (ops @ later))
          = tree_preference snowball_factory (tree_run snowball_factory P x0 ops))"
  using sbf.run_irrevocable [OF assms] .

definition one_vote :: parameters where
  "one_vote = \<lparr>p_k = 1, p_alpha_preference = 1, p_alpha_confidence = 1, p_beta = 1,
     p_concurrent_repolls = 1, p_optimal_processing = 1, p_max_outstanding_items = 1,
     p_max_item_processing_time = 1\<rparr>"

lemma params_ok_one_vote: "params_ok one_vote"
  by (simp add: params_ok_def params_verify_def one_vote_def u32_max_def)

lemma one_vote_decides:
  "tree_finalized snowball_factory (tree_run snowball_factory one_vote x0 ([] @ map PollVotes [[x0]]))
   \<and> tree_preference snowball_factory (tree_run snowball_factory one_vote x0 ([] @ map PollVotes [[x0]])) = x0"
  by (rule sbf.run_live [OF params_ok_one_vote new_not_finalized]) (simp_all add: tree_new_def one_vote_def)

theorem tree_decisions_irrevocable_witness:
  "tree_preference snowball_factory (tree_run snowball_factory one_vote (byte_id 7)
     ([PollVotes [byte_id 7]] @ [AddChoice (byte_id 9), PollVotes [byte_id 9]])) = byte_id 7"
  using tree_decisions_irrevocable [OF params_ok_one_vote, of "byte_id 7" "[PollVotes [byte_id 7]]"
      "[AddChoice (byte_id 9), PollVotes [byte_id 9]]"] one_vote_decides [of "byte_id 7"]
  by simp

text \<open>
  C15. A tree finalizes only after \<^verbatim>\<open>beta\<close> uninterrupted polls that each brought
  at least \<^verbatim>\<open>alpha_confidence\<close> votes, however many choices were added, split and
  decided in between.
\<close>

theorem tree_finalizes_only_after_streak:
  assumes "params_ok P"
    and "tree_finalized snowball_factory (tree_run snowball_factory P x0 ops)"
  shows "\<exists>k \<le> length ops. p_beta P \<le> poll_streak (p_alpha_confidence P) (take k ops)"
  using sbf.run_streak [OF assms(1), of x0 ops] assms(2) by simp

theorem tree_finalizes_only_after_streak_witness:
  "\<exists>k \<le> length [PollVotes [byte_id 7]]. p_beta one_vote
     \<le> poll_streak (p_alpha_confidence one_vote) (take k [PollVotes [byte_id 7]])"
  by (rule tree_finalizes_only_after_streak [OF params_ok_one_vote, of "byte_id 7"])
    (use one_vote_decides [of "byte_id 7"] in simp)

text \<open>
  C13. The tree makes progress. If a choice \<open>x\<close> of a tree that is not finalized
  gets at least \<^verbatim>\<open>alpha_confidence\<close> votes in each of \<^verbatim>\<open>beta\<close> consecutive polls
  of at most \<^verbatim>\<open>k\<close> votes, then the tree is finalized on \<open>x\<close>, no matter what
  happened before, how the other votes are spread and which resets were pending.
\<close>

theorem tree_liveness:
  assumes "params_ok P"
    and "\<not> tree_finalized snowball_factory (tree_run snowball_factory P x0 ops)"
    and "x \<in> set (node_choices (t_node (tree_run snowball_factory P x0 ops)))"
    and "length vss = p_beta P"
    and "\<forall>vs \<in> set vss. p_alpha_confidence P \<le> count_list vs x \<and> length vs \<le> p_k P"
  shows "tree_finalized snowball_factory (tree_run snowball_factory P x0 (ops @ map PollVotes vss))
    \<and> tree_preference snowball_factory (tree_run snowball_factory P x0 (ops @ map PollVotes vss)) = x"
  using sbf.run_live [OF assms] .

theorem tree_liveness_witness:
  "tree_finalized snowball_factory (tree_run snowball_factory one_vote (byte_id 7)
       ([AddChoice (byte_id 9)] @ map PollVotes [[byte_id 9]]))
   \<and> tree_preference snowball_factory (tree_run snowball_factory one_vote (byte_id 7)
       ([AddChoice (byte_id 9)] @ map PollVotes [[byte_id 9]])) = byte_id 9"
proof (rule tree_liveness [OF params_ok_one_vote])
  have "tree_run snowball_factory one_vote (byte_id 7) [AddChoice (byte_id 9)]
      = tree_add snowball_factory (tree_run snowball_factory one_vote (byte_id 7) []) (byte_id 9)"
    by (simp add: tree_run_def tree_step_def)
  with sbf.run_add [OF params_ok_one_vote new_not_finalized, of "byte_id 7" "byte_id 9"]
  show "byte_id 9 \<in> set (node_choices (t_node (tree_run snowball_factory one_vote (byte_id 7) [AddChoice (byte_id 9)])))"
    by (simp add: tree_new_def)
  show "\<not> tree_finalized snowball_factory (tree_run snowball_factory one_vote (byte_id 7) [AddChoice (byte_id 9)])"
  proof
    assume "tree_finalized snowball_factory (tree_run snowball_factory one_vote (byte_id 7) [AddChoice (byte_id 9)])"
    with sbf.run_streak [OF params_ok_one_vote, of "byte_id 7" "[AddChoice (byte_id 9)]"]
    obtain k where "1 \<le> poll_streak 1 (take k [AddChoice (byte_id 9)])" by (auto simp: one_vote_def)
    then show False by (cases k) (simp_all add: poll_streak_def)
  qed
qed (simp_all add: one_vote_def)

end
