(* ===== verification/Ava_Topo_Inv.thy ===== *)
theory Ava_Topo_Inv
  imports Ava_Topo Ava_Tree_Props
begin

text \<open>
  The invariant of \<^verbatim>\<open>Topological\<close>: the processing blocks form a tree below the last
  accepted block, each node holds exactly its children and a snowball instance
  over them. Issuing a block, applying votes and accepting a child keep it.

  A block universe \<open>U\<close> gives the block of an id; \<open>blk_ok U b\<close> says that \<open>b\<close> is the
  block its id stands for and that its height is one above its parent's. This
  is what consensus assumes of the blocks a VM issues.
\<close>

section \<open>Blocks and trees of blocks\<close>

definition blk_ok :: "(ava_id \<Rightarrow> blk) \<Rightarrow> blk \<Rightarrow> bool" where
  "blk_ok U b \<longleftrightarrow> U (b_id b) = b \<and> b_height b = Suc (b_height (U (b_parent b)))"

text \<open>The ids whose parent chain leads to \<open>r\<close>.\<close>

inductive below :: "(ava_id \<Rightarrow> blk) \<Rightarrow> ava_id \<Rightarrow> ava_id \<Rightarrow> bool" for U r where
  below_refl: "below U r r"
| below_step: "below U r (b_parent b) \<Longrightarrow> blk_ok U b \<Longrightarrow> below U r (b_id b)"

lemma blk_ok_id: "blk_ok U (U i) \<Longrightarrow> b_id (U i) = i \<Longrightarrow> b_height (U i) = Suc (b_height (U (b_parent (U i))))"
  by (simp add: blk_ok_def)

lemma below_height:
  "below U r i \<Longrightarrow> i = r \<or> b_height (U r) < b_height (U i)"
  by (induction rule: below.induct) (auto simp: blk_ok_def)

lemma below_parent:
  assumes "below U r (b_id b)" "blk_ok U b" "b_id b \<noteq> r"
  shows "below U r (b_parent b)"
  using assms by (cases rule: below.cases) (auto simp: blk_ok_def)

lemma below_trans: "below U q i \<Longrightarrow> below U r q \<Longrightarrow> below U r i"
  by (induction rule: below.induct) (auto intro: below_step)

abbreviation children_ids :: "('u, 'b) snowman_block \<Rightarrow> ava_id set" where
  "children_ids n \<equiv> dom (bt_get (sm_children n))"

context snow_factory
begin

text \<open>A node on its own: its children and the snowball instance over them.\<close>

definition node_ok :: "(ava_id \<Rightarrow> blk) \<Rightarrow> ava_id \<Rightarrow> ('u, 'b) snowman_block \<Rightarrow> bool" where
  "node_ok U i n \<longleftrightarrow> bt_wf (sm_children n)
     \<and> (\<forall>c b. bt_get (sm_children n) c = Some b \<longrightarrow> b = U c \<and> b_id b = c \<and> b_parent b = i \<and> blk_ok U b)
     \<and> (case sm_sb n of None \<Rightarrow> sm_children n = []
        | Some t \<Rightarrow> \<exists>S. tree_ok t S \<and> S \<subseteq> children_ids n)"

text \<open>The nodes of a block map, where only the root \<open>r\<close> may lack its block.\<close>

definition nodes_ok :: "(ava_id \<Rightarrow> blk) \<Rightarrow> ava_id \<Rightarrow> ('u, 'b) blocks \<Rightarrow> bool" where
  "nodes_ok U r bs \<longleftrightarrow> bt_wf bs \<and> (\<forall>i n. bt_get bs i = Some n \<longrightarrow> node_ok U i n
     \<and> (i \<noteq> r \<longrightarrow> sm_blk n = Some (U i) \<and> b_id (U i) = i \<and> blk_ok U (U i)))"

definition linked :: "(ava_id \<Rightarrow> blk) \<Rightarrow> ava_id \<Rightarrow> ('u, 'b) blocks \<Rightarrow> bool" where
  "linked U r bs \<longleftrightarrow> (\<forall>i n. bt_get bs i = Some n \<longrightarrow> children_ids n \<subseteq> dom (bt_get bs)
     \<and> (i \<noteq> r \<longrightarrow> (\<exists>pn. bt_get bs (b_parent (U i)) = Some pn \<and> i \<in> children_ids pn)))"

definition topo_inv :: "(ava_id \<Rightarrow> blk) \<Rightarrow> ('u, 'b) topological \<Rightarrow> bool" where
  "topo_inv U s \<longleftrightarrow> params_ok P \<and> tp_params s = P
     \<and> tp_last_accepted_height s = b_height (U (tp_last_accepted_id s))
     \<and> nodes_ok U (tp_last_accepted_id s) (tp_blocks s) \<and> linked U (tp_last_accepted_id s) (tp_blocks s)
     \<and> (\<exists>n. bt_get (tp_blocks s) (tp_last_accepted_id s) = Some n
          \<and> sm_decided (tp_last_accepted_height s) n)"

lemma node_okD:
  assumes "node_ok U i n"
  shows "bt_wf (sm_children n)"
    "bt_get (sm_children n) c = Some b \<Longrightarrow> b = U c \<and> b_id b = c \<and> b_parent b = i \<and> blk_ok U b"
    "sm_sb n = None \<Longrightarrow> sm_children n = []"
    "sm_sb n = Some t \<Longrightarrow> \<exists>S. tree_ok t S \<and> S \<subseteq> children_ids n"
  using assms by (auto simp: node_ok_def)

lemma nodes_okD:
  assumes "nodes_ok U r bs"
  shows "bt_wf bs" "bt_get bs i = Some n \<Longrightarrow> node_ok U i n"
    "bt_get bs i = Some n \<Longrightarrow> i \<noteq> r \<Longrightarrow> sm_blk n = Some (U i)"
    "bt_get bs i = Some n \<Longrightarrow> i \<noteq> r \<Longrightarrow> b_id (U i) = i"
    "bt_get bs i = Some n \<Longrightarrow> i \<noteq> r \<Longrightarrow> blk_ok U (U i)"
  using assms by (auto simp: nodes_ok_def)

lemma linkedD:
  assumes "linked U r bs" "bt_get bs i = Some n"
  shows "bt_get (sm_children n) c = Some b \<Longrightarrow> \<exists>cn. bt_get bs c = Some cn"
    "i \<noteq> r \<Longrightarrow> \<exists>pn. bt_get bs (b_parent (U i)) = Some pn \<and> i \<in> children_ids pn"
  using assms unfolding linked_def by blast+

lemma topo_invD:
  assumes "topo_inv U s"
  shows "params_ok P" "tp_params s = P" "tp_last_accepted_height s = b_height (U (tp_last_accepted_id s))"
    "nodes_ok U (tp_last_accepted_id s) (tp_blocks s)" "linked U (tp_last_accepted_id s) (tp_blocks s)"
    "\<exists>n. bt_get (tp_blocks s) (tp_last_accepted_id s) = Some n \<and> sm_decided (tp_last_accepted_height s) n"
  using assms by (auto simp: topo_inv_def)

lemma tree_ok_preference: "tree_ok t S \<Longrightarrow> tree_preference F t \<in> S"
  using wf_preference [of "t_node t" S] by (simp add: tree_ok_def tree_preference_def)

lemma node_preference_child:
  assumes "node_ok U i n" "sm_sb n = Some t"
  shows "tree_preference F t \<in> children_ids n"
  using node_okD(4) [OF assms] tree_ok_preference by blast

text \<open>Every block of the map is below the root, so all but the root are above its height.\<close>

lemma blocks_below:
  assumes "nodes_ok U r bs" "linked U r bs" "bt_get bs i = Some n"
  shows "below U r i"
  using assms(3)
proof (induction "b_height (U i)" arbitrary: i n rule: less_induct)
  case less
  show ?case
  proof (cases "i = r")
    case False
    from linkedD(2) [OF assms(2) less.prems False] obtain pn where
      pn: "bt_get bs (b_parent (U i)) = Some pn" by blast
    from nodes_okD(4,5) [OF assms(1) less.prems False] have b: "blk_ok U (U i)" "b_id (U i) = i" by auto
    then have "b_height (U (b_parent (U i))) < b_height (U i)" by (simp add: blk_ok_id)
    from less.hyps [OF this pn] below_step [OF _ b(1), of r] b(2) show ?thesis by simp
  qed (simp add: below_refl)
qed

lemma inv_height:
  assumes "topo_inv U s" "bt_get (tp_blocks s) i = Some n" "i \<noteq> tp_last_accepted_id s"
  shows "tp_last_accepted_height s < b_height (U i)"
  using below_height [OF blocks_below [OF topo_invD(4,5) [OF assms(1)] assms(2)]] assms(3)
    topo_invD(3) [OF assms(1)] by simp

lemma inv_decided:
  assumes "topo_inv U s" "bt_get (tp_blocks s) i = Some n"
  shows "sm_decided (tp_last_accepted_height s) n \<longleftrightarrow> i = tp_last_accepted_id s"
proof (cases "i = tp_last_accepted_id s")
  case True
  with topo_invD(6) [OF assms(1)] assms(2) show ?thesis by auto
next
  case False
  with nodes_okD(3) [OF topo_invD(4) [OF assms(1)] assms(2)] inv_height [OF assms False] show ?thesis
    by (simp add: sm_decided_def)
qed

end

section \<open>Construction and issuing\<close>

context snow_factory
begin

lemma topo_inv_new:
  assumes "params_ok P" "topo_new P l h = Inr s" "h = b_height (U l)"
  shows "topo_inv U s"
  using assms by (auto simp: topo_new_def topo_inv_def nodes_ok_def linked_def node_ok_def sm_genesis_def
      sm_decided_def params_ok_def split: sum.splits if_splits)

lemma add_fresh:
  assumes inv: "topo_inv U s" and "\<not> topo_processing s (b_id b)" "bt_get (tp_blocks s) (b_parent b) = Some pn"
    and b: "blk_ok U b"
  shows "bt_get (tp_blocks s) (b_id b) = None" "b_id b \<noteq> b_parent b" "b_id b \<noteq> tp_last_accepted_id s"
proof -
  have "tp_last_accepted_height s \<le> b_height (U (b_parent b))"
    using inv_height [OF inv assms(3)] topo_invD(3) [OF inv] by fastforce
  moreover have h: "b_height (U (b_id b)) = Suc (b_height (U (b_parent b)))" using b by (simp add: blk_ok_def)
  ultimately show l: "b_id b \<noteq> tp_last_accepted_id s" using topo_invD(3) [OF inv] by auto
  with assms(2) show "bt_get (tp_blocks s) (b_id b) = None" by (simp add: topo_processing_def)
  show "b_id b \<noteq> b_parent b" using h by auto
qed

lemma node_ok_add_child:
  assumes "node_ok U (b_parent b) n" "blk_ok U b" "params_ok P"
  shows "node_ok U (b_parent b) (sm_add_child F P b n)"
    "children_ids (sm_add_child F P b n) = insert (b_id b) (children_ids n)"
    "sm_blk (sm_add_child F P b n) = sm_blk n"
proof -
  let ?n = "sm_add_child F P b n"
  show ch: "children_ids ?n = insert (b_id b) (children_ids n)" "sm_blk ?n = sm_blk n"
    by (auto simp: sm_add_child_def Let_def map_simps)
  have "\<exists>t S. sm_sb ?n = Some t \<and> tree_ok t S \<and> S \<subseteq> insert (b_id b) (children_ids n)"
  proof (cases "sm_sb n")
    case None
    with tree_ok_new [OF assms(3), of "b_id b"] show ?thesis by (auto simp: sm_add_child_def Let_def)
  next
    case (Some t)
    from node_okD(4) [OF assms(1) Some] obtain S where S: "tree_ok t S" "S \<subseteq> children_ids n" by blast
    from tree_add_post [OF S(1), of "b_id b"] obtain S' where
      "tree_ok (tree_add F t (b_id b)) S'" "S' \<subseteq> insert (b_id b) S" by (auto simp: step_post_def)
    with S(2) Some show ?thesis by (force simp: sm_add_child_def Let_def)
  qed
  with ch(1) obtain t S where t: "sm_sb ?n = Some t" "tree_ok t S" "S \<subseteq> children_ids ?n" by auto
  moreover have "bt_wf (sm_children ?n)" using node_okD(1) [OF assms(1)] by (simp add: sm_add_child_def Let_def)
  moreover have "b' = U c \<and> b_id b' = c \<and> b_parent b' = b_parent b \<and> blk_ok U b'"
    if "bt_get (sm_children ?n) c = Some b'" for c b'
    using that node_okD(2) [OF assms(1), of c b'] assms(2)
    by (auto simp: sm_add_child_def Let_def map_simps blk_ok_def split: if_splits)
  ultimately show "node_ok U (b_parent b) ?n" unfolding node_ok_def by auto
qed

lemma topo_add_cases:
  fixes s :: "('u, 'b) topological"
  obtains "topo_processing s (b_id b)" "topo_add F s b = (s, Inl DuplicateAdd)"
  | "\<not> topo_processing s (b_id b)" "bt_get (tp_blocks s) (b_parent b) = None"
      "topo_add F s b = (s, Inl UnknownParentBlock)"
  | pn s' where "\<not> topo_processing s (b_id b)" "bt_get (tp_blocks s) (b_parent b) = Some pn"
      "topo_add F s b = (s', Inr ())"
      "tp_blocks s' = bt_insert (b_id b) (sm_processing b)
         (bt_insert (b_parent b) (sm_add_child F (tp_params s) b pn) (tp_blocks s))"
      "tp_params s' = tp_params s" "tp_last_accepted_id s' = tp_last_accepted_id s"
      "tp_last_accepted_height s' = tp_last_accepted_height s" "tp_log s' = tp_log s"
      "tp_preference s' = (if tp_preference s = b_parent b then b_id b else tp_preference s)"
      "tp_preferred_ids s' = (if tp_preference s = b_parent b then bs_insert (b_id b) (tp_preferred_ids s)
         else tp_preferred_ids s)"
      "tp_preferred_heights s' = (if tp_preference s = b_parent b
         then bt_insert (b_height b) (b_id b) (tp_preferred_heights s) else tp_preferred_heights s)"
proof (cases "topo_processing s (b_id b)")
  case True
  then show ?thesis using that(1) by (simp add: topo_add_def)
next
  case np: False
  show ?thesis
  proof (cases "bt_get (tp_blocks s) (b_parent b)")
    case None
    then show ?thesis using that(2) np by (simp add: topo_add_def)
  next
    case (Some pn)
    show ?thesis
    proof (rule that(3) [OF np Some])
      show "topo_add F s b = (fst (topo_add F s b), Inr ())" using np Some by (simp add: topo_add_def Let_def)
    qed (use np Some in \<open>simp_all add: topo_add_def Let_def bt_modify_def\<close>)
  qed
qed

lemma topo_inv_add:
  assumes inv: "topo_inv U s" and b: "blk_ok U b" and res: "topo_add F s b = (s', r)"
  shows "topo_inv U s' \<and> tp_log s' = tp_log s \<and> tp_last_accepted_id s' = tp_last_accepted_id s"
proof (cases rule: topo_add_cases [of s b])
  case (3 pn s'')
  let ?L = "tp_last_accepted_id s" and ?bs = "tp_blocks s" and ?bs' = "tp_blocks s'" and ?p = "b_parent b"
  from 3(3) res have eq: "s'' = s'" by simp
  note upd = 3(4-8) [unfolded eq]
  note fresh = add_fresh [OF inv 3(1,2) b]
  note nodes = topo_invD(4) [OF inv] and links = topo_invD(5) [OF inv]
  note P = topo_invD(2) [OF inv]
  have pok: "node_ok U ?p pn" by (rule nodes_okD(2) [OF nodes 3(2)])
  note child = node_ok_add_child [OF pok b topo_invD(1) [OF inv]]
  have get: "bt_get ?bs' = (bt_get ?bs)(?p \<mapsto> sm_add_child F P b pn, b_id b \<mapsto> sm_processing b)"
    by (simp add: upd(1) P map_simps fun_eq_iff)
  have bid: "U (b_id b) = b" using b by (simp add: blk_ok_def)
  have new: "node_ok U (b_id b) (sm_processing b)" by (simp add: node_ok_def sm_processing_def)
  have "nodes_ok U ?L ?bs'"
    unfolding nodes_ok_def
  proof (intro conjI allI impI)
    show "bt_wf ?bs'" using nodes_okD(1) [OF nodes] by (simp add: upd(1))
  qed (use nodes_okD(2-5) [OF nodes] new child 3(2) bid b fresh in
      \<open>auto simp: get sm_processing_def split: if_splits\<close>)
  moreover have "linked U ?L ?bs'"
    unfolding linked_def
  proof (intro allI impI conjI subsetI)
    fix i n c assume i: "bt_get ?bs' i = Some n" and c: "c \<in> children_ids n"
    show "c \<in> dom (bt_get ?bs')"
    proof (cases "i = ?p \<and> i \<noteq> b_id b")
      case True
      with i have "n = sm_add_child F P b pn" by (auto simp: get)
      with c child(2) have "c = b_id b \<or> c \<in> children_ids pn" by blast
      with linkedD(1) [OF links 3(2)] show ?thesis by (auto simp: get)
    next
      case False
      with i c linkedD(1) [OF links] show ?thesis by (auto simp: get sm_processing_def split: if_splits)
    qed
  next
    fix i n assume i: "bt_get ?bs' i = Some n" and ne: "i \<noteq> ?L"
    show "\<exists>pn. bt_get ?bs' (b_parent (U i)) = Some pn \<and> i \<in> children_ids pn"
    proof (cases "i = b_id b")
      case True
      with bid child(2) fresh(2) show ?thesis by (simp add: get)
    next
      case False
      with i 3(2) obtain n' where n': "bt_get ?bs i = Some n'" by (auto simp: get split: if_splits)
      from linkedD(2) [OF links n' ne] obtain qn where
        qn: "bt_get ?bs (b_parent (U i)) = Some qn" "i \<in> children_ids qn" by blast
      with fresh(1) have "b_parent (U i) \<noteq> b_id b" by auto
      with qn 3(2) child(2) show ?thesis by (auto simp: get)
    qed
  qed
  moreover have "\<exists>n. bt_get ?bs' ?L = Some n \<and> sm_decided (tp_last_accepted_height s) n"
    using topo_invD(6) [OF inv] fresh(3) 3(2) child(3) by (auto simp: get sm_decided_def)
  ultimately show ?thesis using topo_invD(1-3) [OF inv] by (simp add: topo_inv_def upd)
qed (use res inv in auto)

end

section \<open>Updating nodes in place\<close>

text \<open>Two states that differ only in the snowball instances and the falter flags of their nodes.\<close>

definition same_shape :: "('u, 'b) topological \<Rightarrow> ('u, 'b) topological \<Rightarrow> bool" where
  "same_shape s s' \<longleftrightarrow> (\<exists>bs. s' = s\<lparr>tp_blocks := bs\<rparr>)
     \<and> (\<forall>i. map_option (\<lambda>n. (sm_blk n, sm_children n)) (bt_get (tp_blocks s') i)
          = map_option (\<lambda>n. (sm_blk n, sm_children n)) (bt_get (tp_blocks s) i))"

lemma same_shape_refl [simp]: "same_shape s s"
  by (auto simp: same_shape_def intro: exI [of _ "tp_blocks s"])

lemma same_shape_trans: "same_shape s s' \<Longrightarrow> same_shape s' s'' \<Longrightarrow> same_shape s s''"
  unfolding same_shape_def by auto

lemma same_shape_fields:
  assumes "same_shape s s'"
  shows "tp_last_accepted_id s' = tp_last_accepted_id s" "tp_last_accepted_height s' = tp_last_accepted_height s"
    "tp_params s' = tp_params s" "tp_log s' = tp_log s" "tp_preference s' = tp_preference s"
    "tp_preferred_ids s' = tp_preferred_ids s" "tp_preferred_heights s' = tp_preferred_heights s"
    "dom (bt_get (tp_blocks s')) = dom (bt_get (tp_blocks s))"
proof -
  from assms obtain bs where s': "s' = s\<lparr>tp_blocks := bs\<rparr>"
    and m: "\<forall>i. map_option (\<lambda>n. (sm_blk n, sm_children n)) (bt_get (tp_blocks s') i)
          = map_option (\<lambda>n. (sm_blk n, sm_children n)) (bt_get (tp_blocks s) i)"
    by (auto simp: same_shape_def)
  show "tp_last_accepted_id s' = tp_last_accepted_id s" "tp_last_accepted_height s' = tp_last_accepted_height s"
    "tp_params s' = tp_params s" "tp_log s' = tp_log s" "tp_preference s' = tp_preference s"
    "tp_preferred_ids s' = tp_preferred_ids s" "tp_preferred_heights s' = tp_preferred_heights s"
    by (simp_all add: s')
  have "(bt_get (tp_blocks s') i = None) = (bt_get (tp_blocks s) i = None)" for i
    using m [rule_format, of i] by (cases "bt_get (tp_blocks s) i"; cases "bt_get (tp_blocks s') i") simp_all
  then show "dom (bt_get (tp_blocks s')) = dom (bt_get (tp_blocks s))" by (simp add: dom_def)
qed

lemma same_shape_node:
  assumes "same_shape s s'" "bt_get (tp_blocks s') i = Some n'"
  shows "\<exists>n. bt_get (tp_blocks s) i = Some n \<and> sm_blk n' = sm_blk n \<and> sm_children n' = sm_children n"
proof -
  have "map_option (\<lambda>n. (sm_blk n, sm_children n)) (bt_get (tp_blocks s') i)
          = map_option (\<lambda>n. (sm_blk n, sm_children n)) (bt_get (tp_blocks s) i)"
    using assms(1) by (simp add: same_shape_def)
  with assms(2) show ?thesis by (cases "bt_get (tp_blocks s) i") auto
qed

lemma modify_block_get:
  "bt_get (tp_blocks (modify_block i f s)) j
    = (if j = i then map_option f (bt_get (tp_blocks s) i) else bt_get (tp_blocks s) j)"
  by (simp add: modify_block_def bt_get_modify)

lemma modify_block_shape:
  assumes "\<And>n. sm_blk (f n) = sm_blk n \<and> sm_children (f n) = sm_children n"
  shows "same_shape s (modify_block i f s)"
  unfolding same_shape_def
proof
  show "\<exists>bs. modify_block i f s = s\<lparr>tp_blocks := bs\<rparr>" by (auto simp: modify_block_def)
  show "\<forall>j. map_option (\<lambda>n. (sm_blk n, sm_children n)) (bt_get (tp_blocks (modify_block i f s)) j)
      = map_option (\<lambda>n. (sm_blk n, sm_children n)) (bt_get (tp_blocks s) j)"
    unfolding modify_block_get using assms by (auto simp: option.map_comp comp_def)
qed

context snow_factory
begin

lemma topo_inv_shape:
  assumes inv: "topo_inv U s" and shape: "same_shape s s'" and wf: "bt_wf (tp_blocks s')"
    and ok: "\<And>i n'. bt_get (tp_blocks s') i = Some n' \<Longrightarrow> node_ok U i n'"
  shows "topo_inv U s'"
proof -
  note fields = same_shape_fields [OF shape] and node = same_shape_node [OF shape]
  have "nodes_ok U (tp_last_accepted_id s) (tp_blocks s')"
    unfolding nodes_ok_def using wf ok node nodes_okD(3-5) [OF topo_invD(4) [OF inv]] by metis
  moreover have "linked U (tp_last_accepted_id s) (tp_blocks s')"
    unfolding linked_def
  proof (intro allI impI conjI)
    fix i n' assume "bt_get (tp_blocks s') i = Some n'"
    from node [OF this] obtain n where
      n: "bt_get (tp_blocks s) i = Some n" "sm_children n' = sm_children n" by blast
    from linkedD(1) [OF topo_invD(5) [OF inv] n(1)] n(2) fields(8)
    show "children_ids n' \<subseteq> dom (bt_get (tp_blocks s'))" by auto
    assume "i \<noteq> tp_last_accepted_id s"
    from linkedD(2) [OF topo_invD(5) [OF inv] n(1) this] obtain pn where
      pn: "bt_get (tp_blocks s) (b_parent (U i)) = Some pn" "i \<in> children_ids pn" by blast
    with fields(8) obtain pn' where pn': "bt_get (tp_blocks s') (b_parent (U i)) = Some pn'" by blast
    from node [OF pn'] pn have "sm_children pn' = sm_children pn" by auto
    with pn pn' show "\<exists>pn. bt_get (tp_blocks s') (b_parent (U i)) = Some pn \<and> i \<in> children_ids pn" by auto
  qed
  moreover have "\<exists>n'. bt_get (tp_blocks s') (tp_last_accepted_id s) = Some n'
      \<and> sm_decided (tp_last_accepted_height s) n'"
  proof -
    from topo_invD(6) [OF inv] obtain n where
      n: "bt_get (tp_blocks s) (tp_last_accepted_id s) = Some n" "sm_decided (tp_last_accepted_height s) n" by blast
    with fields(8) obtain n' where n': "bt_get (tp_blocks s') (tp_last_accepted_id s) = Some n'" by blast
    from node [OF n'] n have "sm_blk n' = sm_blk n" by auto
    with n n' show ?thesis by (auto simp: sm_decided_def)
  qed
  ultimately show ?thesis using topo_invD(1-3) [OF inv] fields by (simp add: topo_inv_def)
qed

lemma topo_inv_modify:
  assumes inv: "topo_inv U s" and f: "\<And>n. sm_blk (f n) = sm_blk n \<and> sm_children (f n) = sm_children n"
    and ok: "\<And>n. bt_get (tp_blocks s) i = Some n \<Longrightarrow> node_ok U i (f n)"
  shows "topo_inv U (modify_block i f s)"
proof (rule topo_inv_shape [OF inv modify_block_shape [of f, OF f]])
  show "bt_wf (tp_blocks (modify_block i f s))"
    using nodes_okD(1) [OF topo_invD(4) [OF inv]] by (simp add: modify_block_def)
qed (use ok nodes_okD(2) [OF topo_invD(4) [OF inv]] in \<open>auto simp: modify_block_get split: if_splits\<close>)

lemma falter_tree_ok: "tree_ok t S \<Longrightarrow> tree_ok (tree_record_unsuccessful_poll t) S"
  by (simp add: tree_ok_def tree_record_unsuccessful_poll_def)

lemma clear_falter_inv:
  assumes inv: "topo_inv U s"
  shows "topo_inv U (clear_falter i fl s)" "same_shape s (clear_falter i fl s)"
proof -
  show "same_shape s (clear_falter i fl s)" by (simp add: clear_falter_def modify_block_shape)
  show "topo_inv U (clear_falter i fl s)"
  proof (cases fl)
    case True
    show ?thesis unfolding clear_falter_def using True
    proof (simp, intro topo_inv_modify [OF inv])
      fix n assume "bt_get (tp_blocks s) i = Some n"
      from nodes_okD(2) [OF topo_invD(4) [OF inv] this]
      show "node_ok U i (n\<lparr>sm_sb := map_option tree_record_unsuccessful_poll (sm_sb n), sm_should_falter := False\<rparr>)"
        using falter_tree_ok by (auto simp: node_ok_def split: option.splits)
    qed simp
  qed (simp add: clear_falter_def inv)
qed

lemma node_ok_falter: "node_ok U i n \<Longrightarrow> node_ok U i (n\<lparr>sm_should_falter := x\<rparr>)"
  by (cases "sm_sb n") (auto simp: node_ok_def)

lemma falter_children_inv:
  assumes inv: "topo_inv U s"
  shows "topo_inv U (falter_children i fl nx s) \<and> same_shape s (falter_children i fl nx s)"
proof -
  define f :: "('u, 'b) topological \<Rightarrow> ava_id \<Rightarrow> ('u, 'b) topological" where
    "f = (\<lambda>s c. if \<not> fl \<and> c = nx then s else modify_block c (\<lambda>n. n\<lparr>sm_should_falter := True\<rparr>) s)"
  have step: "topo_inv U (f s' c) \<and> same_shape s (f s' c)" if "topo_inv U s'" "same_shape s s'" for s' c
  proof -
    have "topo_inv U (modify_block c (\<lambda>n. n\<lparr>sm_should_falter := True\<rparr>) s')"
      by (rule topo_inv_modify [OF that(1)])
        (auto intro: node_ok_falter nodes_okD(2) [OF topo_invD(4) [OF that(1)]])
    moreover have "same_shape s (modify_block c (\<lambda>n. n\<lparr>sm_should_falter := True\<rparr>) s')"
      using same_shape_trans [OF that(2) modify_block_shape] by simp
    ultimately show ?thesis using that by (simp add: f_def)
  qed
  have "topo_inv U (foldl f s cs) \<and> same_shape s (foldl f s cs)" for cs
    by (induction cs rule: rev_induct) (simp_all add: inv step)
  then show ?thesis by (simp add: falter_children_def f_def)
qed

lemma apply_votes_inv:
  assumes inv: "topo_inv U s" and n: "bt_get (tp_blocks s) i = Some n" "sm_sb n = Some t" and bag: "bag_wf votes"
  defines "t' \<equiv> fst (tree_record_poll F t votes)"
  obtains s' where "apply_votes F i votes s = (s', tree_finalized F t', tree_preference F t')"
    "topo_inv U s'" "same_shape s s'" "bt_get (tp_blocks s') i = Some (n\<lparr>sm_sb := Some t'\<rparr>)"
    "\<And>j. j \<noteq> i \<Longrightarrow> bt_get (tp_blocks s') j = bt_get (tp_blocks s) j"
    "tree_preference F t' \<in> children_ids n"
proof -
  let ?f = "\<lambda>n :: ('u, 'b) snowman_block. n\<lparr>sm_sb := Some t'\<rparr>"
  let ?s = "modify_block i ?f s"
  have nok: "node_ok U i n" by (rule nodes_okD(2) [OF topo_invD(4) [OF inv] n(1)])
  from node_okD(4) [OF this n(2)] obtain S where S: "tree_ok t S" "S \<subseteq> children_ids n" by blast
  from tree_poll_post [OF S(1) bag] obtain S' where S': "tree_ok t' S'" "S' \<subseteq> S"
    by (auto simp: t'_def step_post_def)
  have fok: "node_ok U i (?f n)"
    using nok S(2) S' by (auto simp: node_ok_def)
  have "topo_inv U ?s"
    by (rule topo_inv_modify [OF inv]) (use fok n in simp_all)
  moreover have "tree_preference F t' \<in> children_ids n"
    using tree_ok_preference [OF S'(1)] S'(2) S(2) by blast
  ultimately show ?thesis
    using that [of ?s] n by (simp add: apply_votes_def Let_def t'_def modify_block_shape modify_block_get)
qed

end

end
