(* ===== verification/Ava_Topo_Accept.thy ===== *)
theory Ava_Topo_Accept
  imports Ava_Topo_Inv
begin

text \<open>
  Acceptance and rejection. The calls consensus makes to the VM are the log of
  the state; the theory says what a correct log is and shows that accepting the
  preferred child of the last accepted block, with the rejection of the siblings
  and all their descendants, keeps the log correct and the tree invariant.
\<close>

section \<open>Correct logs\<close>

fun accepted :: "vm_call list \<Rightarrow> blk list" where
  "accepted [] = []"
| "accepted (Accept b # log) = b # accepted log"
| "accepted (Reject b # log) = accepted log"
| "accepted (Acceptor i d # log) = accepted log"

fun rejected :: "vm_call list \<Rightarrow> blk list" where
  "rejected [] = []"
| "rejected (Reject b # log) = b # rejected log"
| "rejected (Accept b # log) = rejected log"
| "rejected (Acceptor i d # log) = rejected log"

text \<open>Blocks that follow each other from the id \<open>p\<close> at height \<open>h\<close> on.\<close>

fun parent_chain :: "ava_id \<Rightarrow> nat \<Rightarrow> blk list \<Rightarrow> bool" where
  "parent_chain p h [] \<longleftrightarrow> True"
| "parent_chain p h (b # bs) \<longleftrightarrow> b_parent b = p \<and> b_height b = Suc h \<and> parent_chain (b_id b) (Suc h) bs"

text \<open>Every \<^verbatim>\<open>accept\<close> of a block directly follows the block acceptor's call for it.\<close>

fun acceptor_first :: "vm_call option \<Rightarrow> vm_call list \<Rightarrow> bool" where
  "acceptor_first prev [] \<longleftrightarrow> True"
| "acceptor_first prev (c # log) \<longleftrightarrow>
     (case c of Accept b \<Rightarrow> prev = Some (Acceptor (b_id b) (b_bytes b)) | _ \<Rightarrow> True)
     \<and> acceptor_first (Some c) log"

text \<open>A block is rejected only after its parent was, or after one of its siblings was accepted.\<close>

fun justified :: "blk list \<Rightarrow> blk list \<Rightarrow> vm_call list \<Rightarrow> bool" where
  "justified acc rej [] \<longleftrightarrow> True"
| "justified acc rej (Accept b # log) \<longleftrightarrow> justified (acc @ [b]) rej log"
| "justified acc rej (Acceptor i d # log) \<longleftrightarrow> justified acc rej log"
| "justified acc rej (Reject b # log) \<longleftrightarrow>
     (b_parent b \<in> b_id ` set rej \<or> (\<exists>a \<in> set acc. b_parent a = b_parent b \<and> b_id a \<noteq> b_id b))
     \<and> justified acc (rej @ [b]) log"

definition log_ok :: "(ava_id \<Rightarrow> blk) \<Rightarrow> ava_id \<Rightarrow> vm_call list \<Rightarrow> bool" where
  "log_ok U L0 log \<longleftrightarrow> parent_chain L0 (b_height (U L0)) (accepted log)
     \<and> distinct (map b_id (accepted log @ rejected log))
     \<and> acceptor_first None log \<and> justified [] [] log"

definition log_tip :: "ava_id \<Rightarrow> vm_call list \<Rightarrow> ava_id" where
  "log_tip L0 log = (if accepted log = [] then L0 else b_id (last (accepted log)))"

lemma accepted_append [simp]: "accepted (xs @ ys) = accepted xs @ accepted ys"
  by (induction xs rule: accepted.induct) auto

lemma rejected_append [simp]: "rejected (xs @ ys) = rejected xs @ rejected ys"
  by (induction xs rule: rejected.induct) auto

lemma rejects_log [simp]: "accepted (map Reject bs) = []" "rejected (map Reject bs) = bs"
  by (induction bs) auto

lemma parent_chain_append:
  "parent_chain p h (bs @ [b]) \<longleftrightarrow> parent_chain p h bs
     \<and> b_parent b = (if bs = [] then p else b_id (last bs)) \<and> b_height b = Suc (h + length bs)"
  by (induction p h bs rule: parent_chain.induct) auto

lemma parent_chain_height:
  "parent_chain p h bs \<Longrightarrow> b \<in> set bs \<Longrightarrow> b_height b \<le> h + length bs \<and> (b_height b = h + length bs \<longrightarrow> b = last bs)"
proof (induction bs rule: rev_induct)
  case (snoc a bs)
  then show ?case by (auto simp: parent_chain_append)
qed simp

lemma acceptor_first_append:
  "acceptor_first prev (xs @ [c]) \<longleftrightarrow> acceptor_first prev xs
     \<and> (case c of Accept b \<Rightarrow> (if xs = [] then prev else Some (last xs)) = Some (Acceptor (b_id b) (b_bytes b)) | _ \<Rightarrow> True)"
  by (induction xs arbitrary: prev) (auto split: vm_call.splits)

lemma justified_append:
  "justified acc rej (xs @ ys) \<longleftrightarrow> justified acc rej xs \<and> justified (acc @ accepted xs) (rej @ rejected xs) ys"
  by (induction acc rej xs rule: justified.induct) auto

lemma log_ok_acceptor:
  assumes "log_ok U L0 log"
  shows "log_ok U L0 (log @ [Acceptor i d])"
  using assms by (simp add: log_ok_def acceptor_first_append justified_append)

lemma log_ok_accept:
  assumes "log_ok U L0 log" "b_parent b = log_tip L0 log"
    "b_height b = Suc (b_height (U L0) + length (accepted log))" "b_id b \<notin> b_id ` set (rejected log)"
    "b_id b \<notin> b_id ` set (accepted log)"
  shows "log_ok U L0 (log @ [Acceptor (b_id b) (b_bytes b), Accept b])"
proof -
  have "acceptor_first None (log @ [Acceptor (b_id b) (b_bytes b), Accept b])"
    using assms(1) acceptor_first_append [of None "log @ [Acceptor (b_id b) (b_bytes b)]" "Accept b"]
    by (simp add: log_ok_def acceptor_first_append)
  with assms show ?thesis
    by (auto simp: log_ok_def log_tip_def parent_chain_append justified_append)
qed

definition can_reject :: "vm_call list \<Rightarrow> blk \<Rightarrow> bool" where
  "can_reject log b \<longleftrightarrow> b_parent b \<in> b_id ` set (rejected log)
     \<or> (\<exists>a \<in> set (accepted log). b_parent a = b_parent b \<and> b_id a \<noteq> b_id b)"

lemma log_ok_rejects:
  assumes "log_ok U L0 log" "\<And>b. b \<in> set bs \<Longrightarrow> can_reject log b" "distinct (map b_id bs)"
    "\<And>b. b \<in> set bs \<Longrightarrow> b_id b \<notin> b_id ` set (accepted log) \<union> b_id ` set (rejected log)"
  shows "log_ok U L0 (log @ map Reject bs)"
  using assms(2-4)
proof (induction bs rule: rev_induct)
  case (snoc b bs)
  then have ok: "log_ok U L0 (log @ map Reject bs)" by simp
  moreover have "justified [] [] (log @ map Reject (bs @ [b]))"
    using ok snoc.prems(1) [of b] by (auto simp: log_ok_def justified_append can_reject_def)
  moreover have "acceptor_first None (log @ map Reject (bs @ [b]))"
    using ok acceptor_first_append [of None "log @ map Reject bs" "Reject b"] by (simp add: log_ok_def)
  moreover have "distinct (map b_id (accepted log @ rejected log @ bs @ [b]))"
    using ok snoc.prems by (auto simp: log_ok_def)
  ultimately show ?case by (simp add: log_ok_def)
qed (use assms(1) in simp)

section \<open>Calls to the VM\<close>

definition vm_fails :: "vm \<Rightarrow> top_error \<Rightarrow> bool" where
  "vm_fails vm e \<longleftrightarrow> (\<exists>log c. vm log c = Some e)"

lemma perform_cases:
  obtains "perform vm c s = (s\<lparr>tp_log := tp_log s @ [c]\<rparr>, Inr ())"
  | e where "perform vm c s = (s\<lparr>tp_log := tp_log s @ [c]\<rparr>, Inl e)" "vm_fails vm e"
  by (cases "vm (tp_log s) c") (auto simp: perform_def vm_fails_def)

lemma reject_all_log:
  obtains "reject_all vm s bs = (s\<lparr>tp_log := tp_log s @ map Reject bs\<rparr>, Inr ())"
  | k e where "reject_all vm s bs = (s\<lparr>tp_log := tp_log s @ map Reject (take k bs)\<rparr>, Inl e)" "vm_fails vm e"
proof (induction bs arbitrary: s thesis)
  case Nil
  show ?case by (rule Nil(1)) simp
next
  case (Cons b bs)
  show ?case
  proof (rule perform_cases [of vm "Reject b" s])
    fix e assume "perform vm (Reject b) s = (s\<lparr>tp_log := tp_log s @ [Reject b]\<rparr>, Inl e)" "vm_fails vm e"
    then show ?thesis using Cons.prems(2) [of 1 e] by simp
  next
    let ?s = "s\<lparr>tp_log := tp_log s @ [Reject b]\<rparr>"
    assume p: "perform vm (Reject b) s = (?s, Inr ())"
    show ?thesis
    proof (rule Cons.IH [of ?s])
      assume "reject_all vm ?s bs = (?s\<lparr>tp_log := tp_log ?s @ map Reject bs\<rparr>, Inr ())"
      with p show ?thesis by (intro Cons.prems(1)) simp
    next
      fix k e assume "reject_all vm ?s bs = (?s\<lparr>tp_log := tp_log ?s @ map Reject (take k bs)\<rparr>, Inl e)" "vm_fails vm e"
      with p show ?thesis by (intro Cons.prems(2) [of "Suc k" e]) simp_all
    qed
  qed
qed

section \<open>Transitive rejection\<close>

text \<open>
  The block map while the siblings of the accepted child \<open>pref\<close> of \<open>pid\<close> and their
  descendants are removed: \<open>st\<close> are the rejected nodes that are still in the map.
\<close>

context snow_factory
begin

definition rt_blocks :: "(ava_id \<Rightarrow> blk) \<Rightarrow> ava_id \<Rightarrow> ava_id \<Rightarrow> ('u, 'b) blocks \<Rightarrow> ava_id list \<Rightarrow> bool" where
  "rt_blocks U pid pref bs st \<longleftrightarrow> nodes_ok U pid bs \<and> pid \<in> dom (bt_get bs) \<and> pref \<in> dom (bt_get bs)
     \<and> pref \<noteq> pid \<and> b_parent (U pref) = pid \<and> distinct st
     \<and> (\<forall>i n. bt_get bs i = Some n \<longrightarrow> i \<noteq> pid \<longrightarrow> children_ids n \<subseteq> dom (bt_get bs)
          \<and> b_height (U pid) < b_height (U i)
          \<and> (i \<notin> set st \<longrightarrow> (\<exists>pn. bt_get bs (b_parent (U i)) = Some pn \<and> i \<in> children_ids pn))
          \<and> (b_parent (U i) = pid \<longrightarrow> i = pref \<or> i \<in> set st))
     \<and> (\<forall>q \<in> set st. q \<in> dom (bt_get bs) \<and> q \<noteq> pid \<and> q \<noteq> pref
          \<and> (b_parent (U q) = pid \<or> b_parent (U q) \<notin> dom (bt_get bs)))"

lemma rt_blocksD:
  assumes "rt_blocks U pid pref bs st"
  shows "nodes_ok U pid bs" "pid \<in> dom (bt_get bs)" "pref \<in> dom (bt_get bs)" "pref \<noteq> pid"
    "b_parent (U pref) = pid" "distinct st"
    "bt_get bs i = Some n \<Longrightarrow> i \<noteq> pid \<Longrightarrow> c \<in> children_ids n \<Longrightarrow> c \<in> dom (bt_get bs)"
    "bt_get bs i = Some n \<Longrightarrow> i \<noteq> pid \<Longrightarrow> b_height (U pid) < b_height (U i)"
    "bt_get bs i = Some n \<Longrightarrow> i \<noteq> pid \<Longrightarrow> i \<notin> set st \<Longrightarrow>
       \<exists>pn. bt_get bs (b_parent (U i)) = Some pn \<and> i \<in> children_ids pn"
    "bt_get bs i = Some n \<Longrightarrow> i \<noteq> pid \<Longrightarrow> b_parent (U i) = pid \<Longrightarrow> i = pref \<or> i \<in> set st"
    "q \<in> set st \<Longrightarrow> q \<in> dom (bt_get bs) \<and> q \<noteq> pid \<and> q \<noteq> pref
       \<and> (b_parent (U q) = pid \<or> b_parent (U q) \<notin> dom (bt_get bs))"
  using assms unfolding rt_blocks_def by blast+

lemma nodes_ok_remove: "nodes_ok U r bs \<Longrightarrow> nodes_ok U r (bt_remove i bs)"
  by (auto simp: nodes_ok_def bt_get_remove split: if_splits)

lemma rt_children:
  assumes rt: "rt_blocks U pid pref bs (r # st)" and n: "bt_get bs r = Some n" and c: "c \<in> children_ids n"
  shows "bt_get (sm_children n) c = Some (U c)" "b_id (U c) = c" "b_parent (U c) = r" "blk_ok U (U c)"
    "c \<in> dom (bt_get bs)" "c \<noteq> r" "c \<noteq> pid" "c \<noteq> pref" "c \<notin> set (r # st)"
    "Suc (b_height (U pref)) \<le> b_height (U c)"
proof -
  have r: "r \<noteq> pid" "r \<noteq> pref" using rt_blocksD(11) [OF rt, of r] by auto
  from c obtain b where b: "bt_get (sm_children n) c = Some b" by blast
  from node_okD(2) [OF nodes_okD(2) [OF rt_blocksD(1) [OF rt] n] b] b
  show U: "bt_get (sm_children n) c = Some (U c)" "b_id (U c) = c" "b_parent (U c) = r" "blk_ok U (U c)" by auto
  show dom: "c \<in> dom (bt_get bs)" by (rule rt_blocksD(7) [OF rt n r(1) c])
  have hc: "b_height (U c) = Suc (b_height (U r))" using U by (simp add: blk_ok_def)
  have hr: "b_height (U pid) < b_height (U r)" by (rule rt_blocksD(8) [OF rt n r(1)])
  from hc hr show "c \<noteq> r" "c \<noteq> pid" by auto
  show "c \<noteq> pref" using U(3) rt_blocksD(5) [OF rt] r(1) by auto
  from n have "r \<in> dom (bt_get bs)" by blast
  with rt_blocksD(11) [OF rt, of c] U(3) r(1) show "c \<notin> set (r # st)" by auto
  have "b_height (U pref) = Suc (b_height (U pid))"
    using rt_blocksD(3-5) [OF rt] nodes_okD(4,5) [OF rt_blocksD(1) [OF rt]] blk_ok_id by (metis domD)
  with hc hr show "Suc (b_height (U pref)) \<le> b_height (U c)" by simp
qed

lemma rt_step:
  assumes rt: "rt_blocks U pid pref bs (r # st)" and n: "bt_get bs r = Some n"
  shows "rt_blocks U pid pref (bt_remove r bs) (rev (bt_keys (sm_children n)) @ st)"
proof -
  note ch = rt_children [OF rt n] and D = rt_blocksD [OF rt]
  have r: "r \<noteq> pid" "r \<noteq> pref" "b_parent (U r) = pid \<or> b_parent (U r) \<notin> dom (bt_get bs)"
    using D(11) [of r] by auto
  have wf: "bt_wf bs" using D(1) by (rule nodes_okD(1))
  have get: "bt_get (bt_remove r bs) j = (if j = r then None else bt_get bs j)" for j
    by (simp add: bt_get_remove wf)
  have dom': "dom (bt_get (bt_remove r bs)) = dom (bt_get bs) - {r}" by (auto simp: get split: if_splits)
  have st: "set (rev (bt_keys (sm_children n)) @ st) = children_ids n \<union> set st" by (simp add: dom_map_of_conv_image_fst)
  have dist: "distinct (rev (bt_keys (sm_children n)) @ st)"
    using D(6) ch(9) node_okD(1) [OF nodes_okD(2) [OF D(1) n]] by (auto simp: bt_wf_distinct dom_map_of_conv_image_fst)
  have main: "children_ids m \<subseteq> dom (bt_get (bt_remove r bs)) \<and> b_height (U pid) < b_height (U i)
      \<and> (i \<notin> children_ids n \<union> set st \<longrightarrow>
          (\<exists>pn. bt_get (bt_remove r bs) (b_parent (U i)) = Some pn \<and> i \<in> children_ids pn))
      \<and> (b_parent (U i) = pid \<longrightarrow> i = pref \<or> i \<in> children_ids n \<union> set st)"
    if i: "bt_get (bt_remove r bs) i = Some m" and ne: "i \<noteq> pid" for i m
  proof -
    from i have i': "bt_get bs i = Some m" "i \<noteq> r" by (auto simp: get split: if_splits)
    have "r \<notin> children_ids m"
    proof
      assume "r \<in> children_ids m"
      then have "b_parent (U r) = i"
        using node_okD(2) [OF nodes_okD(2) [OF D(1) i'(1)], of r] by auto
      with r(3) ne i'(1) show False by auto
    qed
    moreover have "\<exists>pn. bt_get (bt_remove r bs) (b_parent (U i)) = Some pn \<and> i \<in> children_ids pn"
      if "i \<notin> children_ids n \<union> set st"
    proof -
      from D(9) [OF i'(1) ne] that i'(2) obtain pn where
        pn: "bt_get bs (b_parent (U i)) = Some pn" "i \<in> children_ids pn" by auto
      with that n have "b_parent (U i) \<noteq> r" by auto
      with pn show ?thesis by (simp add: get)
    qed
    moreover have "children_ids m \<subseteq> dom (bt_get bs)" using D(7) [OF i'(1) ne] by blast
    ultimately show ?thesis using D(8) [OF i'(1) ne] D(10) [OF i'(1) ne] i'(2)
      unfolding dom' by auto
  qed
  have stack: "q \<in> dom (bt_get (bt_remove r bs)) \<and> q \<noteq> pid \<and> q \<noteq> pref
      \<and> (b_parent (U q) = pid \<or> b_parent (U q) \<notin> dom (bt_get (bt_remove r bs)))"
    if "q \<in> children_ids n \<union> set st" for q
  proof (cases "q \<in> children_ids n")
    case True
    then show ?thesis using ch [OF True] unfolding dom' by simp
  next
    case False
    with that D(6) have "q \<in> set st" "q \<noteq> r" by auto
    with D(11) [of q] show ?thesis unfolding dom' by auto
  qed
  show ?thesis
    unfolding rt_blocks_def st using D(1-5) r dist main stack nodes_ok_remove unfolding dom' by blast
qed

end

context snow_factory
begin

definition rt_log :: "(ava_id \<Rightarrow> blk) \<Rightarrow> ava_id \<Rightarrow> ava_id \<Rightarrow> ('u, 'b) blocks \<Rightarrow> ava_id list \<Rightarrow> vm_call list \<Rightarrow> bool" where
  "rt_log U L0 pref bs st lg \<longleftrightarrow> log_ok U L0 lg
     \<and> (\<forall>b \<in> set (rejected lg). \<not> below U pref (b_id b) \<and> (b_id b \<in> dom (bt_get bs) \<longrightarrow> b_id b \<in> set st))
     \<and> set st \<subseteq> b_id ` set (rejected lg)
     \<and> accepted lg \<noteq> [] \<and> b_id (last (accepted lg)) = pref
     \<and> (\<forall>b \<in> set (accepted lg). b_height b \<le> b_height (U pref) \<and> U (b_id b) = b)"

lemma map_snd_children:
  assumes "node_ok U i n"
  shows "map snd (sm_children n) = map U (bt_keys (sm_children n))"
proof -
  have "b = U c" if "(c, b) \<in> set (sm_children n)" for c b
    using that node_okD(1,2) [OF assms] bt_mem_iff by metis
  then show ?thesis by (auto simp: in_set_conv_nth)
qed

lemma rt_log_step:
  assumes rt: "rt_blocks U pid pref bs (r # st)" and lg: "rt_log U L0 pref bs (r # st) lg"
    and n: "bt_get bs r = Some n"
  defines "cs \<equiv> map snd (sm_children n)"
  shows "rt_log U L0 pref (bt_remove r bs) (rev (bt_keys (sm_children n)) @ st) (lg @ map Reject cs)"
    "log_ok U L0 (lg @ map Reject (take k cs))"
proof -
  note ch = rt_children [OF rt n] and D = rt_blocksD [OF rt]
  have nok: "node_ok U r n" by (rule nodes_okD(2) [OF D(1) n])
  have cs: "cs = map U (bt_keys (sm_children n))" unfolding cs_def by (rule map_snd_children [OF nok])
  have keys: "set (bt_keys (sm_children n)) = children_ids n" by (rule bt_keys_dom)
  have "b_id (U (fst x)) = fst x" if "x \<in> set (sm_children n)" for x
    by (rule ch(2)) (use that in \<open>simp add: dom_map_of_conv_image_fst\<close>)
  then have ids: "map b_id cs = bt_keys (sm_children n)" by (simp add: cs)
  have wf: "bt_wf bs" using D(1) by (rule nodes_okD(1))
  have dom': "dom (bt_get (bt_remove r bs)) = dom (bt_get bs) - {r}"
    by (auto simp: bt_get_remove wf split: if_splits)
  from lg have ok: "log_ok U L0 lg"
    and rej: "\<And>b. b \<in> set (rejected lg) \<Longrightarrow> \<not> below U pref (b_id b)"
    and rej_st: "\<And>b. b \<in> set (rejected lg) \<Longrightarrow> b_id b \<in> dom (bt_get bs) \<Longrightarrow> b_id b \<in> set (r # st)"
    and st: "set (r # st) \<subseteq> b_id ` set (rejected lg)"
    and acc: "accepted lg \<noteq> []" "b_id (last (accepted lg)) = pref"
    and accs: "\<And>b. b \<in> set (accepted lg) \<Longrightarrow> b_height b \<le> b_height (U pref) \<and> U (b_id b) = b"
    unfolding rt_log_def by blast+
  have new: "can_reject lg b \<and> b_id b \<notin> b_id ` set (accepted lg) \<union> b_id ` set (rejected lg)
      \<and> \<not> below U pref (b_id b)" if "b \<in> set cs" for b
  proof -
    from that obtain c where c: "c \<in> children_ids n" "b = U c" 
      unfolding cs keys [symmetric] by auto
    note chc = ch [OF c(1)]
    have "b_parent b \<in> b_id ` set (rejected lg)" using st chc(3) c(2) by auto
    moreover have "b_id b \<notin> b_id ` set (accepted lg)"
    proof
      assume "b_id b \<in> b_id ` set (accepted lg)"
      then obtain a where a: "a \<in> set (accepted lg)" "b_id a = c" using c(2) chc(2) by auto
      with accs [OF a(1)] chc(10) show False by auto
    qed
    moreover have "b_id b \<notin> b_id ` set (rejected lg)"
      using rej_st chc(2,5,9) c(2) by auto
    moreover have "\<not> below U pref (b_id b)"
    proof
      assume "below U pref (b_id b)"
      then have "below U pref (b_parent b)" by (rule below_parent) (use chc c(2) in simp_all)
      moreover obtain a where "a \<in> set (rejected lg)" "b_id a = r" using st by auto
      ultimately show False using rej chc(3) c(2) by auto
    qed
    ultimately show ?thesis by (auto simp: can_reject_def)
  qed
  have "log_ok U L0 (lg @ map Reject (take j cs))" for j
  proof (rule log_ok_rejects [OF ok])
    show "distinct (map b_id (take j cs))"
      using node_okD(1) [OF nok] by (simp only: take_map [symmetric] ids distinct_take bt_wf_distinct)
  qed (use new in \<open>auto dest: in_set_takeD\<close>)
  from this [of "length cs"] this [of k] show log: "log_ok U L0 (lg @ map Reject (take k cs))"
    and "rt_log U L0 pref (bt_remove r bs) (rev (bt_keys (sm_children n)) @ st) (lg @ map Reject cs)"
  proof -
    assume ok': "log_ok U L0 (lg @ map Reject (take (length cs) cs))"
    have "b_id b \<in> set st" if "b \<in> set (rejected lg)" "b_id b \<in> dom (bt_get bs) - {r}" for b
      using rej_st [OF that(1)] that(2) by auto
    moreover have "set (bt_keys (sm_children n)) \<subseteq> b_id ` set cs" by (simp only: ids [symmetric] set_map subset_refl)
    moreover have "b_id b \<in> set (bt_keys (sm_children n))" if "b \<in> set cs" for b
      using that by (simp only: ids [symmetric] set_map) blast
    ultimately show "rt_log U L0 pref (bt_remove r bs) (rev (bt_keys (sm_children n)) @ st) (lg @ map Reject cs)"
      unfolding rt_log_def dom' using ok' rej new st acc accs by auto
  qed
qed

lemma reject_transitively_ok:
  assumes "rt_blocks U pid pref (tp_blocks s) st" "rt_log U L0 pref (tp_blocks s) st (tp_log s)"
  obtains bs' lg' where "reject_transitively vm s st = (s\<lparr>tp_blocks := bs', tp_log := lg'\<rparr>, Inr ())"
      "rt_blocks U pid pref bs' []" "rt_log U L0 pref bs' [] lg'"
      "\<And>i n. bt_get bs' i = Some n \<Longrightarrow> bt_get (tp_blocks s) i = Some n"
      "\<And>i. i \<in> dom (bt_get (tp_blocks s)) \<Longrightarrow> i \<notin> dom (bt_get bs') \<Longrightarrow> i \<in> b_id ` set (rejected lg')"
      "\<exists>more. lg' = tp_log s @ map Reject more"
  | s' e where "reject_transitively vm s st = (s', Inl e)" "vm_fails vm e" "log_ok U L0 (tp_log s')"
  using assms
proof (induction vm s st arbitrary: thesis rule: reject_transitively.induct)
  case (1 vm s)
  show ?case
    by (rule "1.prems"(1) [of "tp_log s" "tp_blocks s"]) (use "1.prems" in auto)
next
  case (2 vm s r st)
  note rt = "2.prems"(3) and lg = "2.prems"(4)
  from rt_blocksD(11) [OF rt, of r] obtain n where n: "bt_get (tp_blocks s) r = Some n" by auto
  let ?s1 = "s\<lparr>tp_blocks := bt_remove r (tp_blocks s)\<rparr>" and ?cs = "map snd (sm_children n)"
  let ?st = "rev (bt_keys (sm_children n)) @ st"
  have wf: "bt_wf (tp_blocks s)" by (rule nodes_okD(1) [OF rt_blocksD(1) [OF rt]])
  show ?case
  proof (rule reject_all_log [of vm ?s1 ?cs])
    fix k e assume "reject_all vm ?s1 ?cs = (?s1\<lparr>tp_log := tp_log ?s1 @ map Reject (take k ?cs)\<rparr>, Inl e)" "vm_fails vm e"
    then show ?thesis
      using rt_log_step(2) [OF rt lg n, of k] n by (intro "2.prems"(2)) (auto simp: take_map)
  next
    let ?s2 = "?s1\<lparr>tp_log := tp_log ?s1 @ map Reject ?cs\<rparr>"
    assume ra: "reject_all vm ?s1 ?cs = (?s2, Inr ())"
    have eq: "reject_transitively vm s (r # st) = reject_transitively vm ?s2 ?st" using n ra by simp
    have rt2: "rt_blocks U pid pref (tp_blocks ?s2) ?st" using rt_step [OF rt n] by simp
    have lg2: "rt_log U L0 pref (tp_blocks ?s2) ?st (tp_log ?s2)" using rt_log_step(1) [OF rt lg n] by simp
    show ?thesis
    proof (rule "2.IH"(2) [OF n ra [symmetric] refl _ _ rt2 lg2])
      fix s' e assume "reject_transitively vm ?s2 ?st = (s', Inl e)" "vm_fails vm e" "log_ok U L0 (tp_log s')"
      then show ?thesis using eq "2.prems"(2) by simp
    next
      fix bs' lg'
      assume res: "reject_transitively vm ?s2 ?st = (?s2\<lparr>tp_blocks := bs', tp_log := lg'\<rparr>, Inr ())"
        "rt_blocks U pid pref bs' []" "rt_log U L0 pref bs' [] lg'"
        and keep: "\<And>i n. bt_get bs' i = Some n \<Longrightarrow> bt_get (tp_blocks ?s2) i = Some n"
        and gone: "\<And>i. i \<in> dom (bt_get (tp_blocks ?s2)) \<Longrightarrow> i \<notin> dom (bt_get bs') \<Longrightarrow> i \<in> b_id ` set (rejected lg')"
        and more: "\<exists>more. lg' = tp_log ?s2 @ map Reject more"
      from more obtain ms where ms: "lg' = tp_log s @ map Reject (?cs @ ms)" by auto
      show ?thesis
      proof (rule "2.prems"(1) [of lg' bs'])
        show "reject_transitively vm s (r # st) = (s\<lparr>tp_blocks := bs', tp_log := lg'\<rparr>, Inr ())"
          using eq res(1) by simp
        show "\<exists>more. lg' = tp_log s @ map Reject more" using ms by blast
        show "bt_get (tp_blocks s) i = Some n" if "bt_get bs' i = Some n" for i n
          using keep [OF that] wf by (simp add: bt_get_remove split: if_splits)
        show "i \<in> b_id ` set (rejected lg')" if "i \<in> dom (bt_get (tp_blocks s))" "i \<notin> dom (bt_get bs')" for i
        proof (cases "i = r")
          case True
          with lg ms show ?thesis by (auto simp: rt_log_def)
        next
          case False
          with that(1) wf have "i \<in> dom (bt_get (tp_blocks ?s2))" by (auto simp: bt_get_remove)
          from gone [OF this that(2)] show ?thesis .
        qed
      qed (use res in simp_all)
    qed
  qed
qed

end

section \<open>Accepting the preferred child\<close>

definition log_inv :: "(ava_id \<Rightarrow> blk) \<Rightarrow> ava_id \<Rightarrow> ('u, 'b) topological \<Rightarrow> bool" where
  "log_inv U L0 s \<longleftrightarrow> log_ok U L0 (tp_log s) \<and> log_tip L0 (tp_log s) = tp_last_accepted_id s
     \<and> b_height (U (tp_last_accepted_id s)) = b_height (U L0) + length (accepted (tp_log s))
     \<and> (\<forall>b \<in> set (accepted (tp_log s)). U (b_id b) = b)
     \<and> (\<forall>b \<in> set (rejected (tp_log s)). \<not> below U (tp_last_accepted_id s) (b_id b))"

lemma log_inv_accepted_height:
  assumes "log_inv U L0 s" "b \<in> set (accepted (tp_log s))"
  shows "b_height b \<le> b_height (U (tp_last_accepted_id s))"
  using assms parent_chain_height [of L0 "b_height (U L0)" "accepted (tp_log s)" b]
  by (auto simp: log_inv_def log_ok_def)

lemma log_inv_accept:
  fixes s :: "('u, 'b) topological"
  assumes li: "log_inv U L0 s" and b: "blk_ok U b" "b_parent b = tp_last_accepted_id s"
  shows "log_ok U L0 (tp_log s @ [Acceptor (b_id b) (b_bytes b), Accept b])"
    "b_id b \<notin> b_id ` set (accepted (tp_log s))"
    "below U (tp_last_accepted_id s) (b_id b)"
proof -
  show bl: "below U (tp_last_accepted_id s) (b_id b)" using below_step [OF _ b(1)] b(2) below_refl by metis
  have h: "b_height b = Suc (b_height (U (tp_last_accepted_id s)))" using b by (simp add: blk_ok_def)
  show na: "b_id b \<notin> b_id ` set (accepted (tp_log s))"
  proof
    assume "b_id b \<in> b_id ` set (accepted (tp_log s))"
    then obtain a where a: "a \<in> set (accepted (tp_log s))" "b_id a = b_id b" by auto
    then have "U (b_id b) = a" using li by (auto simp: log_inv_def)
    then have "a = b" using b(1) by (simp add: blk_ok_def)
    with log_inv_accepted_height [OF li a(1)] h show False by simp
  qed
  have "b_id b \<notin> b_id ` set (rejected (tp_log s))" using li bl by (auto simp: log_inv_def)
  with li b h na show "log_ok U L0 (tp_log s @ [Acceptor (b_id b) (b_bytes b), Accept b])"
    by (intro log_ok_accept) (auto simp: log_inv_def)
qed

context snow_factory
begin

lemma rt_start:
  assumes inv: "topo_inv U s" and n: "bt_get (tp_blocks s) (tp_last_accepted_id s) = Some n"
    and pref: "bt_get (sm_children n) pref = Some pb"
  defines "rejects \<equiv> filter (\<lambda>(i, _). i \<noteq> pref) (sm_children n)"
  shows "rt_blocks U (tp_last_accepted_id s) pref (tp_blocks s) (rev (map fst rejects))"
proof -
  let ?L = "tp_last_accepted_id s" and ?bs = "tp_blocks s"
  note nodes = topo_invD(4) [OF inv] and links = topo_invD(5) [OF inv]
  have nok: "node_ok U ?L n" by (rule nodes_okD(2) [OF nodes n])
  have st: "set (rev (map fst rejects)) = children_ids n - {pref}"
    by (auto simp: rejects_def dom_map_of_conv_image_fst image_iff)
  have ch: "b_parent (U c) = ?L \<and> c \<noteq> ?L \<and> c \<in> dom (bt_get ?bs)" if "c \<in> children_ids n" for c
  proof -
    from that obtain b where b: "bt_get (sm_children n) c = Some b" by blast
    from node_okD(2) [OF nok b] have "b = U c" "b_id (U c) = c" "b_parent (U c) = ?L" "blk_ok U (U c)" by auto
    moreover from this blk_ok_id [of U c] have "c \<noteq> ?L" by auto
    ultimately show ?thesis using linkedD(1) [OF links n b] by auto
  qed
  have "pref \<in> children_ids n" using pref by blast
  note chp = ch [OF this]
  have "distinct (map fst rejects)"
    using bt_wf_distinct [OF node_okD(1) [OF nok]] by (simp add: rejects_def distinct_map_filter)
  then have dist: "distinct (rev (map fst rejects))" by simp
  have main: "children_ids m \<subseteq> dom (bt_get ?bs) \<and> b_height (U ?L) < b_height (U i)
      \<and> (\<exists>pn. bt_get ?bs (b_parent (U i)) = Some pn \<and> i \<in> children_ids pn)
      \<and> (b_parent (U i) = ?L \<longrightarrow> i = pref \<or> i \<in> children_ids n - {pref})"
    if i: "bt_get ?bs i = Some m" "i \<noteq> ?L" for i m
  proof -
    from linkedD(2) [OF links i] obtain pn where
      pn: "bt_get ?bs (b_parent (U i)) = Some pn" "i \<in> children_ids pn" by blast
    moreover have "children_ids m \<subseteq> dom (bt_get ?bs)" using linkedD(1) [OF links i(1)] by blast
    moreover have "b_height (U ?L) < b_height (U i)"
      using inv_height [OF inv i] topo_invD(3) [OF inv] by simp
    moreover have "i = pref \<or> i \<in> children_ids n - {pref}" if "b_parent (U i) = ?L"
      using pn n that by auto
    ultimately show ?thesis by blast
  qed
  have stack: "q \<in> dom (bt_get ?bs) \<and> q \<noteq> ?L \<and> q \<noteq> pref
      \<and> (b_parent (U q) = ?L \<or> b_parent (U q) \<notin> dom (bt_get ?bs))"
    if "q \<in> children_ids n - {pref}" for q using ch [of q] that by blast
  have "?L \<in> dom (bt_get ?bs)" using n by blast
  then show ?thesis unfolding rt_blocks_def st using nodes chp dist main stack by blast
qed

lemma rt_finish:
  assumes rt: "rt_blocks U pid pref bs []" and P: "params_ok P" "tp_params s = P"
    and s: "tp_last_accepted_id s = pref" "tp_last_accepted_height s = b_height (U pref)"
      "tp_blocks s = bt_remove pid bs"
  shows "topo_inv U s"
proof -
  note D = rt_blocksD [OF rt]
  have wf: "bt_wf bs" by (rule nodes_okD(1) [OF D(1)])
  have get: "bt_get (bt_remove pid bs) j = (if j = pid then None else bt_get bs j)" for j
    by (simp add: bt_get_remove wf)
  have "nodes_ok U pref (bt_remove pid bs)"
    using D(1) by (auto simp: nodes_ok_def get split: if_splits)
  moreover have "linked U pref (bt_remove pid bs)"
    unfolding linked_def
  proof (intro allI impI conjI subsetI)
    fix i n c assume "bt_get (bt_remove pid bs) i = Some n" and c: "c \<in> children_ids n"
    then have i: "bt_get bs i = Some n" "i \<noteq> pid" by (auto simp: get split: if_splits)
    from c obtain b where b: "bt_get (sm_children n) c = Some b" by blast
    from node_okD(2) [OF nodes_okD(2) [OF D(1) i(1)] b] have "b_height (U c) = Suc (b_height (U i))"
      by (auto simp: blk_ok_def)
    with D(8) [OF i] have "c \<noteq> pid" by auto
    with D(7) [OF i c] show "c \<in> dom (bt_get (bt_remove pid bs))" by (auto simp: get)
  next
    fix i n assume "bt_get (bt_remove pid bs) i = Some n" and ne: "i \<noteq> pref"
    then have i: "bt_get bs i = Some n" "i \<noteq> pid" by (auto simp: get split: if_splits)
    from D(9) [OF i] D(10) [OF i] ne show "\<exists>pn. bt_get (bt_remove pid bs) (b_parent (U i)) = Some pn \<and> i \<in> children_ids pn"
      by (auto simp: get)
  qed
  moreover from D(3,4) nodes_okD(3) [OF D(1)]
  have "\<exists>n. bt_get (bt_remove pid bs) pref = Some n \<and> sm_decided (b_height (U pref)) n"
    by (auto simp: get sm_decided_def)
  ultimately show ?thesis using P by (simp add: topo_inv_def s)
qed

end

context snow_factory
begin

lemma accept_log:
  assumes inv: "topo_inv U s" and li: "log_inv U L0 s"
    and n: "bt_get (tp_blocks s) (tp_last_accepted_id s) = Some n"
    and pref: "bt_get (sm_children n) pref = Some pb"
  defines "rejects \<equiv> filter (\<lambda>(i, _). i \<noteq> pref) (sm_children n)"
    and "lg \<equiv> tp_log s @ [Acceptor pref (b_bytes pb), Accept pb]"
  shows "log_ok U L0 (lg @ map Reject (take k (map snd rejects)))"
    "rt_log U L0 pref (tp_blocks s) (rev (map fst rejects)) (lg @ map Reject (map snd rejects))"
proof -
  let ?L = "tp_last_accepted_id s"
  have nok: "node_ok U ?L n" by (rule nodes_okD(2) [OF topo_invD(4) [OF inv] n])
  have ch: "b = U c \<and> b_id b = c \<and> b_parent b = ?L \<and> blk_ok U b" if "(c, b) \<in> set (sm_children n)" for c b
    using node_okD(2) [OF nok] that bt_mem_iff [OF node_okD(1) [OF nok]] by metis
  have pb: "pb = U pref" "b_id pb = pref" "b_parent pb = ?L" "blk_ok U pb" using node_okD(2) [OF nok pref] by auto
  note acc = log_inv_accept [OF li pb(4,3)]
  have lg: "log_ok U L0 lg" using acc(1) pb(2) by (simp add: lg_def)
  have hp: "b_height (U pref) = Suc (b_height (U ?L))" using pb by (simp add: blk_ok_def)
  have rej: "b_id b \<notin> b_id ` set (accepted lg) \<union> b_id ` set (rejected lg) \<and> can_reject lg b
      \<and> \<not> below U pref (b_id b)" if "b \<in> set (map snd rejects)" for b
  proof -
    from that obtain c where c: "(c, b) \<in> set (sm_children n)" "c \<noteq> pref" by (auto simp: rejects_def)
    note bc = ch [OF c(1)]
    then have "b_parent b = ?L" "blk_ok U b" by auto
    note a = log_inv_accept [OF li this(2,1)]
    have "b_id b \<notin> b_id ` set (rejected (tp_log s))" using li a(3) by (auto simp: log_inv_def)
    moreover have "\<not> below U pref (b_id b)"
    proof
      assume "below U pref (b_id b)"
      from below_height [OF this] bc c(2) hp show False by (auto simp: blk_ok_def)
    qed
    ultimately show ?thesis using a(2) bc c(2) pb by (auto simp: lg_def can_reject_def)
  qed
  have "distinct (map fst rejects)"
    using bt_wf_distinct [OF node_okD(1) [OF nok]] by (simp add: rejects_def distinct_map_filter)
  moreover have ids: "map b_id (map snd rejects) = map fst rejects"
    using ch by (auto simp: rejects_def)
  ultimately have dist: "distinct (map b_id (map snd rejects))" by (simp only:)
  have "log_ok U L0 (lg @ map Reject (take j (map snd rejects)))" for j
  proof (rule log_ok_rejects [OF lg])
    show "distinct (map b_id (take j (map snd rejects)))"
      using dist by (simp only: take_map [symmetric] distinct_take)
  qed (use rej in_set_takeD in \<open>metis+\<close>)
  from this [of "length (map snd rejects)"] this [of k]
  show "log_ok U L0 (lg @ map Reject (take k (map snd rejects)))"
    and "rt_log U L0 pref (tp_blocks s) (rev (map fst rejects)) (lg @ map Reject (map snd rejects))"
  proof -
    assume ok': "log_ok U L0 (lg @ map Reject (take (length (map snd rejects)) (map snd rejects)))"
    have old: "\<not> below U pref (b_id b) \<and> bt_get (tp_blocks s) (b_id b) = None"
      if "b \<in> set (rejected (tp_log s))" for b
    proof -
      have nb: "\<not> below U ?L (b_id b)" using li that by (auto simp: log_inv_def)
      with below_trans [of U pref "b_id b" ?L] acc(3) pb(2) have "\<not> below U pref (b_id b)" by auto
      with nb blocks_below [OF topo_invD(4,5) [OF inv], of "b_id b"] show ?thesis
        by (cases "bt_get (tp_blocks s) (b_id b)") auto
    qed
    have "b_height b \<le> b_height (U pref) \<and> U (b_id b) = b" if "b \<in> set (accepted lg)" for b
      using that log_inv_accepted_height [OF li, of b] li pb hp by (auto simp: lg_def log_inv_def)
    moreover define rs where "rs = map snd rejects"
    moreover have "set (map fst rejects) = b_id ` set rs" unfolding rs_def by (simp only: ids [symmetric] set_map)
    moreover have "log_ok U L0 (lg @ map Reject rs)" using ok' unfolding rs_def by (simp only: take_all order_refl)
    moreover have "\<not> below U pref (b_id b)" if "b \<in> set rs" for b using rej that unfolding rs_def by blast
    ultimately show "rt_log U L0 pref (tp_blocks s) (rev (map fst rejects)) (lg @ map Reject (map snd rejects))"
      unfolding rt_log_def rs_def [symmetric] set_rev using old pb(2) by (auto simp: lg_def)
  qed
qed

lemma accept_step:
  assumes inv: "topo_inv U s" and li: "log_inv U L0 s"
    and n: "bt_get (tp_blocks s) (tp_last_accepted_id s) = Some n" "sm_sb n = Some t"
  defines "pref \<equiv> tree_preference F t"
  obtains bs' lg' s' where "accept_preferred_child vm F s (tp_last_accepted_id s) = (s', Inr ())"
      "s' = s\<lparr>tp_last_accepted_id := pref, tp_last_accepted_height := b_height (U pref),
         tp_preferred_ids := bs_remove pref (tp_preferred_ids s),
         tp_preferred_heights := bt_remove (b_height (U pref)) (tp_preferred_heights s),
         tp_blocks := bs', tp_log := lg'\<rparr>"
      "topo_inv U (s'\<lparr>tp_blocks := bt_remove (tp_last_accepted_id s) bs'\<rparr>)"
      "log_inv U L0 (s'\<lparr>tp_blocks := bt_remove (tp_last_accepted_id s) bs'\<rparr>)"
      "\<And>i m. bt_get bs' i = Some m \<Longrightarrow> bt_get (tp_blocks s) i = Some m"
      "\<And>i. i \<in> dom (bt_get (tp_blocks s)) \<Longrightarrow> below U pref i \<Longrightarrow> i \<in> dom (bt_get bs')" "bt_wf bs'"
  | s' e where "accept_preferred_child vm F s (tp_last_accepted_id s) = (s', Inl e)" "vm_fails vm e"
      "log_ok U L0 (tp_log s')"
proof -
  let ?L = "tp_last_accepted_id s"
  have nok: "node_ok U ?L n" by (rule nodes_okD(2) [OF topo_invD(4) [OF inv] n(1)])
  obtain pb where p: "bt_get (sm_children n) pref = Some pb"
    using node_preference_child [OF nok n(2)] by (auto simp: pref_def)
  have pb: "pb = U pref" "b_id pb = pref" using node_okD(2) [OF nok p] by auto
  define rejects where "rejects = filter (\<lambda>(i, _). i \<noteq> pref) (sm_children n)"
  note lg = accept_log [OF inv li n(1) p, folded rejects_def]
  let ?s1 = "s\<lparr>tp_log := tp_log s @ [Acceptor pref (b_bytes pb)]\<rparr>"
  let ?s2 = "s\<lparr>tp_log := tp_log s @ [Acceptor pref (b_bytes pb), Accept pb]\<rparr>"
  let ?s3 = "?s2\<lparr>tp_last_accepted_id := pref, tp_last_accepted_height := b_height pb,
      tp_preferred_ids := bs_remove pref (tp_preferred_ids s),
      tp_preferred_heights := bt_remove (b_height pb) (tp_preferred_heights s)\<rparr>"
  have ok0: "log_ok U L0 (tp_log s)" using li by (simp add: log_inv_def)
  have unf: "accept_preferred_child vm F s ?L = (case perform vm (Acceptor pref (b_bytes pb)) s of
      (s1, Inl e) \<Rightarrow> (s1, Inl e)
    | (s1, Inr _) \<Rightarrow> (case perform vm (Accept pb) s1 of
        (s2, Inl e) \<Rightarrow> (s2, Inl e)
      | (s2, Inr _) \<Rightarrow>
          (case reject_all vm (s2\<lparr>tp_last_accepted_id := pref, tp_last_accepted_height := b_height pb,
              tp_preferred_ids := bs_remove pref (tp_preferred_ids s2),
              tp_preferred_heights := bt_remove (b_height pb) (tp_preferred_heights s2)\<rparr>) (map snd rejects) of
             (s4, Inl e) \<Rightarrow> (s4, Inl e)
           | (s4, Inr _) \<Rightarrow> reject_transitively vm s4 (rev (map fst rejects)))))"
    unfolding accept_preferred_child_def n option.case pref_def [symmetric] Let_def p rejects_def ..
  show ?thesis
  proof (rule perform_cases [of vm "Acceptor pref (b_bytes pb)" s])
    fix e assume "perform vm (Acceptor pref (b_bytes pb)) s = (?s1, Inl e)" "vm_fails vm e"
    then show ?thesis using unf log_ok_acceptor [OF ok0] by (intro that(2) [of ?s1 e]) simp_all
  next
    assume p1: "perform vm (Acceptor pref (b_bytes pb)) s = (?s1, Inr ())"
    show ?thesis
    proof (rule perform_cases [of vm "Accept pb" ?s1])
      fix e assume "perform vm (Accept pb) ?s1 = (?s1\<lparr>tp_log := tp_log ?s1 @ [Accept pb]\<rparr>, Inl e)" "vm_fails vm e"
      then show ?thesis using unf p1 lg(1) [of 0] by (intro that(2) [of ?s2 e]) simp_all
    next
      assume "perform vm (Accept pb) ?s1 = (?s1\<lparr>tp_log := tp_log ?s1 @ [Accept pb]\<rparr>, Inr ())"
      then have unf2: "accept_preferred_child vm F s ?L = (case reject_all vm ?s3 (map snd rejects) of
             (s4, Inl e) \<Rightarrow> (s4, Inl e)
           | (s4, Inr _) \<Rightarrow> reject_transitively vm s4 (rev (map fst rejects)))"
        using unf p1 by simp
      show ?thesis
      proof (rule reject_all_log [of vm ?s3 "map snd rejects"])
        fix k e assume "reject_all vm ?s3 (map snd rejects)
            = (?s3\<lparr>tp_log := tp_log ?s3 @ map Reject (take k (map snd rejects))\<rparr>, Inl e)" "vm_fails vm e"
        then show ?thesis using unf2 lg(1) [of k]
          by (intro that(2) [of "?s3\<lparr>tp_log := tp_log ?s3 @ map Reject (take k (map snd rejects))\<rparr>" e]) simp_all
      next
        let ?s4 = "?s3\<lparr>tp_log := tp_log ?s3 @ map Reject (map snd rejects)\<rparr>"
        assume "reject_all vm ?s3 (map snd rejects) = (?s4, Inr ())"
        then have unf3: "accept_preferred_child vm F s ?L = reject_transitively vm ?s4 (rev (map fst rejects))"
          using unf2 by simp
        have rt: "rt_blocks U ?L pref (tp_blocks ?s4) (rev (map fst rejects))"
          using rt_start [OF inv n(1) p, folded rejects_def] by simp
        have rl: "rt_log U L0 pref (tp_blocks ?s4) (rev (map fst rejects)) (tp_log ?s4)" using lg(2) by simp
        from rt rl show ?thesis
        proof (rule reject_transitively_ok [of U ?L pref ?s4 "rev (map fst rejects)" L0 vm])
          fix s' e assume "reject_transitively vm ?s4 (rev (map fst rejects)) = (s', Inl e)"
            "vm_fails vm e" "log_ok U L0 (tp_log s')"
          then show ?thesis using unf3 that(2) by simp
        next
          fix lg' and bs' :: "('u, 'b) blocks"
          assume res: "reject_transitively vm ?s4 (rev (map fst rejects))
              = (?s4\<lparr>tp_blocks := bs', tp_log := lg'\<rparr>, Inr ())"
            and fin: "rt_blocks U ?L pref bs' []" "rt_log U L0 pref bs' [] lg'"
            and keep: "\<And>i m. bt_get bs' i = Some m \<Longrightarrow> bt_get (tp_blocks ?s4) i = Some m"
            and gone: "\<And>i. i \<in> dom (bt_get (tp_blocks ?s4)) \<Longrightarrow> i \<notin> dom (bt_get bs') \<Longrightarrow> i \<in> b_id ` set (rejected lg')"
          let ?s' = "?s4\<lparr>tp_blocks := bs', tp_log := lg'\<rparr>"
          have li': "log_inv U L0 (?s'\<lparr>tp_blocks := bt_remove ?L bs'\<rparr>)"
          proof -
            from fin(2) have ok: "log_ok U L0 lg'" "accepted lg' \<noteq> []" "b_id (last (accepted lg')) = pref"
              and rj: "\<forall>b \<in> set (rejected lg'). \<not> below U pref (b_id b)"
              and ac: "\<forall>b \<in> set (accepted lg'). U (b_id b) = b" by (auto simp: rt_log_def)
            from ok(2) obtain xs x where xs: "accepted lg' = xs @ [x]" by (metis rev_exhaust)
            with ok(3) ac have "x = U pref" by auto
            with ok(1) xs have "b_height (U pref) = b_height (U L0) + length (accepted lg')"
              by (simp add: log_ok_def parent_chain_append)
            with ok rj ac show ?thesis by (simp add: log_inv_def log_tip_def)
          qed
          have inv': "topo_inv U (?s'\<lparr>tp_blocks := bt_remove ?L bs'\<rparr>)"
            by (rule rt_finish [OF fin(1) topo_invD(1) [OF inv]]) (use topo_invD(2) [OF inv] pb in simp_all)
          have surv: "i \<in> dom (bt_get bs')" if "i \<in> dom (bt_get (tp_blocks s))" "below U pref i" for i
          proof (rule ccontr)
            assume "i \<notin> dom (bt_get bs')"
            with gone [of i] that(1) have "i \<in> b_id ` set (rejected lg')" by simp
            with fin(2) that(2) show False by (auto simp: rt_log_def)
          qed
          show ?thesis
            by (rule that(1) [of ?s' lg' bs'])
              (use unf3 res pb inv' li' keep surv nodes_okD(1) [OF rt_blocksD(1) [OF fin(1)]] in simp_all)
        qed
      qed
    qed
  qed
qed

end

end
