(* ===== verification/Ava_Topo_Vote.thy ===== *)
theory Ava_Topo_Vote
  imports Ava_Topo_Accept
begin

text \<open>
  The vote loop: one iteration either fails in the VM or keeps the invariants,
  in place when nothing is accepted and on the subtree of the accepted child
  otherwise.
\<close>

section \<open>One iteration\<close>

text \<open>The preferred child of a node.\<close>

definition next_pref :: "('u, 'b) factory \<Rightarrow> ('u, 'b) topological \<Rightarrow> ava_id \<Rightarrow> ava_id option" where
  "next_pref F s i = (case bt_get (tp_blocks s) i of None \<Rightarrow> None
     | Some n \<Rightarrow> map_option (tree_preference F) (sm_sb n))"

text \<open>What an iteration leaves alone when it accepts nothing.\<close>

definition polled :: "('u, 'b) factory \<Rightarrow> ava_id \<Rightarrow> ava_id \<Rightarrow> ('u, 'b) topological \<Rightarrow> ('u, 'b) topological \<Rightarrow> bool" where
  "polled F x p s s' \<longleftrightarrow> same_shape s s' \<and> next_pref F s' x = Some p
     \<and> (\<forall>j. j \<noteq> x \<longrightarrow> next_pref F s' j = next_pref F s j)"

text \<open>What it does when it accepts the child \<open>p\<close> of the last accepted block.\<close>

definition advanced :: "(ava_id \<Rightarrow> blk) \<Rightarrow> ('u, 'b) factory \<Rightarrow> ava_id \<Rightarrow> ('u, 'b) topological \<Rightarrow> ('u, 'b) topological \<Rightarrow> bool" where
  "advanced U F p s s' \<longleftrightarrow> tp_last_accepted_id s' = p \<and> tp_preference s' = tp_preference s
     \<and> tp_preferred_ids s' = bs_remove p (tp_preferred_ids s)
     \<and> tp_preferred_heights s' = bt_remove (b_height (U p)) (tp_preferred_heights s)
     \<and> dom (bt_get (tp_blocks s')) = {i \<in> dom (bt_get (tp_blocks s)). below U p i}
     \<and> (\<forall>i n. bt_get (tp_blocks s') i = Some n \<longrightarrow> (\<exists>m. bt_get (tp_blocks s) i = Some m
          \<and> sm_children n = sm_children m \<and> next_pref F s' i = next_pref F s i))"

lemma next_pref_blocks: "tp_blocks s' = tp_blocks s \<Longrightarrow> next_pref F s' = next_pref F s"
  by (simp add: next_pref_def fun_eq_iff)

lemma next_pref_modify:
  assumes "\<And>n. map_option (tree_preference F) (sm_sb (f n)) = map_option (tree_preference F) (sm_sb n)"
  shows "next_pref F (modify_block i f s) j = next_pref F s j"
  using assms by (simp add: next_pref_def modify_block_get split: option.splits)

lemma next_pref_clear_falter: "next_pref F (clear_falter i fl s) j = next_pref F s j"
  unfolding clear_falter_def
  by (auto simp: next_pref_modify option.map_comp comp_def tree_preference_def tree_record_unsuccessful_poll_def
      cong: map_option_cong)

lemma next_pref_falter_children:
  fixes s :: "('u, 'b) topological"
  shows "next_pref F (falter_children i fl nx s) j = next_pref F s j"
proof -
  define f :: "('u, 'b) topological \<Rightarrow> ava_id \<Rightarrow> ('u, 'b) topological" where
    "f = (\<lambda>s c. if \<not> fl \<and> c = nx then s else modify_block c (\<lambda>n. n\<lparr>sm_should_falter := True\<rparr>) s)"
  have "next_pref F (foldl f s cs) j = next_pref F s j" for cs
    by (induction cs rule: rev_induct) (auto simp: f_def next_pref_modify)
  then show ?thesis by (simp add: falter_children_def f_def)
qed

lemma log_inv_shape: "same_shape s s' \<Longrightarrow> log_inv U L0 s \<Longrightarrow> log_inv U L0 s'"
  using same_shape_fields [of s s'] by (simp add: log_inv_def)

context snow_factory
begin

lemma vote_iter:
  fixes stack :: "votes list"
  assumes inv: "topo_inv U s" and li: "log_inv U L0 s"
    and n: "bt_get (tp_blocks s) (vo_parent_id v) = Some n" "sm_sb n = Some t" and bag: "bag_wf (vo_votes v)"
  defines "x \<equiv> vo_parent_id v" and "nx \<equiv> (case stack of [] \<Rightarrow> id_EMPTY | v' # _ \<Rightarrow> vo_parent_id v')"
  obtains s' p where
    "vote_loop vm F s np ob (v # stack) = vote_loop vm F s' (if ob then p else np) (ob \<and> nx = p) stack"
    "topo_inv U s'" "log_inv U L0 s'" "p \<in> children_ids n"
    "polled F x p s s' \<or> (x = tp_last_accepted_id s \<and> advanced U F p s s')"
  | s' e where "vote_loop vm F s np ob (v # stack) = (s', Inl e)" "vm_fails vm e" "log_ok U L0 (tp_log s')"
proof -
  let ?s0 = "clear_falter x (sm_should_falter n) s"
  have n': "bt_get (tp_blocks s) x = Some n" using n(1) by (simp add: x_def)
  note cf = clear_falter_inv [OF inv, of x "sm_should_falter n"]
  obtain n0 t0 where n0: "bt_get (tp_blocks ?s0) x = Some n0" "sm_sb n0 = Some t0" "sm_children n0 = sm_children n"
    using n' n(2) by (cases "sm_should_falter n") (auto simp: clear_falter_def modify_block_get)
  define t' where "t' = fst (tree_record_poll F t0 (vo_votes v))"
  let ?p = "tree_preference F t'"
  obtain s1 where s1: "apply_votes F x (vo_votes v) ?s0 = (s1, tree_finalized F t', ?p)" "topo_inv U s1"
      "same_shape ?s0 s1" "bt_get (tp_blocks s1) x = Some (n0\<lparr>sm_sb := Some t'\<rparr>)"
      "\<And>j. j \<noteq> x \<Longrightarrow> bt_get (tp_blocks s1) j = bt_get (tp_blocks ?s0) j" "?p \<in> children_ids n0"
    using apply_votes_inv [OF cf(1) n0(1,2) bag] unfolding t'_def by blast
  have shape1: "same_shape s s1" using same_shape_trans [OF cf(2) s1(3)] .
  note fields = same_shape_fields [OF shape1]
  have li1: "log_inv U L0 s1" by (rule log_inv_shape [OF shape1 li])
  have next1: "next_pref F s1 x = Some ?p" "\<And>j. j \<noteq> x \<Longrightarrow> next_pref F s1 j = next_pref F s j"
    using s1(4,5) next_pref_clear_falter [of F x "sm_should_falter n" s]
    by (simp_all add: next_pref_def)
  have pch: "?p \<in> children_ids n" using s1(6) n0(3) by simp
  have unf: "vote_loop vm F s np ob (v # stack) =
     (case (if tree_finalized F t' \<and> tp_last_accepted_id s1 = x then
              (case accept_preferred_child vm F s1 x of
                 (s', Inl e) \<Rightarrow> (s', Inl e)
               | (s', Inr _) \<Rightarrow> (s'\<lparr>tp_blocks := bt_remove x (tp_blocks s')\<rparr>, Inr ()))
            else (s1, Inr ())) of
       (s2, Inl e) \<Rightarrow> (s2, Inl e)
     | (s2, Inr _) \<Rightarrow> vote_loop vm F (falter_children x (sm_should_falter n) nx s2)
         (if ob then ?p else np) (ob \<and> nx = ?p) stack)"
    using n' s1(1) by (simp add: x_def nx_def Let_def split: prod.splits sum.splits)
  show ?thesis
  proof (cases "tree_finalized F t' \<and> tp_last_accepted_id s1 = x")
    case False
    let ?s = "falter_children x (sm_should_falter n) nx s1"
    note fc = falter_children_inv [OF s1(2), of x "sm_should_falter n" nx]
    have "polled F x ?p s ?s"
      using same_shape_trans [OF shape1] fc next1 by (simp add: polled_def next_pref_falter_children)
    moreover have "vote_loop vm F s np ob (v # stack) = vote_loop vm F ?s (if ob then ?p else np) (ob \<and> nx = ?p) stack"
      using unf False by auto
    ultimately show ?thesis using that(1) [of ?s ?p] fc pch log_inv_shape li1 by blast
  next
    case True
    then have x: "x = tp_last_accepted_id s1" by simp
    have n1: "bt_get (tp_blocks s1) (tp_last_accepted_id s1) = Some (n0\<lparr>sm_sb := Some t'\<rparr>)"
      "sm_sb (n0\<lparr>sm_sb := Some t'\<rparr>) = Some t'" using s1(4) x by simp_all
    show ?thesis
    proof (rule accept_step [OF s1(2) li1 n1, of vm])
      fix s' e assume e: "accept_preferred_child vm F s1 (tp_last_accepted_id s1) = (s', Inl e)"
        "vm_fails vm e" "log_ok U L0 (tp_log s')"
      from e(1) have "accept_preferred_child vm F s1 x = (s', Inl e)" unfolding x .
      with unf True have "vote_loop vm F s np ob (v # stack) = (s', Inl e)" by simp
      then show ?thesis using e(2,3) by (rule that(2))
    next
      fix s2 lg' and bs' :: "('u, 'b) blocks"
      assume acc: "accept_preferred_child vm F s1 (tp_last_accepted_id s1) = (s2, Inr ())"
        and s2: "s2 = s1\<lparr>tp_last_accepted_id := ?p, tp_last_accepted_height := b_height (U ?p),
         tp_preferred_ids := bs_remove ?p (tp_preferred_ids s1),
         tp_preferred_heights := bt_remove (b_height (U ?p)) (tp_preferred_heights s1),
         tp_blocks := bs', tp_log := lg'\<rparr>"
        and inv2: "topo_inv U (s2\<lparr>tp_blocks := bt_remove (tp_last_accepted_id s1) bs'\<rparr>)"
          "log_inv U L0 (s2\<lparr>tp_blocks := bt_remove (tp_last_accepted_id s1) bs'\<rparr>)"
        and wf: "bt_wf bs'" and keep: "\<And>i m. bt_get bs' i = Some m \<Longrightarrow> bt_get (tp_blocks s1) i = Some m"
        and surv: "\<And>i. i \<in> dom (bt_get (tp_blocks s1)) \<Longrightarrow> below U ?p i \<Longrightarrow> i \<in> dom (bt_get bs')"
      define s3 where "s3 = s2\<lparr>tp_blocks := bt_remove x bs'\<rparr>"
      have inv3: "topo_inv U s3" "log_inv U L0 s3" using inv2 unfolding x [symmetric] s3_def .
      have L3: "tp_last_accepted_id s3 = ?p" by (simp add: s3_def s2)
      have hp: "b_height (U ?p) = Suc (b_height (U x))"
        using nodes_okD(2) [OF topo_invD(4) [OF inv] n'] pch node_okD(2) by (fastforce simp: blk_ok_def)
      have nbx: "\<not> below U ?p x" using below_height [of U ?p x] hp by auto
      have get3: "bt_get (tp_blocks s3) i = (if i = x then None else bt_get bs' i)" for i
        by (simp add: s3_def bt_get_remove wf)
      have "dom (bt_get (tp_blocks s3)) = {i \<in> dom (bt_get (tp_blocks s)). below U ?p i}"
      proof (intro equalityI subsetI CollectI conjI)
        fix i assume "i \<in> dom (bt_get (tp_blocks s3))"
        then obtain m where m: "bt_get (tp_blocks s3) i = Some m" by blast
        show "below U ?p i" using blocks_below [OF topo_invD(4,5) [OF inv3(1)] m] L3 by simp
        from m keep [of i m] show "i \<in> dom (bt_get (tp_blocks s))"
          unfolding fields(8) [symmetric] by (auto simp: get3 split: if_splits)
      next
        fix i assume i: "i \<in> {i \<in> dom (bt_get (tp_blocks s)). below U ?p i}"
        then have "i \<in> dom (bt_get bs')" using surv [of i] unfolding fields(8) by blast
        moreover have "i \<noteq> x" using i nbx by blast
        ultimately show "i \<in> dom (bt_get (tp_blocks s3))" by (auto simp: get3)
      qed
      moreover have "\<exists>m. bt_get (tp_blocks s) i = Some m \<and> sm_children k = sm_children m
          \<and> next_pref F s3 i = next_pref F s i" if "bt_get (tp_blocks s3) i = Some k" for i k
      proof -
        from that have ix: "i \<noteq> x" and k: "bt_get (tp_blocks s1) i = Some k"
          using keep [of i k] by (auto simp: get3 split: if_splits)
        have "next_pref F s3 i = next_pref F s1 i" using that k by (simp add: next_pref_def)
        with next1(2) [OF ix] same_shape_node [OF shape1 k] show ?thesis by auto
      qed
      ultimately have adv: "advanced U F ?p s s3"
        using fields by (auto simp: advanced_def s3_def s2)
      have "falter_children x (sm_should_falter n) nx s3 = s3"
        using get3 [of x] by (simp add: falter_children_def)
      then have "vote_loop vm F s np ob (v # stack) = vote_loop vm F s3 (if ob then ?p else np) (ob \<and> nx = ?p) stack"
        using unf True acc [folded x] by (simp add: s3_def s2)
      then show ?thesis using that(1) [of s3 ?p] inv3 adv pch x fields(1) by blast
    qed
  qed
qed

end

section \<open>The whole loop\<close>

text \<open>Vote stacks whose nodes, as far as they are in the map, have a snowball instance.\<close>

definition stack_ok :: "('u, 'b) factory \<Rightarrow> ('u, 'b) topological \<Rightarrow> votes list \<Rightarrow> bool" where
  "stack_ok F s stack \<longleftrightarrow> (\<forall>v \<in> set stack. bag_wf (vo_votes v)
     \<and> (bt_get (tp_blocks s) (vo_parent_id v) \<noteq> None \<longrightarrow> next_pref F s (vo_parent_id v) \<noteq> None))"

lemma stack_ok_iter:
  assumes "stack_ok F s stack" "polled F x p s s' \<or> (x = tp_last_accepted_id s \<and> advanced U F p s s')"
  shows "stack_ok F s' stack"
  unfolding stack_ok_def
proof (intro ballI conjI impI)
  fix v assume v: "v \<in> set stack"
  then show "bag_wf (vo_votes v)" using assms(1) by (simp add: stack_ok_def)
  let ?j = "vo_parent_id v"
  assume "bt_get (tp_blocks s') ?j \<noteq> None"
  then obtain n' where n': "bt_get (tp_blocks s') ?j = Some n'" by blast
  from assms(2) show "next_pref F s' ?j \<noteq> None"
  proof
    assume pl: "polled F x p s s'"
    then have "same_shape s s'" by (simp add: polled_def)
    from same_shape_node [OF this n'] have "bt_get (tp_blocks s) ?j \<noteq> None" by auto
    with assms(1) v have "next_pref F s ?j \<noteq> None" by (simp add: stack_ok_def)
    with pl show ?thesis by (cases "?j = x") (auto simp: polled_def)
  next
    assume "x = tp_last_accepted_id s \<and> advanced U F p s s'"
    then have "\<exists>m. bt_get (tp_blocks s) ?j = Some m \<and> next_pref F s' ?j = next_pref F s ?j"
      using n' unfolding advanced_def by blast
    with assms(1) v show ?thesis by (auto simp: stack_ok_def)
  qed
qed

context snow_factory
begin

lemma vote_loop_inv:
  assumes "topo_inv U s" "log_inv U L0 s" "stack_ok F s stack"
  obtains s' p where "vote_loop vm F s np ob stack = (s', Inr p)" "topo_inv U s'" "log_inv U L0 s'"
  | s' e where "vote_loop vm F s np ob stack = (s', Inl e)" "vm_fails vm e" "log_ok U L0 (tp_log s')"
  using assms
proof (induction stack arbitrary: s np ob thesis)
  case Nil
  show ?case by (rule Nil.prems(1)) (use Nil.prems in simp_all)
next
  case (Cons v stack)
  show ?case
  proof (cases "bt_get (tp_blocks s) (vo_parent_id v)")
    case None
    then show ?thesis using Cons.prems(1) [of s np] Cons.prems(3,4) by simp
  next
    case (Some n)
    with Cons.prems(5) obtain t where t: "sm_sb n = Some t" and bag: "bag_wf (vo_votes v)"
      by (auto simp: stack_ok_def next_pref_def)
    show ?thesis
    proof (rule vote_iter [OF Cons.prems(3,4) Some t bag, of vm np ob stack])
      fix s' e assume "vote_loop vm F s np ob (v # stack) = (s', Inl e)" "vm_fails vm e" "log_ok U L0 (tp_log s')"
      then show ?thesis by (rule Cons.prems(2))
    next
      fix s' p assume it: "vote_loop vm F s np ob (v # stack)
          = vote_loop vm F s' (if ob then p else np) (ob \<and> (case stack of [] \<Rightarrow> id_EMPTY | v' # _ \<Rightarrow> vo_parent_id v') = p) stack"
        "topo_inv U s'" "log_inv U L0 s'"
        and step: "polled F (vo_parent_id v) p s s'
          \<or> (vo_parent_id v = tp_last_accepted_id s \<and> advanced U F p s s')"
      have ok: "stack_ok F s' stack"
        using stack_ok_iter [OF _ step, of stack] Cons.prems(5) by (simp add: stack_ok_def)
      show ?thesis
        by (rule Cons.IH [OF _ _ it(2,3) ok]) (use it(1) Cons.prems(1,2) in simp_all)
    qed
  qed
qed

end

section \<open>Vote stacks\<close>

context snow_factory
begin

lemma parent_next_pref:
  assumes inv: "topo_inv U s" and n: "bt_get (tp_blocks s) i = Some n" and nd: "\<not> sm_decided (tp_last_accepted_height s) n"
    and b: "sm_blk n = Some b"
  shows "next_pref F s (b_parent b) \<noteq> None"
proof -
  have ne: "i \<noteq> tp_last_accepted_id s" using inv_decided [OF inv n] nd by blast
  then have bU: "b = U i" using nodes_okD(3) [OF topo_invD(4) [OF inv] n] b by simp
  from linkedD(2) [OF topo_invD(5) [OF inv] n ne] obtain pn where
    pn: "bt_get (tp_blocks s) (b_parent (U i)) = Some pn" "i \<in> children_ids pn" by blast
  then have "sm_children pn \<noteq> []" by auto
  then have "sm_sb pn \<noteq> None" using node_okD(3) [OF nodes_okD(2) [OF topo_invD(4) [OF inv] pn(1)]] by blast
  with pn(1) bU show ?thesis by (auto simp: next_pref_def)
qed

definition kahn_nodes_ok :: "('u, 'b) topological \<Rightarrow> (ava_id, kahn_node) btree \<Rightarrow> bool" where
  "kahn_nodes_ok s kn \<longleftrightarrow> (\<forall>i k. bt_get kn i = Some k \<longrightarrow> bag_wf (kn_votes k) \<and> next_pref F s i \<noteq> None)"

lemma kahn_nodes_ok_insert:
  "kahn_nodes_ok s kn \<Longrightarrow> bag_wf (kn_votes k) \<Longrightarrow> next_pref F s i \<noteq> None \<Longrightarrow> kahn_nodes_ok s (bt_insert i k kn)"
  by (auto simp: kahn_nodes_ok_def map_simps split: if_splits)

lemma kahn_entry_wf: "kahn_nodes_ok s kn \<Longrightarrow> bag_wf (kn_votes (kahn_entry kn i))"
  by (auto simp: kahn_nodes_ok_def kahn_entry_def kahn_default_def split: option.splits)

lemma kahn_walk_ok:
  assumes inv: "topo_inv U s"
  shows "kahn_nodes_ok s kn \<Longrightarrow>
    kahn_nodes_ok s (fst (kahn_walk (tp_last_accepted_height s) (tp_blocks s) pid (kn, leaves)))"
proof (induction "tp_last_accepted_height s" "tp_blocks s" pid "(kn, leaves)" arbitrary: kn leaves rule: kahn_walk.induct)
  case (1 pid kn leaves)
  show ?case
  proof (cases "bt_get (tp_blocks s) pid")
    case (Some n)
    show ?thesis
    proof (cases "sm_decided (tp_last_accepted_height s) n \<or> sm_blk n = None")
      case False
      then obtain b where b: "sm_blk n = Some b" "\<not> sm_decided (tp_last_accepted_height s) n" by auto
      let ?k = "(kahn_entry kn (b_parent b))\<lparr>kn_in_degree := sat_add_i64 (kn_in_degree (kahn_entry kn (b_parent b))) 1\<rparr>"
      have ok: "kahn_nodes_ok s (bt_insert (b_parent b) ?k kn)"
        by (rule kahn_nodes_ok_insert [OF "1.prems"])
          (use kahn_entry_wf [OF "1.prems"] parent_next_pref [OF inv Some b(2,1)] in simp_all)
      then show ?thesis
        using "1.hyps" [OF Some b(2,1) refl refl] Some b by (simp add: Let_def)
    qed (use 1 Some in \<open>auto split: option.splits\<close>)
  qed (use 1 in simp)
qed

end

context snow_factory
begin

lemma kahn_vote_ok:
  assumes inv: "topo_inv U s" and ok: "kahn_nodes_ok s (fst st)"
  shows "kahn_nodes_ok s (fst (kahn_vote (tp_last_accepted_height s) (tp_blocks s) votes st vote))"
proof (cases "bt_get (tp_blocks s) vote")
  case (Some n)
  show ?thesis
  proof (cases "sm_decided (tp_last_accepted_height s) n \<or> sm_blk n = None")
    case False
    then obtain b where b: "sm_blk n = Some b" "\<not> sm_decided (tp_last_accepted_height s) n" by auto
    let ?e = "kahn_entry (fst st) (b_parent b)"
    let ?k = "?e\<lparr>kn_votes := bag_add_count vote (bag_count votes vote) (kn_votes ?e)\<rparr>"
    have "kahn_nodes_ok s (bt_insert (b_parent b) ?k (fst st))"
      by (rule kahn_nodes_ok_insert [OF ok])
        (use kahn_entry_wf [OF ok] parent_next_pref [OF inv Some b(2,1)] in \<open>simp_all add: bag_wf_add_count\<close>)
    then show ?thesis
      using kahn_walk_ok [OF inv] Some b by (simp add: kahn_vote_def Let_def)
  qed (use ok Some in \<open>auto simp: kahn_vote_def\<close>)
qed (use ok in \<open>simp add: kahn_vote_def\<close>)

lemma calculate_in_degree_ok:
  assumes inv: "topo_inv U s"
  shows "kahn_nodes_ok s (fst (calculate_in_degree s votes))"
proof -
  have "kahn_nodes_ok s (fst (foldl (kahn_vote (tp_last_accepted_height s) (tp_blocks s) votes) ([], []) vs))" for vs
    by (induction vs rule: rev_induct) (simp_all add: kahn_vote_ok [OF inv], simp add: kahn_nodes_ok_def)
  then show ?thesis by (simp add: calculate_in_degree_def)
qed

lemma push_step_ok:
  assumes inv: "topo_inv U s" and ok: "kahn_nodes_ok s kn" "stack_ok F s stack"
    and res: "push_step s i ((kn, leaves), stack) = ((kn', leaves'), stack')"
  shows "kahn_nodes_ok s kn' \<and> stack_ok F s stack'"
proof -
  define vl where "vl = (case bt_get kn i of None \<Rightarrow> 0 | Some k \<Rightarrow> bag_len (kn_votes k))"
  obtain kn1 stack1 where st1:
    "(if vl \<ge> p_alpha_preference (tp_params s) then
        (case bt_get kn i of
           None \<Rightarrow> (kn, stack)
         | Some k \<Rightarrow> (bt_insert i (k\<lparr>kn_votes := bag_new\<rparr>) kn,
                      \<lparr>vo_parent_id = i, vo_votes = kn_votes k\<rparr> # stack))
      else (kn, stack)) = (kn1, stack1)" by fastforce
  have ok1: "kahn_nodes_ok s kn1" "stack_ok F s stack1"
    using st1 ok by (auto simp: kahn_nodes_ok_def stack_ok_def map_simps split: if_splits option.splits)
  note def = res [unfolded push_step_def Let_def prod.case, folded vl_def, unfolded st1 prod.case]
  show ?thesis
  proof (cases "bt_get (tp_blocks s) i")
    case (Some n)
    show ?thesis
    proof (cases "sm_decided (tp_last_accepted_height s) n \<or> sm_blk n = None")
      case True
      with Some def ok1 show ?thesis by (auto split: option.splits)
    next
      case False
      then obtain b where b: "sm_blk n = Some b" "\<not> sm_decided (tp_last_accepted_height s) n" by auto
      let ?e = "kahn_entry kn1 (b_parent b)"
      let ?k = "?e\<lparr>kn_in_degree := sat_sub_i64 (kn_in_degree ?e) 1, kn_votes := bag_add_count i vl (kn_votes ?e)\<rparr>"
      have "kahn_nodes_ok s (bt_insert (b_parent b) ?k kn1)"
        by (rule kahn_nodes_ok_insert [OF ok1(1)])
          (use kahn_entry_wf [OF ok1(1)] parent_next_pref [OF inv Some b(2,1)] in \<open>simp_all add: bag_wf_add_count\<close>)
      with Some b def ok1 show ?thesis by auto
    qed
  qed (use def ok1 in simp)
qed

lemma push_votes_ok:
  "topo_inv U s \<Longrightarrow> kahn_nodes_ok s kn \<Longrightarrow> stack_ok F s stack \<Longrightarrow>
     stack_ok F s (push_votes s ((kn, leaves), stack))"
proof (induction s "((kn, leaves), stack)" arbitrary: kn leaves stack rule: push_votes.induct)
  case (2 s kn i leaves stack)
  obtain kn' leaves' stack' where
    eq: "push_step s i ((kn, bs_remove i (i # leaves)), stack) = ((kn', leaves'), stack')" by (metis surj_pair)
  from push_step_ok [OF "2.prems" eq] have ok: "kahn_nodes_ok s kn'" "stack_ok F s stack'" by auto
  from "2.hyps" [OF eq "2.prems"(1) ok] eq show ?case by simp
qed simp

section \<open>The preferred branch\<close>

text \<open>
  The walk to the ancestors collects the branch of processing blocks that ends
  in its start, and their heights.
\<close>

definition branch :: "(ava_id \<Rightarrow> blk) \<Rightarrow> ('u, 'b) topological \<Rightarrow> ava_id \<Rightarrow> ava_id set" where
  "branch U s c = {i. i \<noteq> tp_last_accepted_id s \<and> bt_get (tp_blocks s) i \<noteq> None \<and> below U i c}"

lemma branch_root:
  assumes inv: "topo_inv U s"
  shows "branch U s (tp_last_accepted_id s) = {}"
proof -
  { fix i n assume i: "i \<noteq> tp_last_accepted_id s" "bt_get (tp_blocks s) i = Some n" "below U i (tp_last_accepted_id s)"
    from inv_height [OF inv i(2,1)] below_height [OF i(3)] topo_invD(3) [OF inv] i(1) have False by auto }
  then show ?thesis by (auto simp: branch_def)
qed

lemma branch_step:
  assumes inv: "topo_inv U s" and n: "bt_get (tp_blocks s) c = Some n" and ne: "c \<noteq> tp_last_accepted_id s"
  shows "branch U s c = insert c (branch U s (b_parent (U c)))"
proof -
  have c: "b_id (U c) = c" "blk_ok U (U c)" using nodes_okD(4,5) [OF topo_invD(4) [OF inv] n ne] by auto
  have "below U i c \<longleftrightarrow> i = c \<or> below U i (b_parent (U c))" for i
    using below_step [OF _ c(2), of i] below_parent [of U i "U c"] c below_refl by auto
  with n ne show ?thesis by (auto simp: branch_def)
qed

lemma branch_height:
  assumes inv: "topo_inv U s" and "i \<in> branch U s (b_parent (U c))" "bt_get (tp_blocks s) c = Some n"
    "c \<noteq> tp_last_accepted_id s"
  shows "b_height (U i) < b_height (U c)"
proof -
  have c: "b_height (U c) = Suc (b_height (U (b_parent (U c))))"
    using nodes_okD(4,5) [OF topo_invD(4) [OF inv] assms(3,4)] by (intro blk_ok_id) auto
  with below_height [of U i "b_parent (U c)"] assms(2) show ?thesis by (auto simp: branch_def)
qed

end

context snow_factory
begin

lemma walk_ancestors_eq:
  assumes inv: "topo_inv U s"
  shows "bt_get (tp_blocks s) c = Some n \<Longrightarrow> \<exists>ids' hs'.
    walk_ancestors (tp_last_accepted_height s) (tp_blocks s) c ids hs = Some (ids', hs')
    \<and> set ids' = set ids \<union> branch U s c
    \<and> (\<forall>h i. bt_get hs' h = Some i \<longleftrightarrow> (i \<in> branch U s c \<and> b_height (U i) = h)
         \<or> (bt_get hs h = Some i \<and> (\<forall>j \<in> branch U s c. b_height (U j) \<noteq> h)))"
proof (induction "b_height (U c)" arbitrary: c n ids hs rule: less_induct)
  case less
  show ?case
  proof (cases "c = tp_last_accepted_id s")
    case True
    with less.prems inv_decided [OF inv less.prems] branch_root [OF inv] show ?thesis
      by (subst walk_ancestors.simps) simp
  next
    case False
    have b: "sm_blk n = Some (U c)" "b_id (U c) = c" "blk_ok U (U c)"
      using nodes_okD(3-5) [OF topo_invD(4) [OF inv] less.prems False] by auto
    have nd: "\<not> sm_decided (tp_last_accepted_height s) n" using inv_decided [OF inv less.prems] False by simp
    from linkedD(2) [OF topo_invD(5) [OF inv] less.prems False] obtain pn where
      pn: "bt_get (tp_blocks s) (b_parent (U c)) = Some pn" by blast
    have h: "b_height (U (b_parent (U c))) < b_height (U c)" using blk_ok_id [OF b(3,2)] by simp
    let ?ids = "bs_insert c ids" and ?hs = "bt_insert (b_height (U c)) c hs"
    have unf: "walk_ancestors (tp_last_accepted_height s) (tp_blocks s) c ids hs
        = walk_ancestors (tp_last_accepted_height s) (tp_blocks s) (b_parent (U c)) ?ids ?hs"
      by (subst walk_ancestors.simps) (simp add: less.prems nd b)
    from less.hyps [OF h pn, of ?ids ?hs] obtain ids' hs' where
      IH: "walk_ancestors (tp_last_accepted_height s) (tp_blocks s) (b_parent (U c)) ?ids ?hs = Some (ids', hs')"
        "set ids' = set ?ids \<union> branch U s (b_parent (U c))"
      and hs': "\<forall>h i. bt_get hs' h = Some i \<longleftrightarrow> (i \<in> branch U s (b_parent (U c)) \<and> b_height (U i) = h)
         \<or> (bt_get ?hs h = Some i \<and> (\<forall>j \<in> branch U s (b_parent (U c)). b_height (U j) \<noteq> h))" by blast
    have lt: "\<forall>j \<in> branch U s (b_parent (U c)). b_height (U j) \<noteq> b_height (U c)"
      using branch_height [OF inv _ less.prems False] by fastforce
    have "bt_get hs' h = Some i \<longleftrightarrow> (i \<in> branch U s c \<and> b_height (U i) = h)
         \<or> (bt_get hs h = Some i \<and> (\<forall>j \<in> branch U s c. b_height (U j) \<noteq> h))" for h i
      unfolding hs' [rule_format] branch_step [OF inv less.prems False]
      using lt by (cases "h = b_height (U c)") (auto simp: map_simps)
    with unf IH branch_step [OF inv less.prems False] show ?thesis by simp
  qed
qed

text \<open>The walk down follows the preferred children to a leaf.\<close>

abbreviation prefers :: "('u, 'b) topological \<Rightarrow> ava_id \<Rightarrow> ava_id \<Rightarrow> bool" where
  "prefers s i j \<equiv> next_pref F s i = Some j"

lemma next_pref_node:
  assumes inv: "topo_inv U s" and "prefers s i j"
  shows "\<exists>n m. bt_get (tp_blocks s) i = Some n \<and> bt_get (tp_blocks s) j = Some m \<and> j \<in> children_ids n"
    "b_id (U j) = j" "b_parent (U j) = i" "blk_ok U (U j)" "b_height (U j) = Suc (b_height (U i))"
    "j \<noteq> tp_last_accepted_id s" "below U i j"
proof -
  from assms(2) obtain n t where n: "bt_get (tp_blocks s) i = Some n" "sm_sb n = Some t" "tree_preference F t = j"
    by (auto simp: next_pref_def split: option.splits)
  have nok: "node_ok U i n" by (rule nodes_okD(2) [OF topo_invD(4) [OF inv] n(1)])
  from node_preference_child [OF nok n(2)] n(3) obtain b where b: "bt_get (sm_children n) j = Some b" by auto
  from node_okD(2) [OF nok b] show U: "b_id (U j) = j" "b_parent (U j) = i" "blk_ok U (U j)" by auto
  then show h: "b_height (U j) = Suc (b_height (U i))" by (simp add: blk_ok_def)
  from linkedD(1) [OF topo_invD(5) [OF inv] n(1) b] n(1) b
  show "\<exists>n m. bt_get (tp_blocks s) i = Some n \<and> bt_get (tp_blocks s) j = Some m \<and> j \<in> children_ids n" by blast
  have "b_height (U (tp_last_accepted_id s)) \<le> b_height (U i)"
    using inv_height [OF inv n(1)] topo_invD(3) [OF inv] by (cases "i = tp_last_accepted_id s") auto
  with h show "j \<noteq> tp_last_accepted_id s" by auto
  show "below U i j" using below_step [OF _ U(3), of i] U below_refl by metis
qed

lemma walk_preferred_eq:
  assumes inv: "topo_inv U s"
  shows "bt_get (tp_blocks s) c = Some n \<Longrightarrow> \<exists>leaf ids' hs'.
    walk_preferred F (tp_blocks s) c c ids hs = Some (leaf, ids', hs')
    \<and> (prefers s)\<^sup>*\<^sup>* c leaf \<and> next_pref F s leaf = None
    \<and> set ids' = set ids \<union> {i. (prefers s)\<^sup>+\<^sup>+ c i}
    \<and> (\<forall>h i. bt_get hs' h = Some i \<longleftrightarrow> ((prefers s)\<^sup>+\<^sup>+ c i \<and> b_height (U i) = h)
         \<or> (bt_get hs h = Some i \<and> (\<forall>j. (prefers s)\<^sup>+\<^sup>+ c j \<longrightarrow> b_height (U j) \<noteq> h)))"
proof -
  let ?dom = "dom (bt_get (tp_blocks s))"
  define mx where "mx = Max ((\<lambda>i. b_height (U i)) ` ?dom)"
  have fin: "finite ?dom" by (simp add: finite_dom_map_of)
  show "bt_get (tp_blocks s) c = Some n \<Longrightarrow> ?thesis"
  proof (induction "mx - b_height (U c)" arbitrary: c n ids hs rule: less_induct)
    case less
    have step: "(prefers s)\<^sup>+\<^sup>+ c i \<longleftrightarrow> (\<exists>j. prefers s c j \<and> (i = j \<or> (prefers s)\<^sup>+\<^sup>+ j i))" for i
      by (auto intro: tranclp_into_tranclp2 dest: tranclpD rtranclpD)
    show ?case
    proof (cases "next_pref F s c")
      case None
      then have "sm_sb n = None" using less.prems by (simp add: next_pref_def)
      then have "walk_preferred F (tp_blocks s) c c ids hs = Some (c, ids, hs)"
        by (subst walk_preferred.simps) (simp add: less.prems)
      moreover have "\<not> (prefers s)\<^sup>+\<^sup>+ c i" for i using None step by simp
      ultimately show ?thesis using None by auto
    next
      case (Some j)
      note j = next_pref_node [OF inv Some]
      from j(1) obtain m where m: "bt_get (tp_blocks s) j = Some m" by blast
      then have "j \<in> ?dom" by blast
      then have "b_height (U j) \<le> mx" unfolding mx_def using fin by (intro Max_ge) auto
      with j(5) have lt: "mx - b_height (U j) < mx - b_height (U c)" by simp
      let ?ids = "bs_insert j ids" and ?hs = "bt_insert (b_height (U j)) j hs"
      have "insert_height (tp_blocks s) j hs = ?hs"
        using nodes_okD(3) [OF topo_invD(4) [OF inv] m j(6)] m by (simp add: insert_height_def)
      moreover from Some less.prems obtain t where "sm_sb n = Some t" "tree_preference F t = j"
        by (auto simp: next_pref_def split: option.splits)
      ultimately have unf: "walk_preferred F (tp_blocks s) c c ids hs = walk_preferred F (tp_blocks s) j j ?ids ?hs"
        by (subst walk_preferred.simps) (simp add: less.prems)
      from less.hyps [OF lt m, of ?ids ?hs] obtain leaf ids' hs' where
        IH: "walk_preferred F (tp_blocks s) j j ?ids ?hs = Some (leaf, ids', hs')" "(prefers s)\<^sup>*\<^sup>* j leaf"
          "next_pref F s leaf = None" "set ids' = set ?ids \<union> {i. (prefers s)\<^sup>+\<^sup>+ j i}"
        and hs': "\<forall>h i. bt_get hs' h = Some i \<longleftrightarrow> ((prefers s)\<^sup>+\<^sup>+ j i \<and> b_height (U i) = h)
         \<or> (bt_get ?hs h = Some i \<and> (\<forall>k. (prefers s)\<^sup>+\<^sup>+ j k \<longrightarrow> b_height (U k) \<noteq> h))" by blast
      have "b_height (U j) < b_height (U k)" if "(prefers s)\<^sup>+\<^sup>+ j k" for k
        using that by (induction rule: tranclp_induct) (use next_pref_node(5) [OF inv] in fastforce)+
      then have ne: "b_height (U k) \<noteq> b_height (U j)" if "(prefers s)\<^sup>+\<^sup>+ j k" for k
        using that by fastforce
      have stepj: "(prefers s)\<^sup>+\<^sup>+ c i \<longleftrightarrow> i = j \<or> (prefers s)\<^sup>+\<^sup>+ j i" for i using step Some by auto
      have "bt_get hs' h = Some i \<longleftrightarrow> ((prefers s)\<^sup>+\<^sup>+ c i \<and> b_height (U i) = h)
         \<or> (bt_get hs h = Some i \<and> (\<forall>k. (prefers s)\<^sup>+\<^sup>+ c k \<longrightarrow> b_height (U k) \<noteq> h))" for h i
        unfolding hs' [rule_format] stepj using ne by (cases "h = b_height (U j)") (auto simp: map_simps)
      moreover have "(prefers s)\<^sup>*\<^sup>* c leaf" using Some IH(2) by (meson converse_rtranclp_into_rtranclp)
      moreover have "set ids' = set ids \<union> {i. (prefers s)\<^sup>+\<^sup>+ c i}" using IH(4) stepj by auto
      ultimately show ?thesis using unf IH(1,3) by auto
    qed
  qed
qed

end

end
