(* ===== verification/Ava_Topo_Kahn.thy ===== *)
theory Ava_Topo_Kahn
  imports Ava_Topo_Vote
begin

text \<open>
  What the vote propagation of \<^verbatim>\<open>Topological\<close> computes. \<^verbatim>\<open>calculate_in_degree\<close> builds
  the Kahn graph of the voted blocks, \<^verbatim>\<open>push_votes\<close> empties it from its leaves.
  The result is compared with the votes counted directly: a vote for a block is
  a vote for every block between it and the last accepted one.
\<close>

section \<open>The tree of processing blocks\<close>

abbreviation par :: "(ava_id \<Rightarrow> blk) \<Rightarrow> ava_id \<Rightarrow> ava_id" where
  "par U i \<equiv> b_parent (U i)"

abbreviation ids_of :: "('u, 'b) blocks \<Rightarrow> ava_id set" where
  "ids_of bs \<equiv> dom (bt_get bs)"

text \<open>The part of the invariant of \<^verbatim>\<open>Topological\<close> that the propagation relies on.\<close>

definition rooted :: "(ava_id \<Rightarrow> blk) \<Rightarrow> ava_id \<Rightarrow> nat \<Rightarrow> ('u, 'b) blocks \<Rightarrow> bool" where
  "rooted U r h bs \<longleftrightarrow> r \<in> ids_of bs \<and> (\<forall>i n. bt_get bs i = Some n \<longrightarrow>
     (sm_decided h n \<longleftrightarrow> i = r) \<and> below U r i
     \<and> (i \<noteq> r \<longrightarrow> sm_blk n = Some (U i) \<and> b_id (U i) = i \<and> blk_ok U (U i) \<and> par U i \<in> ids_of bs))"

lemma rootedD:
  assumes "rooted U r h bs"
  shows "r \<in> ids_of bs" "bt_get bs i = Some n \<Longrightarrow> sm_decided h n \<longleftrightarrow> i = r"
    "bt_get bs i = Some n \<Longrightarrow> i \<noteq> r \<Longrightarrow> sm_blk n = Some (U i)"
    "i \<in> ids_of bs \<Longrightarrow> below U r i"
    "i \<in> ids_of bs \<Longrightarrow> i \<noteq> r \<Longrightarrow> b_id (U i) = i \<and> blk_ok U (U i) \<and> par U i \<in> ids_of bs"
  using assms unfolding rooted_def by blast+

lemma rooted_height:
  assumes "rooted U r h bs" "i \<in> ids_of bs" "i \<noteq> r"
  shows "b_height (U i) = Suc (b_height (U (par U i)))"
  using rootedD(5) [OF assms] by (simp add: blk_ok_id)

lemma rooted_par_neq: "rooted U r h bs \<Longrightarrow> i \<in> ids_of bs \<Longrightarrow> i \<noteq> r \<Longrightarrow> par U i \<noteq> i"
  using rooted_height [of U r h bs i] by auto

context snow_factory
begin

lemma rooted_inv:
  assumes inv: "topo_inv U s"
  shows "rooted U (tp_last_accepted_id s) (tp_last_accepted_height s) (tp_blocks s)"
  unfolding rooted_def
proof (intro conjI allI impI)
  show "tp_last_accepted_id s \<in> ids_of (tp_blocks s)" using topo_invD(6) [OF inv] by blast
  fix i n assume n: "bt_get (tp_blocks s) i = Some n"
  show "sm_decided (tp_last_accepted_height s) n \<longleftrightarrow> i = tp_last_accepted_id s" by (rule inv_decided [OF inv n])
  show "below U (tp_last_accepted_id s) i" by (rule blocks_below [OF topo_invD(4,5) [OF inv] n])
  assume i: "i \<noteq> tp_last_accepted_id s"
  note b = nodes_okD(3-5) [OF topo_invD(4) [OF inv] n i]
  from b show "sm_blk n = Some (U i)" "b_id (U i) = i" "blk_ok U (U i)" by auto
  show "par U i \<in> ids_of (tp_blocks s)" using linkedD(2) [OF topo_invD(5) [OF inv] n i] by blast
qed

end

definition kids :: "(ava_id \<Rightarrow> blk) \<Rightarrow> ava_id \<Rightarrow> ('u, 'b) blocks \<Rightarrow> ava_id \<Rightarrow> ava_id set" where
  "kids U r bs p = {c \<in> ids_of bs. c \<noteq> r \<and> par U c = p}"

lemma finite_kids: "finite (kids U r bs p)"
  by (rule finite_subset [of _ "ids_of bs"]) (auto simp: kids_def finite_dom_map_of)

lemma below_up:
  assumes "rooted U r h bs" "v \<in> ids_of bs" "v \<noteq> r" "below U p v" "p \<noteq> v"
  shows "below U p (par U v)"
  using below_parent [of U p "U v"] rootedD(5) [OF assms(1-3)] assms(4,5) by auto

lemma below_down:
  assumes "rooted U r h bs" "v \<in> ids_of bs" "v \<noteq> r" "below U p (par U v)"
  shows "below U p v" "p \<noteq> v"
proof -
  note v = rootedD(5) [OF assms(1-3)]
  with below_step [OF assms(4)] show "below U p v" by auto
  show "p \<noteq> v" using below_height [OF assms(4)] rooted_height [OF assms(1-3)] by auto
qed

text \<open>Two blocks above the same one are on one branch.\<close>

lemma below_comparable: "below U p v \<Longrightarrow> below U q v \<Longrightarrow> below U p q \<or> below U q p"
proof (induction rule: below.induct)
  case (below_step b)
  show ?case
  proof (cases "b_id b = q")
    case False
    with below_parent [of U q b] below_step.prems below_step.hyps below_step.IH show ?thesis by blast
  qed (use below.below_step [OF below_step.hyps] in blast)
qed simp

lemma below_antisym: "below U p q \<Longrightarrow> below U q p \<Longrightarrow> p = q"
  using below_height [of U p q] below_height [of U q p] by auto

text \<open>The child of \<open>p\<close> on the branch to \<open>v\<close>.\<close>

lemma child_towards:
  assumes rt: "rooted U r h bs" and p: "p \<in> ids_of bs"
  shows "v \<in> ids_of bs \<Longrightarrow> below U p v \<Longrightarrow> p \<noteq> v \<Longrightarrow> \<exists>c \<in> kids U r bs p. below U c v"
proof (induction "b_height (U v)" arbitrary: v rule: less_induct)
  case less
  have vr: "v \<noteq> r" using below_antisym [of U p r] rootedD(4) [OF rt p] less.prems by auto
  note v = rootedD(5) [OF rt less.prems(1) vr] and hv = rooted_height [OF rt less.prems(1) vr]
  show ?case
  proof (cases "par U v = p")
    case True
    with less.prems(1) vr have "v \<in> kids U r bs p" by (simp add: kids_def)
    then show ?thesis using below_refl by blast
  next
    case False
    from less.hyps [of "par U v"] below_up [OF rt less.prems(1) vr less.prems(2,3)] False v hv
    obtain c where c: "c \<in> kids U r bs p" "below U c (par U v)" by auto
    with below_down(1) [OF rt less.prems(1) vr] show ?thesis by blast
  qed
qed

lemma kid_unique:
  assumes rt: "rooted U r h bs" and c: "c \<in> kids U r bs p" "d \<in> kids U r bs p" and v: "below U c v" "below U d v"
  shows "c = d"
proof -
  from c have "b_height (U c) = b_height (U d)"
    using rooted_height [OF rt, of c] rooted_height [OF rt, of d] by (simp add: kids_def)
  with below_comparable [OF v] below_height [of U c d] below_height [of U d c] show ?thesis by auto
qed

lemma kid_above:
  assumes rt: "rooted U r h bs" and c: "c \<in> kids U r bs p" and v: "below U c v"
  shows "below U p v" "p \<noteq> v"
proof -
  from c have c': "c \<in> ids_of bs" "c \<noteq> r" "par U c = p" by (auto simp: kids_def)
  from below_down [OF rt c'(1,2), of p] c'(3) below_refl [of U p] have pc: "below U p c" "p \<noteq> c" by auto
  from below_trans [OF v pc(1)] show "below U p v" .
  show "p \<noteq> v" using below_antisym [OF pc(1)] v pc(2) by blast
qed

section \<open>Counting votes directly\<close>

text \<open>The votes for \<open>c\<close> or a descendant of it, and those for strict descendants.\<close>

definition sub :: "(ava_id \<Rightarrow> blk) \<Rightarrow> ava_id multiset \<Rightarrow> ava_id \<Rightarrow> nat" where
  "sub U M c = size {#v \<in># M. below U c v#}"

definition desc :: "(ava_id \<Rightarrow> blk) \<Rightarrow> ava_id multiset \<Rightarrow> ava_id \<Rightarrow> nat" where
  "desc U M p = size {#v \<in># M. below U p v \<and> p \<noteq> v#}"

lemma sub_split: "sub U M c = count M c + desc U M c"
proof -
  have "{#v \<in># M. below U c v#} = {#v \<in># M. v = c#} + {#v \<in># M. below U c v \<and> c \<noteq> v#}"
    by (rule multiset_eqI) (auto simp: below_refl)
  then show ?thesis by (simp add: sub_def desc_def filter_eq_replicate_mset)
qed

lemma desc_pos: "0 < desc U M p \<Longrightarrow> \<exists>v. v \<in># M \<and> below U p v \<and> p \<noteq> v"
proof -
  assume "0 < desc U M p"
  then have "{#v \<in># M. below U p v \<and> p \<noteq> v#} \<noteq> {#}" unfolding desc_def nonempty_has_size .
  then obtain v where "v \<in># {#v \<in># M. below U p v \<and> p \<noteq> v#}" by blast
  then show ?thesis by auto
qed

lemma desc_kids:
  assumes rt: "rooted U r h bs" and p: "p \<in> ids_of bs" and M: "set_mset M \<subseteq> ids_of bs"
  shows "desc U M p = (\<Sum>c \<in> kids U r bs p. sub U M c)"
  using M
proof (induction M)
  case (add v M)
  have "(\<Sum>c \<in> kids U r bs p. if below U c v then 1 else 0) = (if below U p v \<and> p \<noteq> v then 1 else (0 :: nat))"
  proof (cases "below U p v \<and> p \<noteq> v")
    case True
    from add.prems have "v \<in> ids_of bs" by simp
    with child_towards [OF rt p, of v] True obtain c where c: "c \<in> kids U r bs p" "below U c v" by blast
    have "(if below U d v then 1 else 0) = (if d = c then 1 else (0 :: nat))" if "d \<in> kids U r bs p" for d
    proof (cases "below U d v")
      case True
      with kid_unique [OF rt that c(1) True c(2)] show ?thesis by simp
    qed (use c(2) in \<open>cases "d = c"; simp\<close>)
    then have "(\<Sum>c \<in> kids U r bs p. if below U c v then 1 else 0) = (\<Sum>d \<in> kids U r bs p. if d = c then 1 else (0 :: nat))"
      by (rule sum.cong [OF refl])
    with True c(1) show ?thesis by (simp add: finite_kids)
  next
    case False
    with kid_above [OF rt] have "\<not> below U c v" if "c \<in> kids U r bs p" for c using that by blast
    then have "(\<Sum>c \<in> kids U r bs p. if below U c v then 1 else 0) = (\<Sum>c \<in> kids U r bs p. 0 :: nat)"
      by (intro sum.cong [OF refl]) simp
    with False show ?thesis by (simp only: sum.neutral_const if_False)
  qed
  moreover have "sub U (add_mset v M) c = sub U M c + (if below U c v then 1 else 0)" for c
    by (simp add: sub_def)
  moreover have "desc U (add_mset v M) p = desc U M p + (if below U p v \<and> p \<noteq> v then 1 else 0)"
    by (simp add: desc_def)
  ultimately show ?case using add by (simp only: sum.distrib) simp
qed (simp add: desc_def sub_def)

lemma bag_count_new [simp]: "bag_count bag_new c = 0"
  by (simp add: bag_count_def bag_new_def)

lemma bag_len_counts:
  assumes "bag_wf b" "finite S" "\<And>c. c \<notin> S \<Longrightarrow> bag_count b c = 0"
  shows "bag_len b = (\<Sum>c \<in> S. bag_count b c)"
proof -
  have "set_mset (bag_mset b) \<subseteq> S"
  proof
    fix c assume "c \<in># bag_mset b"
    then have "bag_count b c \<noteq> 0" by (simp add: count_bag_mset [OF assms(1), symmetric])
    with assms(3) [of c] show "c \<in> S" by blast
  qed
  then have "(\<Sum>c \<in> set_mset (bag_mset b). count (bag_mset b) c) = (\<Sum>c \<in> S. count (bag_mset b) c)"
    by (intro sum.mono_neutral_left assms(2)) (auto simp: not_in_iff)
  then show ?thesis
    by (simp add: size_bag_mset [OF assms(1), symmetric] size_multiset_overloaded_eq count_bag_mset [OF assms(1)])
qed

section \<open>The Kahn graph\<close>

text \<open>
  The Kahn nodes \<open>kn\<close> and leaves, when the nodes of \<open>Z\<close> have been processed, those of
  \<open>X\<close> are not yet counted by their parent and \<open>cnt c\<close> votes for \<open>c\<close> have reached the
  bag of its parent.
\<close>

definition waits :: "(ava_id \<Rightarrow> blk) \<Rightarrow> ava_id \<Rightarrow> ava_id set \<Rightarrow> ava_id \<Rightarrow> ava_id set" where
  "waits U r N p = {q \<in> N. q \<noteq> r \<and> par U q = p}"

definition kinv :: "(ava_id \<Rightarrow> blk) \<Rightarrow> ava_id \<Rightarrow> ('u, 'b) blocks \<Rightarrow> (ava_id \<Rightarrow> nat) \<Rightarrow> ava_id set \<Rightarrow> ava_id set
    \<Rightarrow> kahn \<Rightarrow> bool" where
  "kinv U r bs cnt X Z st \<longleftrightarrow> (let N = dom (bt_get (fst st)) in
     N \<subseteq> ids_of bs
     \<and> (\<forall>q \<in> N - X. q \<noteq> r \<longrightarrow> par U q \<in> N)
     \<and> (\<forall>p k. bt_get (fst st) p = Some k \<longrightarrow> p \<notin> Z \<longrightarrow>
          kn_in_degree k = int (card (waits U r (N - X - Z) p))
          \<and> bag_wf (kn_votes k)
          \<and> (\<forall>c. bag_count (kn_votes k) c = (if c \<in> kids U r bs p then cnt c else 0)))
     \<and> set (snd st) = {p. \<exists>k. bt_get (fst st) p = Some k \<and> p \<notin> Z \<and> kn_in_degree k = 0}
     \<and> (\<forall>c \<in> ids_of bs. c \<noteq> r \<longrightarrow> 0 < cnt c \<longrightarrow> par U c \<in> N))"

lemma kinvD:
  assumes "kinv U r bs cnt X Z (kn, leaves)"
  shows "dom (bt_get kn) \<subseteq> ids_of bs"
    "q \<in> dom (bt_get kn) \<Longrightarrow> q \<notin> X \<Longrightarrow> q \<noteq> r \<Longrightarrow> par U q \<in> dom (bt_get kn)"
    "bt_get kn p = Some k \<Longrightarrow> p \<notin> Z \<Longrightarrow> kn_in_degree k = int (card (waits U r (dom (bt_get kn) - X - Z) p))"
    "bt_get kn p = Some k \<Longrightarrow> p \<notin> Z \<Longrightarrow> bag_wf (kn_votes k)"
    "bt_get kn p = Some k \<Longrightarrow> p \<notin> Z \<Longrightarrow> bag_count (kn_votes k) c = (if c \<in> kids U r bs p then cnt c else 0)"
    "set leaves = {p. \<exists>k. bt_get kn p = Some k \<and> p \<notin> Z \<and> kn_in_degree k = 0}"
    "c \<in> ids_of bs \<Longrightarrow> c \<noteq> r \<Longrightarrow> 0 < cnt c \<Longrightarrow> par U c \<in> dom (bt_get kn)"
  using assms unfolding kinv_def Let_def fst_conv snd_conv by blast+

lemma kinvI:
  assumes "dom (bt_get kn) \<subseteq> ids_of bs"
    "\<And>q. q \<in> dom (bt_get kn) \<Longrightarrow> q \<notin> X \<Longrightarrow> q \<noteq> r \<Longrightarrow> par U q \<in> dom (bt_get kn)"
    "\<And>p k. bt_get kn p = Some k \<Longrightarrow> p \<notin> Z \<Longrightarrow> kn_in_degree k = int (card (waits U r (dom (bt_get kn) - X - Z) p))"
    "\<And>p k. bt_get kn p = Some k \<Longrightarrow> p \<notin> Z \<Longrightarrow> bag_wf (kn_votes k)"
    "\<And>p k c. bt_get kn p = Some k \<Longrightarrow> p \<notin> Z \<Longrightarrow> bag_count (kn_votes k) c = (if c \<in> kids U r bs p then cnt c else 0)"
    "set leaves = {p. \<exists>k. bt_get kn p = Some k \<and> p \<notin> Z \<and> kn_in_degree k = 0}"
    "\<And>c. c \<in> ids_of bs \<Longrightarrow> c \<noteq> r \<Longrightarrow> 0 < cnt c \<Longrightarrow> par U c \<in> dom (bt_get kn)"
  shows "kinv U r bs cnt X Z (kn, leaves)"
  using assms unfolding kinv_def Let_def fst_conv snd_conv by blast

lemma finite_waits: "finite N \<Longrightarrow> finite (waits U r N p)"
  by (simp add: waits_def)

lemma dom_bt_insert: "dom (bt_get (bt_insert i k kn)) = insert i (dom (bt_get kn))"
  by (auto simp: map_simps split: if_splits)

lemma card_waits_add:
  assumes "finite N" "q \<notin> N" "q \<noteq> r" "par U q = p"
  shows "card (waits U r (insert q N) p) = Suc (card (waits U r N p))"
proof -
  have "waits U r (insert q N) p = insert q (waits U r N p)" "q \<notin> waits U r N p"
    using assms(2-4) by (auto simp: waits_def)
  with assms(1) show ?thesis by (simp add: finite_waits)
qed

lemma waits_insert_other: "q = r \<or> par U q \<noteq> p \<Longrightarrow> waits U r (insert q N) p = waits U r N p"
  by (auto simp: waits_def)

lemma sat_succ_i64: "0 \<le> x \<Longrightarrow> x < i64_max \<Longrightarrow> sat_add_i64 x 1 = x + 1"
  by (simp add: sat_add_i64_def i64_min_def)

lemma card_waits_bound:
  assumes "N \<subseteq> ids_of bs" "length bs \<le> nat i64_max"
  shows "int (card (waits U r N p)) \<le> i64_max"
proof -
  have "card (waits U r N p) \<le> card (ids_of bs)"
    by (rule card_mono) (use assms(1) in \<open>auto simp: waits_def finite_dom_map_of\<close>)
  also have "card (ids_of bs) \<le> length bs"
    by (metis card_length dom_map_of_conv_image_fst length_map list.set_map)
  finally show ?thesis using assms(2) by (simp add: i64_max_def)
qed

section \<open>Building the graph\<close>

text \<open>Counting the node \<open>q\<close> at its parent, which has a node already or gets one.\<close>

lemma kinv_link_old:
  assumes inv: "kinv U r bs cnt {q} {} (kn, leaves)" and rt: "rooted U r h bs" and len: "length bs \<le> nat i64_max"
    and q: "q \<in> dom (bt_get kn)" "q \<noteq> r" and k: "bt_get kn (par U q) = Some k"
  shows "kinv U r bs cnt {} {} (bt_insert (par U q) (k\<lparr>kn_in_degree := sat_add_i64 (kn_in_degree k) 1\<rparr>) kn,
    bs_remove (par U q) leaves)"
proof -
  let ?N = "dom (bt_get kn)" and ?p = "par U q"
  have fin: "finite ?N" by (simp add: finite_dom_map_of)
  have N: "dom (bt_get (bt_insert ?p k' kn)) = ?N" for k' using k by (auto simp: dom_bt_insert)
  have card: "card (waits U r ?N ?p) = Suc (card (waits U r (?N - {q}) ?p))"
    using card_waits_add [of "?N - {q}" q r U ?p] fin q by (simp add: insert_absorb)
  have deg: "kn_in_degree k = int (card (waits U r (?N - {q}) ?p))"
    using kinvD(3) [OF inv k] by simp
  have bound: "int (card (waits U r ?N ?p)) \<le> i64_max"
    by (rule card_waits_bound [OF kinvD(1) [OF inv] len])
  have new: "sat_add_i64 (kn_in_degree k) 1 = int (card (waits U r ?N ?p))"
    using sat_succ_i64 [of "kn_in_degree k"] bound card deg by simp
  have other: "waits U r ?N p = waits U r (?N - {q}) p" if "p \<noteq> ?p" for p
    using that by (auto simp: waits_def)
  show ?thesis
  proof (rule kinvI, unfold N)
    show "?N \<subseteq> ids_of bs" by (rule kinvD(1) [OF inv])
    show "par U a \<in> ?N" if "a \<in> ?N" "a \<notin> {}" "a \<noteq> r" for a
      using kinvD(2) [OF inv that(1) _ that(3)] k by (cases "a = q") auto
    fix p k' assume p: "bt_get (bt_insert ?p (k\<lparr>kn_in_degree := sat_add_i64 (kn_in_degree k) 1\<rparr>) kn) p = Some k'"
    show "kn_in_degree k' = int (card (waits U r (?N - {} - {}) p))"
      using p new other [of p] kinvD(3) [OF inv, of p k'] by (cases "p = ?p") (auto simp: map_simps)
    show "bag_wf (kn_votes k')"
      using p kinvD(4) [OF inv k] kinvD(4) [OF inv, of p k'] by (auto simp: map_simps split: if_splits)
    show "bag_count (kn_votes k') c = (if c \<in> kids U r bs p then cnt c else 0)" for c
      using p kinvD(5) [OF inv k] kinvD(5) [OF inv, of p k'] by (cases "p = ?p") (auto simp: map_simps)
  next
    have "sat_add_i64 (kn_in_degree k) 1 \<noteq> 0" using new card by simp
    then show "set (bs_remove ?p leaves) = {p. \<exists>k'. bt_get (bt_insert ?p (k\<lparr>kn_in_degree := sat_add_i64 (kn_in_degree k) 1\<rparr>) kn) p
        = Some k' \<and> p \<notin> {} \<and> kn_in_degree k' = 0}"
      using kinvD(6) [OF inv] by (auto simp: map_simps split: if_splits)
  qed (rule kinvD(7) [OF inv])
qed

lemma kinv_link_new:
  assumes inv: "kinv U r bs cnt {q} {} (kn, leaves)" and rt: "rooted U r h bs"
    and q: "q \<in> dom (bt_get kn)" "q \<noteq> r" and k: "bt_get kn (par U q) = None"
  shows "kinv U r bs cnt {par U q} {} (bt_insert (par U q) (kahn_default\<lparr>kn_in_degree := 1\<rparr>) kn, leaves)"
proof -
  let ?N = "dom (bt_get kn)" and ?p = "par U q"
  let ?kn = "bt_insert ?p (kahn_default\<lparr>kn_in_degree := 1\<rparr>) kn"
  have qD: "q \<in> ids_of bs" using kinvD(1) [OF inv] q(1) by blast
  have N: "dom (bt_get ?kn) = insert ?p ?N" by (rule dom_bt_insert)
  have pN: "insert ?p ?N - {?p} = ?N" using k by auto
  have "a = q" if "a \<in> ?N" "a \<noteq> r" "par U a = ?p" for a
    using kinvD(2) [OF inv that(1) _ that(2)] that(3) k by auto
  with q have self: "waits U r ?N ?p = {q}" unfolding waits_def by blast
  have other: "waits U r ?N p = waits U r (?N - {q}) p" if "p \<noteq> ?p" for p
    using that by (auto simp: waits_def)
  have zero: "cnt c = 0" if "c \<in> kids U r bs ?p" for c
    using that kinvD(7) [OF inv, of c] k by (auto simp: kids_def)
  show ?thesis
  proof (rule kinvI, unfold N pN)
    show "insert ?p ?N \<subseteq> ids_of bs"
      using rootedD(5) [OF rt qD q(2)] kinvD(1) [OF inv] by blast
    show "par U a \<in> insert ?p ?N" if "a \<in> insert ?p ?N" "a \<notin> {?p}" "a \<noteq> r" for a
      using kinvD(2) [OF inv, of a] that by (cases "a = q") auto
    fix p k' assume p: "bt_get ?kn p = Some k'"
    show "kn_in_degree k' = int (card (waits U r (?N - {}) p))"
      using p self other [of p] kinvD(3) [OF inv, of p k'] by (cases "p = ?p") (auto simp: map_simps)
    show "bag_wf (kn_votes k')"
      using p kinvD(4) [OF inv, of p k'] by (auto simp: map_simps kahn_default_def split: if_splits)
    show "bag_count (kn_votes k') c = (if c \<in> kids U r bs p then cnt c else 0)" for c
      using p zero [of c] kinvD(5) [OF inv, of p k']
      by (cases "p = ?p") (auto simp: map_simps kahn_default_def)
  next
    show "set leaves = {p. \<exists>k'. bt_get ?kn p = Some k' \<and> p \<notin> {} \<and> kn_in_degree k' = 0}"
      using kinvD(6) [OF inv] k by (auto simp: map_simps split: if_splits)
    show "par U c \<in> insert ?p ?N" if "c \<in> ids_of bs" "c \<noteq> r" "0 < cnt c" for c
      using kinvD(7) [OF inv that] by blast
  qed
qed

text \<open>A node that needs not be counted.\<close>

lemma kinv_root:
  assumes "kinv U r bs cnt {r} {} (kn, leaves)"
  shows "kinv U r bs cnt {} {} (kn, leaves)"
proof -
  have "waits U r (dom (bt_get kn) - {r}) p = waits U r (dom (bt_get kn)) p" for p by (auto simp: waits_def)
  with assms show ?thesis unfolding kinv_def Let_def by simp
qed

lemma kahn_walk_inv:
  assumes "rooted U r h bs" "length bs \<le> nat i64_max"
    "kinv U r bs cnt {q} {} (kn, leaves)" "q \<in> dom (bt_get kn)"
  shows "kinv U r bs cnt {} {} (kahn_walk h bs q (kn, leaves))"
  using assms
proof (induction h bs q "(kn, leaves)" arbitrary: kn leaves rule: kahn_walk.induct)
  case (1 h bs q kn leaves)
  note rt = "1.prems"(1) and inv = "1.prems"(3) and q = "1.prems"(4)
  from kinvD(1) [OF inv] q obtain n where n: "bt_get bs q = Some n" by blast
  show ?case
  proof (cases "q = r")
    case True
    with rootedD(2) [OF rt n] n kinv_root inv show ?thesis by simp
  next
    case False
    with rootedD(2,3) [OF rt n] have nd: "\<not> sm_decided h n" and b: "sm_blk n = Some (U q)" by auto
    show ?thesis
    proof (cases "bt_get kn (par U q)")
      case (Some k)
      then show ?thesis
        using kinv_link_old [OF inv rt "1.prems"(2) q False Some] n nd b
        by (simp add: kahn_entry_def Let_def)
    next
      case None
      let ?kn = "bt_insert (par U q) (kahn_default\<lparr>kn_in_degree := 1\<rparr>) kn"
      have one: "sat_add_i64 (kn_in_degree kahn_default) 1 = 1"
        by (simp add: sat_succ_i64 kahn_default_def i64_max_def)
      have "kinv U r bs cnt {} {} (kahn_walk h bs (par U q) (?kn, leaves))"
        by (rule "1.hyps" [OF n nd b refl _ _ rt "1.prems"(2) kinv_link_new [OF inv rt q False None]])
          (use None one in \<open>simp_all add: kahn_entry_def map_simps\<close>)
      moreover have "kahn_walk h bs q (kn, leaves) = kahn_walk h bs (par U q) (?kn, leaves)"
        by (subst kahn_walk.simps) (use None n nd b one in \<open>simp add: kahn_entry_def Let_def del: kahn_walk.simps\<close>)
      ultimately show ?thesis by (simp only:)
    qed
  qed
qed

text \<open>Handing the votes for a block to the node of its parent.\<close>

lemma kinv_vote_old:
  assumes inv: "kinv U r bs cnt {} {} (kn, leaves)" and v: "v \<in> ids_of bs" "v \<noteq> r" "cnt v = 0"
    and k: "bt_get kn (par U v) = Some k"
  shows "kinv U r bs (cnt(v := w)) {} {} (bt_insert (par U v) (k\<lparr>kn_votes := bag_add_count v w (kn_votes k)\<rparr>) kn, leaves)"
proof -
  let ?N = "dom (bt_get kn)" and ?p = "par U v"
  let ?kn = "bt_insert ?p (k\<lparr>kn_votes := bag_add_count v w (kn_votes k)\<rparr>) kn"
  have N: "dom (bt_get ?kn) = ?N" using k by (auto simp: dom_bt_insert)
  have kid: "v \<in> kids U r bs p \<longleftrightarrow> p = ?p" for p using v by (auto simp: kids_def)
  show ?thesis
  proof (rule kinvI, unfold N)
    fix p k' assume p: "bt_get ?kn p = Some k'"
    show "kn_in_degree k' = int (card (waits U r (?N - {} - {}) p))"
      using p kinvD(3) [OF inv, of p] k by (cases "p = ?p") (auto simp: map_simps)
    show "bag_wf (kn_votes k')"
      using p kinvD(4) [OF inv, of p] k by (cases "p = ?p") (auto simp: map_simps bag_wf_add_count)
    show "bag_count (kn_votes k') c = (if c \<in> kids U r bs p then (cnt(v := w)) c else 0)" for c
      using p kinvD(5) [OF inv, of p] k kid [of p] v(3)
      by (cases "p = ?p") (auto simp: map_simps bag_count_add_count)
  next
    show "par U c \<in> ?N" if "c \<in> ids_of bs" "c \<noteq> r" "0 < (cnt(v := w)) c" for c
      using kinvD(7) [OF inv that(1,2)] that(3) k by (cases "c = v") auto
    show "set leaves = {p. \<exists>k'. bt_get ?kn p = Some k' \<and> p \<notin> {} \<and> kn_in_degree k' = 0}"
      using kinvD(6) [OF inv] k by (auto simp: map_simps split: if_splits)
  qed (use kinvD(1,2) [OF inv] in blast)+
qed

lemma kinv_vote_new:
  assumes inv: "kinv U r bs cnt {} {} (kn, leaves)" and rt: "rooted U r h bs"
    and v: "v \<in> ids_of bs" "v \<noteq> r" and k: "bt_get kn (par U v) = None"
  shows "kinv U r bs (cnt(v := w)) {par U v} {}
    (bt_insert (par U v) (kahn_default\<lparr>kn_votes := bag_add_count v w bag_new\<rparr>) kn, bs_insert (par U v) leaves)"
proof -
  let ?N = "dom (bt_get kn)" and ?p = "par U v"
  let ?kn = "bt_insert ?p (kahn_default\<lparr>kn_votes := bag_add_count v w bag_new\<rparr>) kn"
  have N: "dom (bt_get ?kn) = insert ?p ?N" by (rule dom_bt_insert)
  have pN: "insert ?p ?N - {?p} - {} = ?N" using k by auto
  have kid: "v \<in> kids U r bs p \<longleftrightarrow> p = ?p" for p using v by (auto simp: kids_def)
  have "par U a \<noteq> ?p" if "a \<in> ?N" "a \<noteq> r" for a
    using kinvD(2) [OF inv that(1) _ that(2)] k by auto
  then have self: "waits U r ?N ?p = {}" unfolding waits_def by blast
  have zero: "cnt c = 0" if "c \<in> kids U r bs ?p" for c
    using that kinvD(7) [OF inv, of c] k by (auto simp: kids_def)
  show ?thesis
  proof (rule kinvI, unfold N pN)
    show "insert ?p ?N \<subseteq> ids_of bs"
      using rootedD(5) [OF rt v] kinvD(1) [OF inv] by blast
    show "par U a \<in> insert ?p ?N" if "a \<in> insert ?p ?N" "a \<notin> {?p}" "a \<noteq> r" for a
      using kinvD(2) [OF inv, of a] that by auto
    fix p k' assume p: "bt_get ?kn p = Some k'"
    show "kn_in_degree k' = int (card (waits U r ?N p))"
      using p self kinvD(3) [OF inv, of p k'] by (cases "p = ?p") (auto simp: map_simps kahn_default_def)
    show "bag_wf (kn_votes k')"
      using p kinvD(4) [OF inv, of p k'] by (cases "p = ?p") (auto simp: map_simps bag_wf_add_count)
    show "bag_count (kn_votes k') c = (if c \<in> kids U r bs p then (cnt(v := w)) c else 0)" for c
      using p zero [of c] kinvD(5) [OF inv, of p k'] kid [of p] bag_count_add_count [of v w bag_new c]
      by (cases "p = ?p") (auto simp: map_simps)
  next
    show "par U c \<in> insert ?p ?N" if "c \<in> ids_of bs" "c \<noteq> r" "0 < (cnt(v := w)) c" for c
      using kinvD(7) [OF inv that(1,2)] that(3) by (cases "c = v") auto
    show "set (bs_insert ?p leaves) = {p. \<exists>k'. bt_get ?kn p = Some k' \<and> p \<notin> {} \<and> kn_in_degree k' = 0}"
      using kinvD(6) [OF inv] k by (auto simp: map_simps kahn_default_def split: if_splits)
  qed
qed

lemma kahn_vote_inv:
  assumes rt: "rooted U r h bs" and len: "length bs \<le> nat i64_max"
    and inv: "kinv U r bs cnt {} {} st" and v: "cnt v = 0"
  shows "kinv U r bs (cnt(v := bag_count votes v)) {} {} (kahn_vote h bs votes st v)"
proof (cases "v \<in> ids_of bs \<and> v \<noteq> r")
  case True
  then obtain n where n: "bt_get bs v = Some n" "v \<noteq> r" by auto
  with rootedD(2,3) [OF rt n(1)] have nd: "\<not> sm_decided h n" "sm_blk n = Some (U v)" by auto
  obtain kn leaves where st: "st = (kn, leaves)" by fastforce
  show ?thesis
  proof (cases "bt_get kn (par U v)")
    case (Some k)
    with kinv_vote_old [OF inv [unfolded st] _ _ v Some] n nd st show ?thesis
      by (simp add: kahn_vote_def kahn_entry_def Let_def domI)
  next
    case None
    let ?kn = "bt_insert (par U v) (kahn_default\<lparr>kn_votes := bag_add_count v (bag_count votes v) bag_new\<rparr>) kn"
    have "kinv U r bs (cnt(v := bag_count votes v)) {} {} (kahn_walk h bs (par U v) (?kn, bs_insert (par U v) leaves))"
      by (rule kahn_walk_inv [OF rt len kinv_vote_new [OF inv [unfolded st] rt _ n(2) None]])
        (use n in \<open>auto simp: dom_bt_insert\<close>)
    moreover have "kahn_vote h bs votes st v = kahn_walk h bs (par U v) (?kn, bs_insert (par U v) leaves)"
      using n nd st None by (simp add: kahn_vote_def kahn_entry_def Let_def kahn_default_def del: kahn_walk.simps)
    ultimately show ?thesis by (simp only:)
  qed
next
  case False
  have "kahn_vote h bs votes st v = st"
    using False rootedD(2) [OF rt, of v] by (auto simp: kahn_vote_def split: option.splits)
  moreover have "c \<in> kids U r bs p \<Longrightarrow> c \<noteq> v" for c p using False by (auto simp: kids_def)
  then have "(if c \<in> kids U r bs p then (cnt(v := w)) c else 0) = (if c \<in> kids U r bs p then cnt c else 0)" for c p w
    by simp
  moreover have "(\<forall>c \<in> ids_of bs. c \<noteq> r \<longrightarrow> 0 < (cnt(v := w)) c \<longrightarrow> par U c \<in> N)
      \<longleftrightarrow> (\<forall>c \<in> ids_of bs. c \<noteq> r \<longrightarrow> 0 < cnt c \<longrightarrow> par U c \<in> N)" for w N
    using False by auto
  ultimately show ?thesis using inv unfolding kinv_def Let_def by simp
qed

text \<open>The graph of all votes.\<close>

lemma calculate_in_degree_inv:
  assumes rt: "rooted U (tp_last_accepted_id s) (tp_last_accepted_height s) (tp_blocks s)"
    and len: "length (tp_blocks s) \<le> nat i64_max" and wf: "bag_wf votes"
  shows "kinv U (tp_last_accepted_id s) (tp_blocks s) (bag_count votes) {} {} (calculate_in_degree s votes)"
proof -
  let ?f = "kahn_vote (tp_last_accepted_height s) (tp_blocks s) votes"
  have "kinv U (tp_last_accepted_id s) (tp_blocks s) (\<lambda>c. if c \<in> set vs then bag_count votes c else 0) {} {}
      (foldl ?f ([], []) vs)" if "distinct vs" for vs
    using that
  proof (induction vs rule: rev_induct)
    case Nil
    show ?case by (simp add: kinv_def)
  next
    case (snoc v vs)
    then have "kinv U (tp_last_accepted_id s) (tp_blocks s)
        ((\<lambda>c. if c \<in> set vs then bag_count votes c else 0)(v := bag_count votes v)) {} {} (?f (foldl ?f ([], []) vs) v)"
      by (intro kahn_vote_inv [OF rt len]) simp_all
    moreover have "(\<lambda>c. if c \<in> set vs then bag_count votes c else 0)(v := bag_count votes v)
        = (\<lambda>c. if c \<in> set (vs @ [v]) then bag_count votes c else 0)" by auto
    ultimately show ?case by simp
  qed
  from this [OF distinct_bag_list [OF wf]]
  have "kinv U (tp_last_accepted_id s) (tp_blocks s) (\<lambda>c. if c \<in> set (bag_list votes) then bag_count votes c else 0) {} {}
      (calculate_in_degree s votes)" by (simp add: calculate_in_degree_def)
  moreover have "(\<lambda>c. if c \<in> set (bag_list votes) then bag_count votes c else 0) = bag_count votes"
    using bag_count_pos_iff [OF wf] by (intro ext) auto
  ultimately show ?thesis by (simp only:)
qed

section \<open>Emptying the graph\<close>

lemma kinv_cong:
  assumes "\<And>c. c \<in> ids_of bs \<Longrightarrow> c \<noteq> r \<Longrightarrow> cnt c = cnt' c" "kinv U r bs cnt X Z st"
  shows "kinv U r bs cnt' X Z st"
proof -
  obtain kn leaves where st: "st = (kn, leaves)" by fastforce
  note inv = assms(2) [unfolded st]
  show ?thesis unfolding st
  proof (rule kinvI)
    show "bag_count (kn_votes k) c = (if c \<in> kids U r bs p then cnt' c else 0)"
      if "bt_get kn p = Some k" "p \<notin> Z" for p k c
      using kinvD(5) [OF inv that, of c] assms(1) [of c] by (auto simp: kids_def)
    show "par U c \<in> dom (bt_get kn)" if "c \<in> ids_of bs" "c \<noteq> r" "0 < cnt' c" for c
      using kinvD(7) [OF inv that(1,2)] assms(1) [OF that(1,2)] that(3) by simp
  qed (fact kinvD [OF inv])+
qed

text \<open>Every block above a voted one has a node.\<close>

lemma kinv_above:
  assumes rt: "rooted U r h bs" and inv: "kinv U r bs cnt {} Z (kn, leaves)" and p: "p \<in> ids_of bs"
  shows "q \<in> dom (bt_get kn) \<Longrightarrow> below U p q \<Longrightarrow> p \<in> dom (bt_get kn)"
proof (induction "b_height (U q)" arbitrary: q rule: less_induct)
  case less
  show ?case
  proof (cases "p = q")
    case False
    have q: "q \<in> ids_of bs" using kinvD(1) [OF inv] less.prems(1) by blast
    have qr: "q \<noteq> r" using below_antisym [of U p r] rootedD(4) [OF rt p] less.prems(2) False by auto
    from kinvD(2) [OF inv less.prems(1) _ qr] have "par U q \<in> dom (bt_get kn)" by simp
    then show ?thesis
      using less.hyps [of "par U q"] rooted_height [OF rt q qr] below_up [OF rt q qr less.prems(2) False] by simp
  qed (use less.prems in simp)
qed

text \<open>The votes for \<open>c\<close> that its parent holds: those cast for \<open>c\<close>, and once \<open>c\<close> has been
  processed also those cast below it.\<close>

definition pushed :: "(ava_id \<Rightarrow> blk) \<Rightarrow> ava_id multiset \<Rightarrow> ava_id set \<Rightarrow> ava_id \<Rightarrow> nat" where
  "pushed U M Z c = count M c + (if c \<in> Z then desc U M c else 0)"

lemma pushed_desc:
  assumes rt: "rooted U r h bs" and inv: "kinv U r bs (pushed U M Z) {} Z (kn, leaves)"
    and M: "set_mset M \<subseteq> ids_of bs - {r}" and p: "p \<in> ids_of bs" "0 < desc U M p"
  shows "p \<in> dom (bt_get kn)"
proof -
  from desc_pos [OF p(2)] obtain v where v: "v \<in># M" "below U p v" "p \<noteq> v" by blast
  with M have vD: "v \<in> ids_of bs" "v \<noteq> r" by auto
  have "0 < pushed U M Z v" using v(1) by (simp add: pushed_def)
  from kinvD(7) [OF inv vD this] kinv_above [OF rt inv p(1)] below_up [OF rt vD v(2,3)] show ?thesis by blast
qed

text \<open>A leaf of the graph holds all the votes for its children.\<close>

lemma leaf_votes:
  assumes rt: "rooted U r h bs" and inv: "kinv U r bs (pushed U M Z) {} Z (kn, leaves)"
    and M: "set_mset M \<subseteq> ids_of bs - {r}" and k: "bt_get kn i = Some k" "i \<notin> Z" "kn_in_degree k = 0"
  shows "bag_wf (kn_votes k)" "bag_count (kn_votes k) c = (if c \<in> kids U r bs i then sub U M c else 0)"
    "bag_len (kn_votes k) = desc U M i" "c \<in> kids U r bs i \<Longrightarrow> c \<in> dom (bt_get kn) \<Longrightarrow> c \<in> Z"
proof -
  have "card (waits U r (dom (bt_get kn) - {} - Z) i) = 0" using kinvD(3) [OF inv k(1,2)] k(3) by simp
  then have w: "waits U r (dom (bt_get kn) - {} - Z) i = {}"
    by (simp add: waits_def finite_dom_map_of)
  then show proc: "c \<in> Z" if "c \<in> kids U r bs i" "c \<in> dom (bt_get kn)" for c
    using that unfolding waits_def kids_def by blast
  have full: "pushed U M Z c = sub U M c" if "c \<in> kids U r bs i" for c
  proof (cases "c \<in> Z")
    case False
    with proc [OF that] have "c \<notin> dom (bt_get kn)" by blast
    with pushed_desc [OF rt inv M, of c] that have "desc U M c = 0" by (auto simp: kids_def)
    with False show ?thesis by (simp add: pushed_def sub_split)
  qed (simp add: pushed_def sub_split)
  show wf: "bag_wf (kn_votes k)" by (rule kinvD(4) [OF inv k(1,2)])
  show counts: "bag_count (kn_votes k) c = (if c \<in> kids U r bs i then sub U M c else 0)" for c
    using kinvD(5) [OF inv k(1,2), of c] full [of c] by simp
  have "i \<in> ids_of bs" "set_mset M \<subseteq> ids_of bs" using kinvD(1) [OF inv] k(1) M by blast+
  from desc_kids [OF rt this] show "bag_len (kn_votes k) = desc U M i"
    using bag_len_counts [OF wf finite_kids, of U r bs i] counts by simp
qed

text \<open>Processing a leaf: the root, or a node that passes its votes to its parent.\<close>

lemma kinv_done_root:
  assumes inv: "kinv U r bs (pushed U M Z) {} Z (kn, leaves)" and r: "r \<in> dom (bt_get kn)"
    and kn1: "bt_get kn1 = (bt_get kn)(r \<mapsto> k1)"
  shows "kinv U r bs (pushed U M (insert r Z)) {} (insert r Z) (kn1, bs_remove r leaves)"
proof -
  have N: "dom (bt_get kn1) = dom (bt_get kn)" unfolding kn1 using r by (auto split: if_splits)
  have w: "waits U r (dom (bt_get kn) - {} - insert r Z) p = waits U r (dom (bt_get kn) - {} - Z) p" for p
    by (auto simp: waits_def)
  have cnt: "pushed U M (insert r Z) c = pushed U M Z c" if "c \<noteq> r" for c using that by (simp add: pushed_def)
  show ?thesis
  proof (rule kinvI, unfold N w)
    fix p k assume "bt_get kn1 p = Some k" "p \<notin> insert r Z"
    then have p: "bt_get kn p = Some k" "p \<notin> Z" by (auto simp: kn1 split: if_splits)
    from kinvD(3,4) [OF inv p]
    show "kn_in_degree k = int (card (waits U r (dom (bt_get kn) - {} - Z) p))" "bag_wf (kn_votes k)" by auto
    show "bag_count (kn_votes k) c = (if c \<in> kids U r bs p then pushed U M (insert r Z) c else 0)" for c
      using kinvD(5) [OF inv p, of c] cnt [of c] by (simp add: kids_def)
  next
    show "set (bs_remove r leaves) = {p. \<exists>k. bt_get kn1 p = Some k \<and> p \<notin> insert r Z \<and> kn_in_degree k = 0}"
      using kinvD(6) [OF inv] by (auto simp: kn1 split: if_splits)
    show "par U c \<in> dom (bt_get kn)" if "c \<in> ids_of bs" "c \<noteq> r" "0 < pushed U M (insert r Z) c" for c
      using kinvD(7) [OF inv that(1,2)] cnt [OF that(2)] that(3) by simp
  qed (use kinvD(1,2) [OF inv] in blast)+
qed

lemma sat_dec_i64: "0 < x \<Longrightarrow> x \<le> i64_max \<Longrightarrow> sat_sub_i64 x 1 = x - 1"
  by (simp add: sat_sub_i64_def i64_min_def)

lemma kinv_done_node:
  assumes inv: "kinv U r bs (pushed U M Z) {} Z (kn, leaves)" and rt: "rooted U r h bs"
    and len: "length bs \<le> nat i64_max"
    and i: "i \<in> dom (bt_get kn)" "i \<notin> Z" "i \<noteq> r" and closed: "par U i \<in> Z \<longrightarrow> i \<in> Z"
    and kn1: "bt_get kn1 = (bt_get kn)(i \<mapsto> k1)" and k: "bt_get kn (par U i) = Some k"
    and k': "k' = k\<lparr>kn_in_degree := sat_sub_i64 (kn_in_degree k) 1, kn_votes := bag_add_count i (desc U M i) (kn_votes k)\<rparr>"
  shows "kinv U r bs (pushed U M (insert i Z)) {} (insert i Z) (bt_insert (par U i) k' kn1,
    if kn_in_degree k' = 0 then bs_insert (par U i) (bs_remove i leaves) else bs_remove i leaves)"
proof -
  let ?N = "dom (bt_get kn)" and ?p = "par U i"
  have iD: "i \<in> ids_of bs" using kinvD(1) [OF inv] i(1) by blast
  have pi: "?p \<noteq> i" by (rule rooted_par_neq [OF rt iD i(3)])
  have pZ: "?p \<notin> Z" using closed i(2) by blast
  have N: "dom (bt_get (bt_insert ?p k' kn1)) = ?N"
    unfolding dom_bt_insert kn1 using k i(1) by (auto split: if_splits)
  have get: "bt_get (bt_insert ?p k' kn1) p = (if p = ?p then Some k' else bt_get kn p)" if "p \<noteq> i" for p
    using that by (simp add: map_simps kn1)
  have ins: "?N - {} - Z = insert i (?N - {} - insert i Z)" using i(1,2) by blast
  have card: "card (waits U r (?N - {} - Z) ?p) = Suc (card (waits U r (?N - {} - insert i Z) ?p))"
    unfolding ins by (rule card_waits_add) (simp_all add: finite_dom_map_of i(3))
  have w: "waits U r (?N - {} - insert i Z) p = waits U r (?N - {} - Z) p" if "p \<noteq> ?p" for p
    using that by (auto simp: waits_def)
  have bound: "int (card (waits U r (?N - {} - Z) ?p)) \<le> i64_max"
    by (rule card_waits_bound [OF _ len]) (use kinvD(1) [OF inv] in blast)
  have deg: "kn_in_degree k' = int (card (waits U r (?N - {} - insert i Z) ?p))"
    using kinvD(3) [OF inv k pZ] sat_dec_i64 [of "kn_in_degree k"] bound card by (simp add: k')
  have kid: "i \<in> kids U r bs p \<longleftrightarrow> p = ?p" for p using iD i(3) by (auto simp: kids_def)
  have cnt: "pushed U M (insert i Z) c = pushed U M Z c + (if c = i then desc U M i else 0)" for c
    using i(2) by (simp add: pushed_def)
  show ?thesis
  proof (rule kinvI, unfold N)
    fix p k2 assume g: "bt_get (bt_insert ?p k' kn1) p = Some k2" and p: "p \<notin> insert i Z"
    then have k2: "if p = ?p then k2 = k' else bt_get kn p = Some k2" using get [of p] by auto
    show "kn_in_degree k2 = int (card (waits U r (?N - {} - insert i Z) p))"
      using k2 deg w [of p] kinvD(3) [OF inv, of p k2] p by (cases "p = ?p") simp_all
    show "bag_wf (kn_votes k2)"
      using k2 kinvD(4) [OF inv k pZ] kinvD(4) [OF inv, of p k2] p
      by (cases "p = ?p") (simp_all add: k' bag_wf_add_count)
    show "bag_count (kn_votes k2) c = (if c \<in> kids U r bs p then pushed U M (insert i Z) c else 0)" for c
      using k2 kinvD(5) [OF inv k pZ, of c] kinvD(5) [OF inv, of p k2 c] p kid [of p] cnt [of c]
      by (cases "p = ?p") (auto simp: k' bag_count_add_count)
  next
    have nl: "?p \<notin> set leaves" using kinvD(6) [OF inv] k kinvD(3) [OF inv k pZ] card by auto
    define ls where "ls = (if kn_in_degree k' = 0 then bs_insert ?p (bs_remove i leaves) else bs_remove i leaves)"
    have ls: "p \<in> set ls \<longleftrightarrow> p \<in> set leaves - {i} \<or> p = ?p \<and> kn_in_degree k' = 0" for p by (auto simp: ls_def)
    have "p \<in> set ls \<longleftrightarrow>
        (\<exists>k2. bt_get (bt_insert ?p k' kn1) p = Some k2 \<and> p \<notin> insert i Z \<and> kn_in_degree k2 = 0)" for p
    proof (cases "p = i")
      case False
      note g = get [OF False]
      show ?thesis
      proof (cases "p = ?p")
        case True
        with g nl pi pZ ls [of p] show ?thesis by simp
      qed (use g ls [of p] False kinvD(6) [OF inv] in auto)
    qed (use ls [of p] pi in simp)
    then show "set (if kn_in_degree k' = 0 then bs_insert ?p (bs_remove i leaves) else bs_remove i leaves)
        = {p. \<exists>k2. bt_get (bt_insert ?p k' kn1) p = Some k2 \<and> p \<notin> insert i Z \<and> kn_in_degree k2 = 0}"
      unfolding ls_def by blast
    show "par U c \<in> ?N" if "c \<in> ids_of bs" "c \<noteq> r" "0 < pushed U M (insert i Z) c" for c
      using kinvD(7) [OF inv that(1,2)] that(3) cnt [of c] k by (cases "c = i") auto
  qed (use kinvD(1,2) [OF inv] in blast)+
qed

text \<open>
  What the vote stack holds when the nodes of \<open>Z\<close> have been processed: one entry for
  each of them with enough votes below it, ancestors before descendants, each with
  the votes for every child and its descendants.
\<close>

definition stack_spec :: "(ava_id \<Rightarrow> blk) \<Rightarrow> ava_id \<Rightarrow> ('u, 'b) blocks \<Rightarrow> nat \<Rightarrow> ava_id multiset \<Rightarrow> ava_id set
    \<Rightarrow> votes list \<Rightarrow> bool" where
  "stack_spec U r bs a M Z stack \<longleftrightarrow>
     vo_parent_id ` set stack = {p \<in> Z. a \<le> desc U M p}
     \<and> sorted_wrt (\<lambda>v w. \<not> below U (vo_parent_id w) (vo_parent_id v)) stack
     \<and> (\<forall>v \<in> set stack. bag_wf (vo_votes v)
          \<and> (\<forall>c. bag_count (vo_votes v) c = (if c \<in> kids U r bs (vo_parent_id v) then sub U M c else 0)))"

definition pinv :: "(ava_id \<Rightarrow> blk) \<Rightarrow> ('u, 'b) topological \<Rightarrow> ava_id multiset \<Rightarrow> ava_id set
    \<Rightarrow> kahn \<times> votes list \<Rightarrow> bool" where
  "pinv U s M Z st \<longleftrightarrow>
     kinv U (tp_last_accepted_id s) (tp_blocks s) (pushed U M Z) {} Z (fst st)
     \<and> Z \<subseteq> dom (bt_get (fst (fst st)))
     \<and> (\<forall>q \<in> dom (bt_get (fst (fst st))). q \<noteq> tp_last_accepted_id s \<longrightarrow> par U q \<in> Z \<longrightarrow> q \<in> Z)
     \<and> stack_spec U (tp_last_accepted_id s) (tp_blocks s) (p_alpha_preference (tp_params s)) M Z (snd st)"

text \<open>A processed node has no unprocessed node below it.\<close>

lemma processed_below:
  assumes rt: "rooted U r h bs" and dom: "N \<subseteq> ids_of bs" "\<And>q. q \<in> N \<Longrightarrow> q \<noteq> r \<Longrightarrow> par U q \<in> N"
    and closed: "\<And>q. q \<in> N \<Longrightarrow> q \<noteq> r \<Longrightarrow> par U q \<in> Z \<Longrightarrow> q \<in> Z" and p: "p \<in> Z" "p \<in> N"
  shows "q \<in> N \<Longrightarrow> below U p q \<Longrightarrow> q \<in> Z"
proof (induction "b_height (U q)" arbitrary: q rule: less_induct)
  case less
  show ?case
  proof (cases "p = q")
    case False
    have q: "q \<in> ids_of bs" using dom(1) less.prems(1) by blast
    have "p \<in> ids_of bs" using p(2) dom(1) by blast
    then have qr: "q \<noteq> r" using below_antisym [of U p r] rootedD(4) [OF rt] less.prems(2) False by auto
    have "par U q \<in> Z"
      using less.hyps [of "par U q"] dom(2) [OF less.prems(1) qr] rooted_height [OF rt q qr]
        below_up [OF rt q qr less.prems(2) False] by simp
    then show ?thesis by (rule closed [OF less.prems(1) qr])
  qed (use p in simp)
qed

lemma stack_spec_skip:
  assumes "stack_spec U r bs a M Z stack" "\<not> a \<le> desc U M i"
  shows "stack_spec U r bs a M (insert i Z) stack"
proof -
  have "{p \<in> insert i Z. a \<le> desc U M p} = {p \<in> Z. a \<le> desc U M p}" using assms(2) by blast
  with assms(1) show ?thesis unfolding stack_spec_def by simp
qed

lemma stack_spec_push:
  assumes st: "stack_spec U r bs a M Z stack" and i: "a \<le> desc U M i" "\<And>p. p \<in> Z \<Longrightarrow> \<not> below U p i"
    and b: "bag_wf b" "\<And>c. bag_count b c = (if c \<in> kids U r bs i then sub U M c else 0)"
  shows "stack_spec U r bs a M (insert i Z) (\<lparr>vo_parent_id = i, vo_votes = b\<rparr> # stack)"
proof -
  have im: "vo_parent_id ` set stack = {p \<in> Z. a \<le> desc U M p}" using st by (simp add: stack_spec_def)
  then have "vo_parent_id ` set (\<lparr>vo_parent_id = i, vo_votes = b\<rparr> # stack) = {p \<in> insert i Z. a \<le> desc U M p}"
    using i(1) by auto
  moreover have "\<not> below U (vo_parent_id w) i" if "w \<in> set stack" for w
    using i(2) [of "vo_parent_id w"] im that by blast
  ultimately show ?thesis using st b by (simp add: stack_spec_def)
qed

lemma push_step_inv:
  fixes s :: "('u, 'b) topological"
  defines "r \<equiv> tp_last_accepted_id s" and "bs \<equiv> tp_blocks s"
  assumes rt: "rooted U r (tp_last_accepted_height s) bs" and len: "length bs \<le> nat i64_max"
    and M: "set_mset M \<subseteq> ids_of bs - {r}"
    and inv: "pinv U s M Z ((kn, leaves), stack)" and i: "i \<in> set leaves"
  shows "pinv U s M (insert i Z) (push_step s i ((kn, bs_remove i leaves), stack))"
proof -
  note kv = inv [unfolded pinv_def fst_conv snd_conv, folded r_def bs_def]
  note ki = kv [THEN conjunct1]
  have closed: "q \<in> Z" if "q \<in> dom (bt_get kn)" "q \<noteq> r" "par U q \<in> Z" for q using kv that by blast
  from i kinvD(6) [OF ki] obtain k where k: "bt_get kn i = Some k" "i \<notin> Z" "kn_in_degree k = 0" by blast
  note leaf = leaf_votes [OF rt ki M k]
  let ?a = "p_alpha_preference (tp_params s)"
  have above: "\<not> below U p i" if "p \<in> Z" for p
    using processed_below [OF rt kinvD(1) [OF ki] _ closed that, of i] kinvD(2) [OF ki] kv that k(1,2) by blast
  define kn1 where "kn1 = (if desc U M i \<ge> ?a then bt_insert i (k\<lparr>kn_votes := bag_new\<rparr>) kn else kn)"
  define stack1 where "stack1 = (if desc U M i \<ge> ?a then \<lparr>vo_parent_id = i, vo_votes = kn_votes k\<rparr> # stack else stack)"
  define k1 where "k1 = (if desc U M i \<ge> ?a then k\<lparr>kn_votes := bag_new\<rparr> else k)"
  have kn1: "bt_get kn1 = (bt_get kn)(i \<mapsto> k1)"
    using k(1) by (auto simp: kn1_def k1_def map_simps fun_eq_iff)
  have vl: "(case bt_get kn i of None \<Rightarrow> 0 | Some k \<Rightarrow> bag_len (kn_votes k)) = desc U M i" using k(1) leaf(3) by simp
  have st1: "(if ?a \<le> desc U M i then (case bt_get kn i of None \<Rightarrow> (kn, stack)
      | Some k \<Rightarrow> (bt_insert i (k\<lparr>kn_votes := bag_new\<rparr>) kn, \<lparr>vo_parent_id = i, vo_votes = kn_votes k\<rparr> # stack))
      else (kn, stack)) = (kn1, stack1)"
    using k(1) by (simp add: kn1_def stack1_def)
  note step = push_step_def [of s i "((kn, bs_remove i leaves), stack)", unfolded Let_def prod.case vl st1]
  have spec: "stack_spec U r bs ?a M (insert i Z) stack1"
    using stack_spec_push [OF _ _ above leaf(1,2), of ?a] stack_spec_skip [of U r bs ?a M Z stack i] kv
    by (simp add: stack1_def)
  from kinvD(1) [OF ki] k(1) obtain n where n: "bt_get bs i = Some n" by blast
  have N1: "dom (bt_get kn1) = dom (bt_get kn)" unfolding kn1 using k(1) by (auto split: if_splits)
  have cl1: "q \<in> insert i Z" if "q \<in> dom (bt_get kn)" "q \<noteq> r" "par U q \<in> insert i Z" for q
    using that closed [of q] leaf(4) [of q] kinvD(1) [OF ki] by (auto simp: kids_def)
  show ?thesis
  proof (cases "i = r")
    case True
    with rootedD(2) [OF rt n] have "sm_decided (tp_last_accepted_height s) n" by simp
    then have "push_step s i ((kn, bs_remove i leaves), stack) = ((kn1, bs_remove i leaves), stack1)"
      using n by (simp add: step bs_def)
    moreover have "kinv U r bs (pushed U M (insert i Z)) {} (insert i Z) (kn1, bs_remove i leaves)"
      unfolding True by (rule kinv_done_root [OF ki _ kn1 [unfolded True]]) (use k(1) True in blast)
    ultimately show ?thesis
      using spec cl1 N1 k(1) kv unfolding pinv_def fst_conv snd_conv r_def [symmetric] bs_def [symmetric] by auto
  next
    case False
    with rootedD(2,3) [OF rt n] have nd: "\<not> sm_decided (tp_last_accepted_height s) n" "sm_blk n = Some (U i)" by auto
    from kinvD(2) [OF ki _ _ False] k(1) obtain kp where kp: "bt_get kn (par U i) = Some kp" by blast
    have iD: "i \<in> ids_of bs" using n by blast
    have pi: "par U i \<noteq> i" by (rule rooted_par_neq [OF rt iD False])
    define k' where "k' = kp\<lparr>kn_in_degree := sat_sub_i64 (kn_in_degree kp) 1,
      kn_votes := bag_add_count i (desc U M i) (kn_votes kp)\<rparr>"
    let ?ls = "if kn_in_degree k' = 0 then bs_insert (par U i) (bs_remove i leaves) else bs_remove i leaves"
    have "kahn_entry kn1 (par U i) = kp" using kp pi by (simp add: kahn_entry_def kn1)
    then have "push_step s i ((kn, bs_remove i leaves), stack) = ((bt_insert (par U i) k' kn1, ?ls), stack1)"
      using n nd by (simp add: step bs_def k'_def)
    moreover have "kinv U r bs (pushed U M (insert i Z)) {} (insert i Z) (bt_insert (par U i) k' kn1, ?ls)"
      by (rule kinv_done_node [OF ki rt len _ k(2) False _ kn1 kp k'_def]) (use k(1) closed [of i] False in blast)+
    moreover have "dom (bt_get (bt_insert (par U i) k' kn1)) = dom (bt_get kn)"
      unfolding dom_bt_insert N1 using kp by auto
    ultimately show ?thesis
      using spec cl1 k(1) kv unfolding pinv_def fst_conv snd_conv r_def [symmetric] bs_def [symmetric] by auto
  qed
qed

lemma no_leaf_no_node:
  assumes rt: "rooted U r h bs" and inv: "kinv U r bs cnt {} Z (kn, [])"
  shows "dom (bt_get kn) \<subseteq> Z"
proof (rule ccontr)
  let ?S = "dom (bt_get kn) - Z"
  let ?H = "(\<lambda>q. b_height (U q)) ` ?S"
  assume "\<not> dom (bt_get kn) \<subseteq> Z"
  then have H: "finite ?H" "?H \<noteq> {}" by (auto simp: finite_dom_map_of)
  from Max_in [OF H] obtain q where q: "q \<in> ?S" "Max ?H = b_height (U q)" by blast
  have high: "b_height (U p) \<le> b_height (U q)" if "p \<in> ?S" for p
    using Max_ge [OF H(1), of "b_height (U p)"] that q(2) by simp
  from q(1) obtain k where k: "bt_get kn q = Some k" "q \<notin> Z" by blast
  have "b_height (U c) = Suc (b_height (U q))" if "c \<in> waits U r (dom (bt_get kn) - {} - Z) q" for c
    using that rooted_height [OF rt, of c] kinvD(1) [OF inv] by (auto simp: waits_def)
  moreover have "b_height (U c) \<le> b_height (U q)" if "c \<in> waits U r (dom (bt_get kn) - {} - Z) q" for c
    using that high [of c] by (simp add: waits_def)
  ultimately have "waits U r (dom (bt_get kn) - {} - Z) q = {}" by fastforce
  with kinvD(3) [OF inv k] have "kn_in_degree k = 0" by simp
  with kinvD(6) [OF inv] k show False by auto
qed

lemma push_votes_inv:
  fixes s :: "('u, 'b) topological"
  defines "r \<equiv> tp_last_accepted_id s" and "bs \<equiv> tp_blocks s"
  assumes rt: "rooted U r (tp_last_accepted_height s) bs" and len: "length bs \<le> nat i64_max"
    and M: "set_mset M \<subseteq> ids_of bs - {r}" and a: "0 < p_alpha_preference (tp_params s)"
  shows "pinv U s M Z ((kn, leaves), stack) \<Longrightarrow>
    stack_spec U r bs (p_alpha_preference (tp_params s)) M (ids_of bs) (push_votes s ((kn, leaves), stack))"
  using rt len M a unfolding r_def bs_def
proof (induction s "((kn, leaves), stack)" arbitrary: Z kn leaves stack rule: push_votes.induct)
  case (1 s kn stack)
  let ?r = "tp_last_accepted_id s" and ?bs = "tp_blocks s" and ?a = "p_alpha_preference (tp_params s)"
  note inv = "1.prems"(1) [unfolded pinv_def fst_conv snd_conv]
  note ki = inv [THEN conjunct1]
  have "{p \<in> ids_of ?bs. ?a \<le> desc U M p} = {p \<in> Z. ?a \<le> desc U M p}"
  proof (intro equalityI subsetI)
    fix p assume p: "p \<in> {p \<in> ids_of ?bs. ?a \<le> desc U M p}"
    with "1.prems"(5) have "0 < desc U M p" by simp
    with pushed_desc [OF "1.prems"(2) ki "1.prems"(4)] p no_leaf_no_node [OF "1.prems"(2) ki]
    show "p \<in> {p \<in> Z. ?a \<le> desc U M p}" by blast
  qed (use inv kinvD(1) [OF ki] in blast)
  with inv show ?case unfolding stack_spec_def by simp
next
  case (2 s kn i leaves stack)
  obtain kn' leaves' stack' where
    eq: "push_step s i ((kn, bs_remove i (i # leaves)), stack) = ((kn', leaves'), stack')" by (metis surj_pair)
  have "pinv U s M (insert i Z) ((kn', leaves'), stack')"
    using push_step_inv [OF "2.prems"(2,3,4,1), of i] eq by simp
  from "2.hyps" [OF eq this "2.prems"(2-5)] eq show ?case by simp
qed

text \<open>The votes for processing blocks.\<close>

definition live_votes :: "('u, 'b) topological \<Rightarrow> ava_id bag \<Rightarrow> ava_id multiset" where
  "live_votes s votes = {#v \<in># bag_mset votes. topo_processing s v#}"

theorem push_votes_spec:
  fixes s :: "('u, 'b) topological"
  assumes rt: "rooted U (tp_last_accepted_id s) (tp_last_accepted_height s) (tp_blocks s)"
    and len: "length (tp_blocks s) \<le> nat i64_max" and wf: "bag_wf votes"
    and a: "0 < p_alpha_preference (tp_params s)"
  shows "stack_spec U (tp_last_accepted_id s) (tp_blocks s) (p_alpha_preference (tp_params s)) (live_votes s votes)
    (ids_of (tp_blocks s)) (push_votes s (calculate_in_degree s votes, []))"
proof -
  let ?r = "tp_last_accepted_id s" and ?bs = "tp_blocks s" and ?M = "live_votes s votes"
  obtain kn leaves where kn: "calculate_in_degree s votes = (kn, leaves)" by fastforce
  have M: "set_mset ?M \<subseteq> ids_of ?bs - {?r}"
    by (auto simp: live_votes_def topo_processing_def split: if_splits)
  have "kinv U ?r ?bs (pushed U ?M {}) {} {} (kn, leaves)"
    by (rule kinv_cong [OF _ calculate_in_degree_inv [OF rt len wf, unfolded kn]])
      (auto simp: pushed_def live_votes_def topo_processing_def count_bag_mset [OF wf])
  then have "pinv U s ?M {} ((kn, leaves), [])" by (simp add: pinv_def stack_spec_def)
  from push_votes_inv [OF rt len M a this] show ?thesis by (simp only: kn)
qed

section \<open>The polled branch\<close>

lemma desc_mono:
  assumes "below U p q"
  shows "desc U M q \<le> desc U M p"
proof -
  have "below U p v \<and> p \<noteq> v" if "below U q v \<and> q \<noteq> v" for v
    using that assms below_trans [of U q v p] below_antisym [of U q v] by blast
  then show ?thesis unfolding desc_def by (intro size_mset_mono) (auto simp: subseteq_mset_def)
qed

lemma desc_apart:
  assumes "\<not> below U p q" "\<not> below U q p"
  shows "desc U M p + desc U M q \<le> size M"
proof -
  have "{#v \<in># M. below U p v \<and> p \<noteq> v#} + {#v \<in># M. below U q v \<and> q \<noteq> v#} \<subseteq># M"
    using below_comparable [of U p _ q] assms by (auto simp: subseteq_mset_def)
  from size_mset_mono [OF this] show ?thesis by (simp add: desc_def)
qed

text \<open>
  With fewer votes than twice the threshold, the stack is one branch from the
  root downwards.
\<close>

lemma stack_spec_branch:
  assumes rt: "rooted U r h bs" and st: "stack_spec U r bs a M (ids_of bs) stack"
    and a: "size M < 2 * a"
  shows "stack \<noteq> [] \<Longrightarrow> vo_parent_id (hd stack) = r"
    "successively (\<lambda>v w. vo_parent_id w \<noteq> r \<and> par U (vo_parent_id w) = vo_parent_id v) stack"
proof -
  let ?id = vo_parent_id
  have ids: "?id ` set stack = {p \<in> ids_of bs. a \<le> desc U M p}"
    and srt: "sorted_wrt (\<lambda>v w. \<not> below U (?id w) (?id v)) stack" using st by (auto simp: stack_spec_def)
  have big: "a \<le> desc U M (?id v)" if "v \<in> set stack" for v using ids that by blast
  have "below U (?id v) (?id w) \<and> ?id v \<noteq> ?id w"
    if "v \<in> set stack" "w \<in> set stack" "\<not> below U (?id w) (?id v)" for v w
  proof (rule ccontr)
    assume n: "\<not> (below U (?id v) (?id w) \<and> ?id v \<noteq> ?id w)"
    have "?id v \<noteq> ?id w" using that(3) below_refl by metis
    with n desc_apart [of U "?id v" "?id w" M] that(3) big [OF that(1)] big [OF that(2)] a show False by simp
  qed
  then have down: "sorted_wrt (\<lambda>v w. below U (?id v) (?id w) \<and> ?id v \<noteq> ?id w) stack"
    by (rule sorted_wrt_mono_rel [OF _ srt])
  have up: "\<exists>u \<in> set stack. ?id u = par U p \<and> par U p \<noteq> p \<and> \<not> below U p (par U p)"
    if "v \<in> set stack" "p = ?id v" "p \<noteq> r" for v p
  proof -
    from that ids have p: "p \<in> ids_of bs" "a \<le> desc U M p" by blast+
    note pp = rootedD(5) [OF rt p(1) that(3)] and hp = rooted_height [OF rt p(1) that(3)]
    have "below U (par U p) p" using below_down(1) [OF rt p(1) that(3)] below_refl by blast
    from desc_mono [OF this, of M] p(2) pp have "par U p \<in> ?id ` set stack" unfolding ids by simp
    moreover have "\<not> below U p (par U p)" using below_height [of U p "par U p"] hp by auto
    ultimately show ?thesis using hp by force
  qed
  show "?id (hd stack) = r" if "stack \<noteq> []"
  proof (rule ccontr)
    assume "?id (hd stack) \<noteq> r"
    with up [of "hd stack"] that obtain u where u: "u \<in> set stack" "?id u = par U (?id (hd stack))"
      "par U (?id (hd stack)) \<noteq> ?id (hd stack)" "\<not> below U (?id (hd stack)) (par U (?id (hd stack)))" by auto
    with that down show False by (cases stack) auto
  qed
  show "successively (\<lambda>v w. ?id w \<noteq> r \<and> par U (?id w) = ?id v) stack"
    unfolding successively_conv_nth
  proof (intro allI impI)
    fix i assume i: "Suc i < length stack"
    let ?p = "?id (stack ! i)" and ?q = "?id (stack ! Suc i)"
    have lt: "below U (?id (stack ! m)) (?id (stack ! n)) \<and> ?id (stack ! m) \<noteq> ?id (stack ! n)"
      if "m < n" "n < length stack" for m n
      using sorted_wrt_nth_less [OF down that] .
    have q: "stack ! Suc i \<in> set stack" using i by simp
    have qD: "?p \<in> ids_of bs" "?q \<in> ids_of bs" using ids i by force+
    have qr: "?q \<noteq> r"
      using lt [of i "Suc i"] i rootedD(4) [OF rt qD(1)] below_antisym by force
    from up [OF q refl qr] obtain j where j: "j < length stack" "?id (stack ! j) = par U ?q"
      "par U ?q \<noteq> ?q" "\<not> below U ?q (par U ?q)" by (auto simp: in_set_conv_nth)
    from below_up [OF rt qD(2) qr, of ?p] lt [of i "Suc i"] i have pq: "below U ?p (par U ?q)" by simp
    have "j = i"
    proof (rule ccontr)
      assume "j \<noteq> i"
      then consider "j < i" | "j = Suc i" | "Suc i < j" by linarith
      then show False
      proof cases
        case 1
        with lt [of j i] i j(2) pq below_antisym show False by force
      qed (use j lt [of "Suc i" j] in auto)
    qed
    with j(2) qr show "?q \<noteq> r \<and> par U ?q = ?p" by simp
  qed
qed

end
