(* ===== verification/Ava_Topo_Run.thy ===== *)
theory Ava_Topo_Run
  imports Ava_Topo_Kahn
begin

text \<open>
  Runs of Snowman consensus: any sequence of issued blocks and polls, for any VM
  and any votes. Every run returns, fails only when the VM fails, accepts one
  chain and rejects only what conflicts with it.
\<close>

section \<open>One poll\<close>

context snow_factory
begin

lemma walks_return:
  assumes inv: "topo_inv U s"
  shows "\<exists>ids hs pref ids' hs'. walk_ancestors (tp_last_accepted_height s) (tp_blocks s) c [] [] = Some (ids, hs)
    \<and> walk_preferred F (tp_blocks s) c c ids hs = Some (pref, ids', hs')"
proof (cases "bt_get (tp_blocks s) c")
  case None
  then show ?thesis by (subst walk_ancestors.simps, subst walk_preferred.simps) simp
next
  case (Some n)
  from walk_ancestors_eq [OF inv Some, of "[]" "[]"] obtain ids hs where
    "walk_ancestors (tp_last_accepted_height s) (tp_blocks s) c [] [] = Some (ids, hs)" by blast
  with walk_preferred_eq [OF inv Some, of ids hs] show ?thesis by blast
qed

lemma topo_inv_cong:
  assumes "topo_inv U s" "tp_blocks s' = tp_blocks s" "tp_params s' = tp_params s"
    "tp_last_accepted_id s' = tp_last_accepted_id s" "tp_last_accepted_height s' = tp_last_accepted_height s"
  shows "topo_inv U s'"
  using assms(1) unfolding topo_inv_def assms(2-5) .

lemma log_inv_cong:
  fixes s s' :: "('u, 'b) topological"
  assumes "log_inv U L0 s" "tp_log s' = tp_log s" "tp_last_accepted_id s' = tp_last_accepted_id s"
  shows "log_inv U L0 s'"
  using assms(1) unfolding log_inv_def assms(2,3) .

definition poll_stack :: "('u, 'b) topological \<Rightarrow> ava_id bag \<Rightarrow> votes list" where
  "poll_stack s votes = (if bag_len votes \<ge> p_alpha_preference (tp_params s)
     then push_votes s (calculate_in_degree s votes, []) else [])"

lemma poll_stack_ok: "topo_inv U s \<Longrightarrow> stack_ok F s (poll_stack s votes)"
proof -
  assume inv: "topo_inv U s"
  obtain kn leaves where "calculate_in_degree s votes = (kn, leaves)" by fastforce
  with push_votes_ok [OF inv, of kn "[]" leaves] calculate_in_degree_ok [OF inv, of votes]
  show ?thesis by (simp add: poll_stack_def stack_ok_def)
qed

lemma topo_vote_inv:
  assumes "topo_inv U s" "log_inv U L0 s" "stack_ok F s stack"
  obtains s' p where "topo_vote vm F s stack = (s', Inr p)" "topo_inv U s'" "log_inv U L0 s'"
  | s' e where "topo_vote vm F s stack = (s', Inl e)" "vm_fails vm e" "log_ok U L0 (tp_log s')"
proof (cases "stack = []")
  case True
  let ?s = "modify_block (tp_last_accepted_id s) (\<lambda>n. n\<lparr>sm_should_falter := True\<rparr>) s"
  have "same_shape s ?s" by (simp add: modify_block_shape)
  then have "log_inv U L0 ?s" using log_inv_shape assms(2) by blast
  moreover have "topo_inv U ?s"
    by (rule topo_inv_modify [OF assms(1)])
      (auto intro: node_ok_falter nodes_okD(2) [OF topo_invD(4) [OF assms(1)]])
  ultimately show ?thesis using True that(1) [of ?s "tp_preference s"] by (simp add: topo_vote_def)
next
  case False
  show ?thesis
    by (rule vote_loop_inv [OF assms, of vm "tp_last_accepted_id s" True])
      (use False that in \<open>simp_all add: topo_vote_def\<close>)
qed

lemma record_poll_inv:
  assumes inv: "topo_inv U s" and li: "log_inv U L0 s"
  obtains s' where "topo_record_poll vm F s votes = Some (s', Inr ())" "topo_inv U s'" "log_inv U L0 s'"
  | s' e where "topo_record_poll vm F s votes = Some (s', Inl e)" "vm_fails vm e" "log_ok U L0 (tp_log s')"
proof -
  let ?s = "s\<lparr>tp_poll_number := sat_add64 (tp_poll_number s) 1\<rparr>"
  have inv1: "topo_inv U ?s" using topo_inv_cong [OF inv, of ?s] by simp
  have li1: "log_inv U L0 ?s" using log_inv_cong [OF li, of ?s] by simp
  have unf: "topo_record_poll vm F s votes = (case topo_vote vm F ?s (poll_stack ?s votes) of
        (s1, Inl e) \<Rightarrow> Some (s1, Inl e)
      | (s1, Inr preferred) \<Rightarrow>
          if preferred \<in> set (tp_preferred_ids s1) then Some (s1, Inr ())
          else (case walk_ancestors (tp_last_accepted_height s1) (tp_blocks s1) preferred [] [] of
              None \<Rightarrow> None
            | Some (ids, heights) \<Rightarrow>
                (case walk_preferred F (tp_blocks s1) preferred preferred ids heights of
                   None \<Rightarrow> None
                 | Some (pref, ids', heights') \<Rightarrow>
                     Some (s1\<lparr>tp_preference := pref, tp_preferred_ids := ids',
                              tp_preferred_heights := heights'\<rparr>, Inr ()))))"
    unfolding topo_record_poll_def poll_stack_def Let_def ..
  show ?thesis
  proof (rule topo_vote_inv [OF inv1 li1 poll_stack_ok [OF inv1], of vm votes])
    fix s' e assume "topo_vote vm F ?s (poll_stack ?s votes) = (s', Inl e)" "vm_fails vm e" "log_ok U L0 (tp_log s')"
    then show ?thesis using unf that(2) [of s' e] by simp
  next
    fix s1 p assume v: "topo_vote vm F ?s (poll_stack ?s votes) = (s1, Inr p)" "topo_inv U s1" "log_inv U L0 s1"
    show ?thesis
    proof (cases "p \<in> set (tp_preferred_ids s1)")
      case True
      with v unf show ?thesis by (intro that(1) [of s1]) simp_all
    next
      case False
      from walks_return [OF v(2), of p] obtain ids hs pref ids' hs' where
        "walk_ancestors (tp_last_accepted_height s1) (tp_blocks s1) p [] [] = Some (ids, hs)"
        "walk_preferred F (tp_blocks s1) p p ids hs = Some (pref, ids', hs')" by blast
      with False v(1) unf have "topo_record_poll vm F s votes
          = Some (s1\<lparr>tp_preference := pref, tp_preferred_ids := ids', tp_preferred_heights := hs'\<rparr>, Inr ())"
        by simp
      then show ?thesis
        by (rule that(1)) (use topo_inv_cong [OF v(2)] log_inv_cong [OF v(3)] in simp_all)
    qed
  qed
qed

end

section \<open>Runs\<close>

datatype topo_op = Issue blk | PollOf "ava_id list"

text \<open>
  A failed \<^verbatim>\<open>add\<close> changes nothing and is reported to the issuer; a failed poll is
  fatal to the chain.
\<close>

fun topo_run :: "vm \<Rightarrow> ('u, 'b) factory \<Rightarrow> ('u, 'b) topological \<Rightarrow> topo_op list
    \<Rightarrow> (('u, 'b) topological \<times> (top_error + unit)) option" where
  "topo_run vm F s [] = Some (s, Inr ())"
| "topo_run vm F s (Issue b # ops) = topo_run vm F (fst (topo_add F s b)) ops"
| "topo_run vm F s (PollOf vs # ops) = (case topo_record_poll vm F s (bag_of vs) of
     None \<Rightarrow> None
   | Some (s', Inl e) \<Rightarrow> Some (s', Inl e)
   | Some (s', Inr _) \<Rightarrow> topo_run vm F s' ops)"

definition issues_ok :: "(ava_id \<Rightarrow> blk) \<Rightarrow> topo_op list \<Rightarrow> bool" where
  "issues_ok U ops \<longleftrightarrow> (\<forall>b. Issue b \<in> set ops \<longrightarrow> blk_ok U b)"

lemma issues_ok_simps [simp]:
  "issues_ok U (Issue b # ops) \<longleftrightarrow> blk_ok U b \<and> issues_ok U ops"
  "issues_ok U (PollOf vs # ops) \<longleftrightarrow> issues_ok U ops"
  "issues_ok U []"
  by (auto simp: issues_ok_def)

context snow_factory
begin

lemma topo_run_inv:
  assumes "topo_inv U s" "log_inv U L0 s" "issues_ok U ops"
  obtains s' where "topo_run vm F s ops = Some (s', Inr ())" "topo_inv U s'" "log_inv U L0 s'"
  | s' e where "topo_run vm F s ops = Some (s', Inl e)" "vm_fails vm e" "log_ok U L0 (tp_log s')"
  using assms
proof (induction ops arbitrary: s thesis)
  case Nil
  show ?case by (rule Nil.prems(1)) (use Nil.prems in simp_all)
next
  case (Cons op ops)
  show ?case
  proof (cases op)
    case (Issue b)
    obtain s1 r where r: "topo_add F s b = (s1, r)" by fastforce
    from topo_inv_add [OF Cons.prems(3) _ r] Cons.prems(5) Issue
    have "topo_inv U s1" "tp_log s1 = tp_log s" "tp_last_accepted_id s1 = tp_last_accepted_id s" by auto
    then show ?thesis
      using Cons.IH [of s1] log_inv_cong [OF Cons.prems(4)] Cons.prems(1,2,5) Issue r by auto
  next
    case (PollOf vs)
    show ?thesis
    proof (rule record_poll_inv [OF Cons.prems(3,4), of vm "bag_of vs"])
      fix s' e assume "topo_record_poll vm F s (bag_of vs) = Some (s', Inl e)" "vm_fails vm e" "log_ok U L0 (tp_log s')"
      then show ?thesis using Cons.prems(2) [of s' e] PollOf by simp
    next
      fix s1 assume s1: "topo_record_poll vm F s (bag_of vs) = Some (s1, Inr ())" "topo_inv U s1" "log_inv U L0 s1"
      show ?thesis
        by (rule Cons.IH [OF _ _ s1(2,3)]) (use s1(1) Cons.prems(1,2,5) PollOf in simp_all)
    qed
  qed
qed

lemma log_inv_new:
  assumes "topo_new P l h = Inr s"
  shows "log_inv U l s"
  using assms by (auto simp: topo_new_def log_inv_def log_ok_def log_tip_def split: sum.splits)

lemma run_from_new:
  assumes "params_ok P" "topo_new P l h = Inr s0" "h = b_height (U l)" "issues_ok U ops"
  obtains s where "topo_run vm F s0 ops = Some (s, Inr ())" "topo_inv U s" "log_inv U l s" "log_ok U l (tp_log s)"
  | s e where "topo_run vm F s0 ops = Some (s, Inl e)" "vm_fails vm e" "log_ok U l (tp_log s)"
proof (rule topo_run_inv [OF topo_inv_new [where U = U, OF assms(1-3)] log_inv_new [OF assms(2)] assms(4), of vm])
  fix s assume "topo_run vm F s0 ops = Some (s, Inr ())" "topo_inv U s" "log_inv U l s"
  then show ?thesis using that(1) [of s] by (simp add: log_inv_def)
qed (use that(2) in blast)

end

section \<open>What a poll counts\<close>

text \<open>The votes for \<open>c\<close> and its descendants, and those for the strict descendants of \<open>p\<close>.\<close>

definition votes_for :: "(ava_id \<Rightarrow> blk) \<Rightarrow> ('u, 'b) topological \<Rightarrow> ava_id list \<Rightarrow> ava_id \<Rightarrow> nat" where
  "votes_for U s vs c = length (filter (\<lambda>v. topo_processing s v \<and> below U c v) vs)"

definition votes_below :: "(ava_id \<Rightarrow> blk) \<Rightarrow> ('u, 'b) topological \<Rightarrow> ava_id list \<Rightarrow> ava_id \<Rightarrow> nat" where
  "votes_below U s vs p = length (filter (\<lambda>v. topo_processing s v \<and> below U p v \<and> p \<noteq> v) vs)"

lemma live_votes_of:
  "sub U (live_votes s (bag_of vs)) c = votes_for U s vs c"
  "desc U (live_votes s (bag_of vs)) p = votes_below U s vs p"
  "size (live_votes s (bag_of vs)) \<le> length vs"
  by (simp_all add: sub_def desc_def votes_for_def votes_below_def live_votes_def bag_mset_of
      filter_filter_mset size_mset [symmetric] mset_filter del: size_mset)

context snow_factory
begin

lemma kids_get_parent:
  assumes "topo_inv U s"
  shows "c \<in> kids U (tp_last_accepted_id s) (tp_blocks s) p
    \<longleftrightarrow> topo_processing s c \<and> topo_get_parent s c = Some p"
  using nodes_okD(3) [OF topo_invD(4) [OF assms], of c]
  by (auto simp: kids_def topo_processing_def topo_get_parent_def split: option.splits)

end

lemma params_ok_alpha: "params_ok P \<Longrightarrow> 0 < p_alpha_preference P \<and> p_k P < 2 * p_alpha_preference P"
  by (auto simp: params_ok_def params_verify_def split: if_splits)

section \<open>Properties of runs\<close>

text \<open>
  C4. Snowman consensus always returns. Whatever blocks are issued and whatever
  votes arrive, no loop of \<^verbatim>\<open>record_poll\<close> runs forever, and the only error a poll
  can end with is one the VM or the block acceptor returned: the internal
  \<^verbatim>\<open>UnknownParentBlock\<close> branches of \<^verbatim>\<open>accept_preferred_child\<close> are unreachable.
\<close>

theorem snowman_returns:
  assumes "params_ok P" "topo_new P l h = Inr s0" "h = b_height (U l)" "issues_ok U ops"
  shows "\<exists>s r. topo_run vm snowball_factory s0 ops = Some (s, r) \<and> (\<forall>e. r = Inl e \<longrightarrow> vm_fails vm e)"
  by (rule sbf.run_from_new [OF assms, of vm]) auto

text \<open>
  A genesis with two conflicting children and one grandchild, the block universe
  of the witnesses.
\<close>

definition demo_blk :: "u8 \<Rightarrow> u8 \<Rightarrow> nat \<Rightarrow> blk" where
  "demo_blk i p h = \<lparr>b_id = byte_id i, b_parent = byte_id p, b_height = h, b_bytes = [i]\<rparr>"

definition demo_U :: "ava_id \<Rightarrow> blk" where
  "demo_U i = (if i = byte_id 1 then demo_blk 1 0 1 else if i = byte_id 2 then demo_blk 2 0 1
     else if i = byte_id 3 then demo_blk 3 1 2 else demo_blk 0 0 0)"

definition demo_ops :: "topo_op list" where
  "demo_ops = [Issue (demo_blk 1 0 1), Issue (demo_blk 2 0 1), Issue (demo_blk 3 1 2), PollOf [byte_id 3]]"

definition demo_start :: "(unary_snowball, binary_snowball) topological" where
  "demo_start = \<lparr>tp_poll_number = 0, tp_params = one_vote, tp_last_accepted_id = byte_id 0,
     tp_last_accepted_height = 0, tp_blocks = [(byte_id 0, sm_genesis)],
     tp_preferred_ids = [], tp_preferred_heights = [], tp_preference = byte_id 0, tp_log = []\<rparr>"

lemma demo_ok:
  "topo_new one_vote (byte_id 0) 0 = Inr demo_start" "0 = b_height (demo_U (byte_id 0))" "issues_ok demo_U demo_ops"
  using params_ok_one_vote
  by (simp_all add: topo_new_def params_ok_def demo_start_def demo_U_def demo_blk_def demo_ops_def blk_ok_def
      byte_id_inject)

lemma demo_returns:
  "\<exists>s. topo_run (\<lambda>_ _. None) snowball_factory demo_start demo_ops = Some (s, Inr ())"
  by (rule sbf.run_from_new [OF params_ok_one_vote demo_ok, of "\<lambda>_ _. None"]) (auto simp: vm_fails_def)

theorem snowman_returns_witness:
  "\<exists>s. topo_run (\<lambda>_ _. None) snowball_factory demo_start demo_ops = Some (s, Inr ())"
proof -
  obtain s r where "topo_run (\<lambda>_ _. None) snowball_factory demo_start demo_ops = Some (s, r)"
    "\<forall>e. r = Inl e \<longrightarrow> vm_fails (\<lambda>_ _. None) e"
    using snowman_returns [OF params_ok_one_vote demo_ok, of "\<lambda>_ _. None"] by blast
  then show ?thesis by (cases r) (auto simp: vm_fails_def)
qed

text \<open>
  C1. The accepted blocks are one chain. In order of acceptance each block is the
  child of the one before, starting from the block consensus was created on,
  heights rise by one, and after an undisturbed run the last accepted block is
  the tip of that chain. This holds for arbitrary votes, also for votes no
  honest network produces.
\<close>

theorem snowman_accepts_one_chain:
  assumes "params_ok P" "topo_new P l h = Inr s0" "h = b_height (U l)" "issues_ok U ops"
    "topo_run vm snowball_factory s0 ops = Some (s, r)"
  shows "parent_chain l h (accepted (tp_log s))
    \<and> (r = Inr () \<longrightarrow> topo_last_accepted s = (log_tip l (tp_log s), h + length (accepted (tp_log s))))"
proof (rule sbf.run_from_new [OF assms(1-4), of vm])
  fix s1 assume "topo_run vm snowball_factory s0 ops = Some (s1, Inr ())" "sbf.topo_inv P U s1" "log_inv U l s1"
  with assms(3,5) sbf.topo_invD(3) [of P U s1] show ?thesis
    by (simp add: log_inv_def log_ok_def topo_last_accepted_def)
qed (use assms(3,5) in \<open>auto simp: log_ok_def\<close>)

theorem snowman_accepts_one_chain_witness:
  "\<exists>s. topo_run (\<lambda>_ _. None) snowball_factory demo_start demo_ops = Some (s, Inr ())
     \<and> parent_chain (byte_id 0) 0 (accepted (tp_log s))
     \<and> topo_last_accepted s = (log_tip (byte_id 0) (tp_log s), length (accepted (tp_log s)))"
proof -
  obtain s where s: "topo_run (\<lambda>_ _. None) snowball_factory demo_start demo_ops = Some (s, Inr ())"
    using demo_returns by blast
  from snowman_accepts_one_chain [OF params_ok_one_vote demo_ok s] s show ?thesis by auto
qed

text \<open>
  C2. Every decision is made once and is final. No block is accepted twice, rejected
  twice or both, and after an undisturbed run no decided block is processing:
  a rejected block cannot come back, because every processing block descends
  from the last accepted one.
\<close>

theorem snowman_decides_once:
  assumes "params_ok P" "topo_new P l h = Inr s0" "h = b_height (U l)" "issues_ok U ops"
    "topo_run vm snowball_factory s0 ops = Some (s, r)"
  shows "distinct (map b_id (accepted (tp_log s) @ rejected (tp_log s)))
    \<and> (r = Inr () \<longrightarrow>
        (\<forall>b \<in> set (accepted (tp_log s)) \<union> set (rejected (tp_log s)). \<not> topo_processing s (b_id b))
        \<and> (\<forall>i. topo_processing s i \<longrightarrow> below U (fst (topo_last_accepted s)) i))"
proof (rule sbf.run_from_new [OF assms(1-4), of vm])
  fix s1 assume run: "topo_run vm snowball_factory s0 ops = Some (s1, Inr ())" and inv: "sbf.topo_inv P U s1"
    and li: "log_inv U l s1"
  then have s: "s = s1" "r = Inr ()" using assms(5) by auto
  let ?L = "tp_last_accepted_id s1"
  have proc: "below U ?L i \<and> i \<noteq> ?L \<and> tp_last_accepted_height s1 < b_height (U i)" if "topo_processing s1 i" for i
  proof -
    from that obtain n where n: "bt_get (tp_blocks s1) i = Some n" "i \<noteq> ?L"
      by (auto simp: topo_processing_def split: if_splits)
    from sbf.blocks_below [OF sbf.topo_invD(4,5) [OF inv] n(1)] sbf.inv_height [OF inv n] n(2) show ?thesis by blast
  qed
  have "\<not> topo_processing s1 (b_id b)" if "b \<in> set (accepted (tp_log s1))" for b
  proof
    assume "topo_processing s1 (b_id b)"
    from proc [OF this] log_inv_accepted_height [OF li that] li that sbf.topo_invD(3) [OF inv] show False
      by (auto simp: log_inv_def)
  qed
  moreover have "\<not> topo_processing s1 (b_id b)" if "b \<in> set (rejected (tp_log s1))" for b
    using proc [of "b_id b"] li that by (auto simp: log_inv_def)
  ultimately show ?thesis
    using li proc unfolding s by (auto simp: log_inv_def log_ok_def topo_last_accepted_def)
qed (use assms(5) in \<open>auto simp: log_ok_def\<close>)

theorem snowman_decides_once_witness:
  "\<exists>s. topo_run (\<lambda>_ _. None) snowball_factory demo_start demo_ops = Some (s, Inr ())
     \<and> distinct (map b_id (accepted (tp_log s) @ rejected (tp_log s)))"
proof -
  obtain s where s: "topo_run (\<lambda>_ _. None) snowball_factory demo_start demo_ops = Some (s, Inr ())"
    using demo_returns by blast
  from snowman_decides_once [OF params_ok_one_vote demo_ok s] s show ?thesis by blast
qed

text \<open>
  C5. The calls consensus makes are in order: each block's \<^verbatim>\<open>accept\<close> directly follows
  the block acceptor's notification with the same id and bytes, and a block is
  rejected only after its parent was rejected or one of its siblings was
  accepted. Both hold for the calls made up to a VM error as well.
\<close>

theorem snowman_call_order:
  assumes "params_ok P" "topo_new P l h = Inr s0" "h = b_height (U l)" "issues_ok U ops"
    "topo_run vm snowball_factory s0 ops = Some (s, r)"
  shows "acceptor_first None (tp_log s) \<and> justified [] [] (tp_log s)"
  by (rule sbf.run_from_new [OF assms(1-4), of vm]) (use assms(5) in \<open>auto simp: log_ok_def\<close>)

theorem snowman_call_order_witness:
  "\<exists>s. topo_run (\<lambda>_ _. None) snowball_factory demo_start demo_ops = Some (s, Inr ())
     \<and> acceptor_first None (tp_log s) \<and> justified [] [] (tp_log s)"
proof -
  obtain s where s: "topo_run (\<lambda>_ _. None) snowball_factory demo_start demo_ops = Some (s, Inr ())"
    using demo_returns by blast
  from snowman_call_order [OF params_ok_one_vote demo_ok s] s show ?thesis by blast
qed

text \<open>
  C3. Votes are transitive and counted exactly. The vote stack of a poll has one
  entry for each block with at least \<^verbatim>\<open>alpha_preference\<close> votes strictly below it, and the
  entry gives every child the votes cast for it or a descendant of it: the Kahn
  propagation neither loses nor duplicates a vote, whatever the shape of the tree.
  When the poll has at most \<^verbatim>\<open>k\<close> votes, the entries are one branch that starts at
  the last accepted block.
\<close>

theorem snowman_counts_votes:
  assumes "params_ok P" "topo_new P l h = Inr s0" "h = b_height (U l)" "issues_ok U ops"
    "topo_run vm snowball_factory s0 ops = Some (s, Inr ())" "length (tp_blocks s) \<le> nat i64_max"
    "stack = push_votes s (calculate_in_degree s (bag_of vs), [])"
  shows "vo_parent_id ` set stack = {p. bt_get (tp_blocks s) p \<noteq> None \<and> p_alpha_preference P \<le> votes_below U s vs p}
    \<and> (\<forall>e \<in> set stack. \<forall>c. bag_count (vo_votes e) c =
         (if topo_processing s c \<and> topo_get_parent s c = Some (vo_parent_id e) then votes_for U s vs c else 0))
    \<and> (length vs \<le> p_k P \<longrightarrow> stack \<noteq> [] \<longrightarrow> vo_parent_id (hd stack) = fst (topo_last_accepted s))
    \<and> (length vs \<le> p_k P \<longrightarrow>
         successively (\<lambda>e f. topo_get_parent s (vo_parent_id f) = Some (vo_parent_id e)) stack)"
proof (rule sbf.run_from_new [OF assms(1-4), of vm])
  fix s1 assume run: "topo_run vm snowball_factory s0 ops = Some (s1, Inr ())" and "sbf.topo_inv P U s1"
  then have inv: "sbf.topo_inv P U s" using assms(5) by simp
  let ?r = "tp_last_accepted_id s" and ?M = "live_votes s (bag_of vs)"
  have rt: "rooted U ?r (tp_last_accepted_height s) (tp_blocks s)" by (rule sbf.rooted_inv [OF inv])
  have P: "tp_params s = P" by (rule sbf.topo_invD(2) [OF inv])
  have st: "stack_spec U ?r (tp_blocks s) (p_alpha_preference P) ?M (ids_of (tp_blocks s)) stack"
    using push_votes_spec [OF rt assms(6) bag_wf_of] params_ok_alpha [OF assms(1)] assms(7) P by simp
  have "vo_parent_id ` set stack = {p. bt_get (tp_blocks s) p \<noteq> None \<and> p_alpha_preference P \<le> votes_below U s vs p}"
    using st unfolding stack_spec_def live_votes_of by blast
  moreover have "\<forall>e \<in> set stack. \<forall>c. bag_count (vo_votes e) c =
      (if topo_processing s c \<and> topo_get_parent s c = Some (vo_parent_id e) then votes_for U s vs c else 0)"
    using st unfolding stack_spec_def live_votes_of sbf.kids_get_parent [OF inv] by blast
  moreover have "successively (\<lambda>e f. topo_get_parent s (vo_parent_id f) = Some (vo_parent_id e)) stack
      \<and> (stack \<noteq> [] \<longrightarrow> vo_parent_id (hd stack) = ?r)" if "length vs \<le> p_k P"
  proof -
    have small: "size ?M < 2 * p_alpha_preference P"
      using live_votes_of(3) [of s vs] that params_ok_alpha [OF assms(1)] by linarith
    have ids: "vo_parent_id f \<in> ids_of (tp_blocks s)" if "f \<in> set stack" for f
      using st that unfolding stack_spec_def by blast
    have "successively (\<lambda>e f. topo_get_parent s (vo_parent_id f) = Some (vo_parent_id e)) stack"
      by (rule successively_mono [OF stack_spec_branch(2) [OF rt st small]])
        (use ids sbf.nodes_okD(3) [OF sbf.topo_invD(4) [OF inv]] in \<open>force simp: topo_get_parent_def\<close>)
    with stack_spec_branch(1) [OF rt st small] show ?thesis by blast
  qed
  ultimately show ?thesis by (simp add: topo_last_accepted_def)
qed (use assms(5) in auto)

text \<open>The three blocks of the witness universe, issued.\<close>

definition demo_issued :: "(unary_snowball, binary_snowball) topological" where
  "demo_issued = foldl (\<lambda>s b. fst (topo_add snowball_factory s b)) demo_start
     [demo_blk 1 0 1, demo_blk 2 0 1, demo_blk 3 1 2]"

lemma demo_issued_run:
  "topo_run (\<lambda>_ _. None) snowball_factory demo_start [Issue (demo_blk 1 0 1), Issue (demo_blk 2 0 1), Issue (demo_blk 3 1 2)]
     = Some (demo_issued, Inr ())"
  by (simp add: demo_issued_def)

lemma length_bt_insert_le: "length (bt_insert k v m) \<le> Suc (length m)"
  by (induction k v m rule: bt_insert.induct) auto

lemma topo_add_length: "length (tp_blocks (fst (topo_add F s b))) \<le> length (tp_blocks s) + 2"
proof -
  let ?bs = "bt_modify (b_parent b) (sm_add_child F (tp_params s) b) (tp_blocks s)"
  have "length ?bs \<le> Suc (length (tp_blocks s))"
    by (simp add: bt_modify_def length_bt_insert_le split: option.splits)
  with length_bt_insert_le [of "b_id b" "sm_processing b" ?bs] show ?thesis by (simp add: topo_add_def Let_def)
qed

lemma demo_issued_length: "length (tp_blocks demo_issued) \<le> nat i64_max"
proof -
  have "length (tp_blocks demo_issued) \<le> length (tp_blocks demo_start) + 6"
    using topo_add_length [of snowball_factory demo_start "demo_blk 1 0 1"]
      topo_add_length [of snowball_factory "fst (topo_add snowball_factory demo_start (demo_blk 1 0 1))" "demo_blk 2 0 1"]
      topo_add_length [of snowball_factory "fst (topo_add snowball_factory
        (fst (topo_add snowball_factory demo_start (demo_blk 1 0 1))) (demo_blk 2 0 1))" "demo_blk 3 1 2"]
    by (simp add: demo_issued_def)
  then show ?thesis by (simp add: demo_start_def i64_max_def)
qed

theorem snowman_counts_votes_witness:
  "vo_parent_id ` set (push_votes demo_issued (calculate_in_degree demo_issued (bag_of [byte_id 3]), []))
     = {p. bt_get (tp_blocks demo_issued) p \<noteq> None \<and> 1 \<le> votes_below demo_U demo_issued [byte_id 3] p}
   \<and> successively (\<lambda>e f. topo_get_parent demo_issued (vo_parent_id f) = Some (vo_parent_id e))
       (push_votes demo_issued (calculate_in_degree demo_issued (bag_of [byte_id 3]), []))"
proof -
  have ok: "issues_ok demo_U [Issue (demo_blk 1 0 1), Issue (demo_blk 2 0 1), Issue (demo_blk 3 1 2)]"
    using demo_ok(3) by (simp add: demo_ops_def)
  show ?thesis
    using snowman_counts_votes [OF params_ok_one_vote demo_ok(1,2) ok demo_issued_run demo_issued_length refl, of "[byte_id 3]"]
    by (simp add: one_vote_def)
qed

end
