(* ===== verification/Ava_Poll.thy ===== *)
theory Ava_Poll
  imports Ava_Bag Ava_Ids
begin

text \<open>
  The outstanding polls of the Snowman engine,
  \<^verbatim>\<open>crates/ava-engine/src/snowman/poll.rs\<close>: a poll collects the weighted
  responses of its validators and may end before all of them arrived; the poll
  set hands finished polls out in the order of their request ids.

  Validators are a type variable: the code only compares them. \<^verbatim>\<open>finished\<close>
  takes \<^verbatim>\<open>&mut self\<close> because it caches its answer, so it returns the poll too.
\<close>

section \<open>A poll\<close>

record early_term_factory =
  et_alpha_preference :: nat
  et_alpha_confidence :: nat

record 'n poll =
  po_polled :: "'n bag"
  po_votes :: "ava_id bag"
  po_alpha_preference :: nat
  po_alpha_confidence :: nat
  po_finished :: bool

definition new_poll :: "early_term_factory \<Rightarrow> 'n bag \<Rightarrow> 'n poll" where
  "new_poll f validators = \<lparr>po_polled = validators, po_votes = bag_new,
     po_alpha_preference = et_alpha_preference f, po_alpha_confidence = et_alpha_confidence f,
     po_finished = False\<rparr>"

definition remove_polled :: "'n \<Rightarrow> 'n poll \<Rightarrow> 'n poll" where
  "remove_polled vdr p = p\<lparr>po_polled :=
     foldl (\<lambda>remaining node. if node \<noteq> vdr
              then bag_add_count node (bag_count (po_polled p) node) remaining else remaining)
       bag_new (bag_list (po_polled p))\<rparr>"

definition poll_vote :: "'n \<Rightarrow> ava_id \<Rightarrow> 'n poll \<Rightarrow> 'n poll" where
  "poll_vote vdr vote p =
     (let cnt = bag_count (po_polled p) vdr in
      if cnt = 0 then p
      else let p1 = remove_polled vdr p in p1\<lparr>po_votes := bag_add_count vote cnt (po_votes p1)\<rparr>)"

definition poll_drop :: "'n \<Rightarrow> 'n poll \<Rightarrow> 'n poll" where
  "poll_drop vdr p = (if bag_count (po_polled p) vdr = 0 then p else remove_polled vdr p)"

definition should_terminate :: "nat \<Rightarrow> nat \<Rightarrow> nat \<Rightarrow> nat \<Rightarrow> bool" where
  "should_terminate freq remaining alpha_pref alpha_conf \<longleftrightarrow>
     (let max_possible = sat_add64 freq remaining in
      max_possible < alpha_pref
      \<or> (freq \<ge> alpha_pref \<and> max_possible < alpha_conf)
      \<or> freq \<ge> alpha_conf)"

definition poll_finished :: "'n poll \<Rightarrow> 'n poll \<times> bool" where
  "poll_finished p =
     (if po_finished p then (p, True)
      else
        let remaining = bag_len (po_polled p) in
        if remaining = 0 then (p\<lparr>po_finished := True\<rparr>, True)
        else
          let received = bag_len (po_votes p);
              max_possible = sat_add64 received remaining in
          if max_possible < po_alpha_preference p then (p\<lparr>po_finished := True\<rparr>, True)
          else
            let ids = bag_list (po_votes p) in
            if ids = [] then (p, False)
            else if list_all (\<lambda>i. should_terminate (bag_count (po_votes p) i) remaining
                                    (po_alpha_preference p) (po_alpha_confidence p)) ids
            then (p\<lparr>po_finished := True\<rparr>, True)
            else (p, po_finished p))"

definition poll_result :: "'n poll \<Rightarrow> ava_id bag" where
  "poll_result p = po_votes p"

section \<open>The poll set\<close>

record 'n poll_set =
  ps_factory :: early_term_factory
  ps_polls :: "(nat, 'n poll) btree"

definition pollset_new :: "early_term_factory \<Rightarrow> 'n poll_set" where
  "pollset_new f = \<lparr>ps_factory = f, ps_polls = []\<rparr>"

definition pollset_add :: "nat \<Rightarrow> 'n bag \<Rightarrow> 'n poll_set \<Rightarrow> 'n poll_set \<times> bool" where
  "pollset_add request_id validators ps =
     (if bt_get (ps_polls ps) request_id \<noteq> None then (ps, False)
      else (ps\<lparr>ps_polls := bt_insert request_id (new_poll (ps_factory ps) validators) (ps_polls ps)\<rparr>, True))"

text \<open>The loop of \<^verbatim>\<open>drain_finished\<close> over the keys collected beforehand.\<close>

fun drain_loop :: "(nat, 'n poll) btree \<Rightarrow> nat list \<Rightarrow> ava_id bag list \<Rightarrow> (nat, 'n poll) btree \<times> ava_id bag list" where
  "drain_loop polls [] results = (polls, results)"
| "drain_loop polls (key # keys) results = (case bt_get polls key of
       None \<Rightarrow> (polls, results)
     | Some p \<Rightarrow>
         (case poll_finished p of
            (p', fin) \<Rightarrow>
              (if fin then drain_loop (bt_remove key (bt_insert key p' polls)) keys (results @ [poll_result p'])
               else (bt_insert key p' polls, results))))"

definition drain_finished :: "'n poll_set \<Rightarrow> 'n poll_set \<times> ava_id bag list" where
  "drain_finished ps =
     (let (polls, results) = drain_loop (ps_polls ps) (bt_keys (ps_polls ps)) [] in
      (ps\<lparr>ps_polls := polls\<rparr>, results))"

text \<open>The common body of \<^verbatim>\<open>PollSet::vote\<close> and \<^verbatim>\<open>PollSet::drop\<close>.\<close>

definition pollset_update :: "nat \<Rightarrow> ('n poll \<Rightarrow> 'n poll) \<Rightarrow> 'n poll_set \<Rightarrow> 'n poll_set \<times> ava_id bag list" where
  "pollset_update request_id f ps = (case bt_get (ps_polls ps) request_id of
       None \<Rightarrow> (ps, [])
     | Some p \<Rightarrow>
         let (p', fin) = poll_finished (f p);
             ps' = ps\<lparr>ps_polls := bt_insert request_id p' (ps_polls ps)\<rparr> in
         if fin then drain_finished ps' else (ps', []))"

definition pollset_vote :: "nat \<Rightarrow> 'n \<Rightarrow> ava_id \<Rightarrow> 'n poll_set \<Rightarrow> 'n poll_set \<times> ava_id bag list" where
  "pollset_vote request_id vdr vote = pollset_update request_id (poll_vote vdr vote)"

definition pollset_drop :: "nat \<Rightarrow> 'n \<Rightarrow> 'n poll_set \<Rightarrow> 'n poll_set \<times> ava_id bag list" where
  "pollset_drop request_id vdr = pollset_update request_id (poll_drop vdr)"

definition pollset_len :: "'n poll_set \<Rightarrow> nat" where
  "pollset_len ps = length (ps_polls ps)"

definition pollset_is_empty :: "'n poll_set \<Rightarrow> bool" where
  "pollset_is_empty ps \<longleftrightarrow> ps_polls ps = []"

definition pollset_contains :: "nat \<Rightarrow> 'n poll_set \<Rightarrow> bool" where
  "pollset_contains request_id ps \<longleftrightarrow> bt_get (ps_polls ps) request_id \<noteq> None"

section \<open>Responses\<close>

datatype 'n response = VoteFrom 'n ava_id | DropOf 'n

fun poll_step :: "'n poll \<Rightarrow> 'n response \<Rightarrow> 'n poll" where
  "poll_step p (VoteFrom v x) = fst (poll_finished (poll_vote v x p))"
| "poll_step p (DropOf v) = fst (poll_finished (poll_drop v p))"

definition poll_run :: "early_term_factory \<Rightarrow> 'n bag \<Rightarrow> 'n response list \<Rightarrow> 'n poll" where
  "poll_run f validators rs = foldl poll_step (new_poll f validators) rs"

fun responder :: "'n response \<Rightarrow> 'n" where
  "responder (VoteFrom v x) = v"
| "responder (DropOf v) = v"

text \<open>
  The tally a poll should have: every validator counts with its weight for its
  first response only.
\<close>

fun tally :: "'n bag \<Rightarrow> 'n set \<Rightarrow> 'n response list \<Rightarrow> ava_id multiset" where
  "tally vs done [] = {#}"
| "tally vs done (r # rs) =
     (if responder r \<in> done then {#}
      else (case r of VoteFrom v x \<Rightarrow> replicate_mset (bag_count vs v) x | DropOf v \<Rightarrow> {#}))
     + tally vs (insert (responder r) done) rs"

definition poll_ok :: "'n bag \<Rightarrow> 'n set \<Rightarrow> 'n poll \<Rightarrow> bool" where
  "poll_ok vs done p \<longleftrightarrow> bag_wf (po_polled p) \<and> bag_wf (po_votes p)
     \<and> bag_mset (po_polled p) = filter_mset (\<lambda>v. v \<notin> done) (bag_mset vs)"

lemma remove_polled_eq:
  assumes "bag_wf (po_polled p)"
  shows "bag_wf (po_polled (remove_polled v p))"
    "bag_mset (po_polled (remove_polled v p)) = filter_mset (\<lambda>n. n \<noteq> v) (bag_mset (po_polled p))"
    "po_votes (remove_polled v p) = po_votes p"
  using bg.rebuild [OF assms, of "\<lambda>n. n \<noteq> v"] by (simp_all add: remove_polled_def)

lemma poll_finished_keeps [simp]:
  "po_polled (fst (poll_finished p)) = po_polled p"
  "po_votes (fst (poll_finished p)) = po_votes p"
  "po_alpha_preference (fst (poll_finished p)) = po_alpha_preference p"
  "po_alpha_confidence (fst (poll_finished p)) = po_alpha_confidence p"
  by (simp_all add: poll_finished_def Let_def)

lemma poll_finished_flag [simp]: "po_finished (fst (poll_finished p)) = snd (poll_finished p)"
  by (simp add: poll_finished_def Let_def)

lemma poll_count:
  assumes "poll_ok vs done p" "bag_wf vs"
  shows "bag_count (po_polled p) v = (if v \<in> done then 0 else bag_count vs v)"
  using assms count_bag_mset [of "po_polled p" v] count_bag_mset [of vs v] by (auto simp: poll_ok_def)

lemma poll_step_ok:
  assumes ok: "poll_ok vs done p" and vs: "bag_wf vs"
  shows "poll_ok vs (insert (responder r) done) (poll_step p r)"
    "bag_mset (po_votes (poll_step p r)) = bag_mset (po_votes p) + tally vs done [r]"
    "po_alpha_preference (poll_step p r) = po_alpha_preference p"
    "po_alpha_confidence (poll_step p r) = po_alpha_confidence p"
proof -
  have wf: "bag_wf (po_polled p)" "bag_wf (po_votes p)"
    and ms: "bag_mset (po_polled p) = filter_mset (\<lambda>v. v \<notin> done) (bag_mset vs)"
    using ok by (auto simp: poll_ok_def)
  note rp = remove_polled_eq [OF wf(1)]
  have gone: "filter_mset (\<lambda>v. v \<notin> insert w done) (bag_mset vs) = filter_mset (\<lambda>v. v \<notin> done) (bag_mset vs)"
    if "bag_count (po_polled p) w = 0" for w
  proof (rule filter_mset_cong [OF refl])
    fix v assume "v \<in># bag_mset vs"
    then have "0 < bag_count vs v" using count_bag_mset [OF vs, of v] by (simp add: count_greater_zero_iff [symmetric])
    then show "(v \<notin> insert w done) = (v \<notin> done)" using that poll_count [OF ok vs] by auto
  qed
  have rem: "filter_mset (\<lambda>n. n \<noteq> w) (bag_mset (po_polled p)) = filter_mset (\<lambda>v. v \<notin> insert w done) (bag_mset vs)" for w
    unfolding ms filter_filter_mset by (rule filter_mset_cong) auto
  show "poll_ok vs (insert (responder r) done) (poll_step p r)"
    "bag_mset (po_votes (poll_step p r)) = bag_mset (po_votes p) + tally vs done [r]"
    "po_alpha_preference (poll_step p r) = po_alpha_preference p"
    "po_alpha_confidence (poll_step p r) = po_alpha_confidence p"
    using wf ms rp gone rem poll_count [OF ok vs]
    by (cases r; simp add: poll_ok_def poll_vote_def poll_drop_def Let_def bag_wf_add_count bag_mset_add_count
        remove_polled_def)+
qed

lemma tally_append: "tally vs done (xs @ ys) = tally vs done xs + tally vs (done \<union> responder ` set xs) ys"
  by (induction xs arbitrary: "done") (auto simp: Un_commute add.assoc insert_commute)

lemma poll_run_ok:
  assumes vs: "bag_wf vs"
  shows "poll_ok vs (responder ` set rs) (poll_run f vs rs)
    \<and> bag_mset (po_votes (poll_run f vs rs)) = tally vs {} rs
    \<and> po_alpha_preference (poll_run f vs rs) = et_alpha_preference f
    \<and> po_alpha_confidence (poll_run f vs rs) = et_alpha_confidence f"
proof (induction rs rule: rev_induct)
  case Nil
  show ?case using vs by (simp add: poll_run_def new_poll_def poll_ok_def)
next
  case (snoc r rs)
  from snoc poll_step_ok [of vs "responder ` set rs" "poll_run f vs rs" r] vs show ?case
    by (simp add: poll_run_def tally_append)
qed

section \<open>When a poll may end\<close>

lemma size_filter_split:
  "size (filter_mset (\<lambda>v. v \<notin> insert w done) M) + (if w \<in> done then 0 else count M w)
     = size (filter_mset (\<lambda>v. v \<notin> done) M)"
  by (induction M) auto

lemma size_tally:
  assumes "bag_wf vs"
  shows "size (tally vs done rs) + size (filter_mset (\<lambda>v. v \<notin> done \<union> responder ` set rs) (bag_mset vs))
    \<le> size (filter_mset (\<lambda>v. v \<notin> done) (bag_mset vs))"
proof (induction rs arbitrary: "done")
  case (Cons r rs)
  let ?w = "responder r"
  have "size (if ?w \<in> done then {#}
      else (case r of VoteFrom v x \<Rightarrow> replicate_mset (bag_count vs v) x | DropOf v \<Rightarrow> {#}))
      \<le> (if ?w \<in> done then 0 else count (bag_mset vs) ?w)"
    by (cases r) (simp_all add: count_bag_mset [OF assms])
  with Cons.IH [of "insert ?w done"] size_filter_split [of ?w "done" "bag_mset vs"]
  show ?case by simp
qed simp

text \<open>
  The condition under which \<^const>\<open>poll_finished\<close> answers yes for the first time,
  with the saturation gone: the thresholds are 32-bit numbers.
\<close>

definition settled :: "'n poll \<Rightarrow> bool" where
  "settled p \<longleftrightarrow> bag_len (po_polled p) = 0
     \<or> bag_len (po_votes p) + bag_len (po_polled p) < po_alpha_preference p
     \<or> (bag_list (po_votes p) \<noteq> [] \<and> (\<forall>i \<in> set (bag_list (po_votes p)).
          bag_count (po_votes p) i + bag_len (po_polled p) < po_alpha_preference p
          \<or> po_alpha_preference p \<le> bag_count (po_votes p) i
            \<and> bag_count (po_votes p) i + bag_len (po_polled p) < po_alpha_confidence p
          \<or> po_alpha_confidence p \<le> bag_count (po_votes p) i))"

lemma sat_add64_less: "a \<le> u32_max \<Longrightarrow> sat_add64 m n < a \<longleftrightarrow> m + n < a"
  by (auto simp: sat_add64_def u32_max_def u64_max_def)

lemma poll_finished_settled:
  assumes "po_alpha_preference p \<le> u32_max" "po_alpha_confidence p \<le> u32_max"
  shows "snd (poll_finished p) \<longleftrightarrow> po_finished p \<or> settled p"
  by (simp add: poll_finished_def settled_def should_terminate_def Let_def list_all_iff
      sat_add64_less [OF assms(1)] sat_add64_less [OF assms(2)] not_less)

lemma poll_step_finished:
  assumes "po_alpha_preference p \<le> u32_max" "po_alpha_confidence p \<le> u32_max"
  shows "po_finished (poll_step p r) \<longleftrightarrow> po_finished p \<or> settled (poll_step p r)"
  using poll_finished_settled [of "poll_vote (responder r) x p" for x]
    poll_finished_settled [of "poll_drop (responder r) p"] assms
  by (cases r) (auto simp: poll_vote_def poll_drop_def remove_polled_def Let_def settled_def)

lemma poll_run_finished:
  assumes "bag_wf vs" "et_alpha_preference f \<le> u32_max" "et_alpha_confidence f \<le> u32_max"
    and "po_finished (poll_run f vs rs)"
  shows "\<exists>rs1 rs2. rs = rs1 @ rs2 \<and> settled (poll_run f vs rs1)"
  using assms(4)
proof (induction rs rule: rev_induct)
  case Nil
  then show ?case by (simp add: poll_run_def new_poll_def)
next
  case (snoc r rs)
  let ?p = "poll_run f vs rs"
  have "po_finished ?p \<or> settled (poll_step ?p r)"
    using snoc.prems poll_step_finished [of ?p r] poll_run_ok [OF assms(1), of rs f] assms(2,3)
    by (simp add: poll_run_def)
  then show ?case
  proof
    assume "po_finished ?p"
    with snoc.IH show ?thesis by (metis append.assoc)
  next
    assume "settled (poll_step ?p r)"
    then show ?thesis by (intro exI [of _ "rs @ [r]"] exI [of _ "[]"]) (simp add: poll_run_def)
  qed
qed

text \<open>Votes that arrive after a settled poll change no threshold.\<close>

lemma settled_stable:
  assumes vs: "bag_wf vs" and k: "bag_len vs < 2 * et_alpha_preference f"
    and a: "et_alpha_preference f \<le> et_alpha_confidence f"
    and s: "settled (poll_run f vs rs)" and t: "t \<in> {et_alpha_preference f, et_alpha_confidence f}"
  shows "t \<le> bag_count (po_votes (poll_run f vs (rs @ rs'))) x
    \<longleftrightarrow> t \<le> bag_count (po_votes (poll_run f vs rs)) x"
proof -
  let ?p = "poll_run f vs rs" and ?p' = "poll_run f vs (rs @ rs')"
  note ok = poll_run_ok [OF vs, of rs f] and ok' = poll_run_ok [OF vs, of "rs @ rs'" f]
  have wf: "bag_wf (po_polled ?p)" "bag_wf (po_votes ?p)" "bag_wf (po_votes ?p')"
    using ok ok' by (auto simp: poll_ok_def)
  define c where "c = bag_count (po_votes ?p) x"
  define c' where "c' = bag_count (po_votes ?p') x"
  define rem where "rem = bag_len (po_polled ?p)"
  let ?new = "tally vs (responder ` set rs) rs'"
  have "bag_mset (po_votes ?p') = bag_mset (po_votes ?p) + ?new" using ok ok' by (simp add: tally_append)
  then have c': "c' = c + count ?new x"
    using count_bag_mset [OF wf(2), of x] count_bag_mset [OF wf(3), of x] by (simp add: c_def c'_def)
  have "size ?new \<le> rem"
    using size_tally [OF vs, of "responder ` set rs" rs'] size_bag_mset [OF wf(1)] ok
    by (simp add: rem_def poll_ok_def)
  then have new: "count ?new x \<le> rem" using count_le_size [of ?new x] by simp
  have recv: "bag_len (po_votes ?p) + rem \<le> bag_len vs"
    using size_tally [OF vs, of "{}" rs] ok size_bag_mset [OF wf(1)] size_bag_mset [OF wf(2)] size_bag_mset [OF vs]
    by (simp add: rem_def poll_ok_def)
  have le: "bag_count (po_votes ?p) i \<le> bag_len (po_votes ?p)" for i
    using count_le_size [of "bag_mset (po_votes ?p)" i] count_bag_mset [OF wf(2), of i] size_bag_mset [OF wf(2)]
    by simp
  have t': "et_alpha_preference f \<le> t" using t a by auto
  have alphas: "po_alpha_preference ?p = et_alpha_preference f" "po_alpha_confidence ?p = et_alpha_confidence f"
    using ok by simp_all
  from s consider (none) "rem = 0" | (few) "bag_len (po_votes ?p) + rem < et_alpha_preference f"
    | (ids) "bag_list (po_votes ?p) \<noteq> []" "\<forall>i \<in> set (bag_list (po_votes ?p)).
          bag_count (po_votes ?p) i + rem < et_alpha_preference f
          \<or> et_alpha_preference f \<le> bag_count (po_votes ?p) i
            \<and> bag_count (po_votes ?p) i + rem < et_alpha_confidence f
          \<or> et_alpha_confidence f \<le> bag_count (po_votes ?p) i"
    unfolding settled_def alphas rem_def by meson
  then have "t \<le> c' \<longleftrightarrow> t \<le> c"
  proof cases
    case none
    with c' new show ?thesis by simp
  next
    case few
    with c' new le [of x] t' show ?thesis by (simp add: c_def)
  next
    case ids
    show ?thesis
    proof (cases "x \<in> set (bag_list (po_votes ?p))")
      case True
      with ids(2) c' new t a show ?thesis by (auto simp: c_def)
    next
      case False
      then have "c = 0"
        using set_bag_list [OF wf(2)] count_bag_mset [OF wf(2), of x] by (simp add: c_def not_in_iff)
      moreover from ids(1) obtain i where "i \<in> set (bag_list (po_votes ?p))" by (meson list.set_sel(1))
      with ids(2) have "rem < et_alpha_preference f" using le [of i] recv k a by auto
      ultimately show ?thesis using c' new t' by simp
    qed
  qed
  then show ?thesis by (simp add: c_def c'_def)
qed

section \<open>Properties of polls\<close>

text \<open>
  C17. A poll counts every sampled validator exactly once, with its weight, for
  its first response: later responses, responses after a timeout and responses
  of validators that were not sampled change nothing.
\<close>

theorem poll_counts_first_responses:
  assumes "bag_wf vs"
  shows "bag_mset (poll_result (poll_run f vs rs)) = tally vs {} rs"
  using poll_run_ok [OF assms, of rs f] by (simp add: poll_result_def)

theorem poll_counts_first_responses_witness:
  "\<forall>x y. bag_mset (poll_result (poll_run \<lparr>et_alpha_preference = 3, et_alpha_confidence = 4\<rparr>
      (bag_of [0, 0, 1, 2 :: nat]) [VoteFrom 0 x, DropOf 1, VoteFrom 1 y, VoteFrom 0 y, VoteFrom 7 y, VoteFrom 2 y]))
   = {# x, x, y #}"
proof (intro allI)
  fix x y
  have "bag_wf (bag_of [0, 0, 1, 2 :: nat])" by (rule bag_wf_of)
  moreover have "bag_count (bag_of [0, 0, 1, 2 :: nat]) v = count {# 0, 0, 1, 2 #} v" for v
    using count_bag_mset [OF bag_wf_of, of "[0, 0, 1, 2 :: nat]" v] by (simp add: bag_mset_of)
  ultimately show "bag_mset (poll_result (poll_run \<lparr>et_alpha_preference = 3, et_alpha_confidence = 4\<rparr>
      (bag_of [0, 0, 1, 2 :: nat]) [VoteFrom 0 x, DropOf 1, VoteFrom 1 y, VoteFrom 0 y, VoteFrom 7 y, VoteFrom 2 y]))
    = {# x, x, y #}"
    by (simp add: poll_counts_first_responses numeral_2_eq_2)
qed

text \<open>
  C18. Ending a poll early is sound for every single id. Once a poll over at most
  \<^verbatim>\<open>k\<close> weighted validators with \<open>k < 2 * alpha_preference\<close> has reported that it is
  finished, no sequence of outstanding responses can move any id, voted for or
  not, across \<^verbatim>\<open>alpha_preference\<close> or \<^verbatim>\<open>alpha_confidence\<close>.
\<close>

theorem poll_early_termination_sound:
  assumes "bag_wf vs" "bag_len vs < 2 * et_alpha_preference f"
    and "et_alpha_preference f \<le> et_alpha_confidence f" "et_alpha_confidence f \<le> u32_max"
    and "po_finished (poll_run f vs rs)"
  shows "(et_alpha_preference f \<le> bag_count (po_votes (poll_run f vs (rs @ rs'))) x
      \<longleftrightarrow> et_alpha_preference f \<le> bag_count (po_votes (poll_run f vs rs)) x)
    \<and> (et_alpha_confidence f \<le> bag_count (po_votes (poll_run f vs (rs @ rs'))) x
      \<longleftrightarrow> et_alpha_confidence f \<le> bag_count (po_votes (poll_run f vs rs)) x)"
proof -
  from poll_run_finished [OF assms(1) _ assms(4,5)] assms(3,4) obtain rs1 rs2 where
    rs: "rs = rs1 @ rs2" and s: "settled (poll_run f vs rs1)" by auto
  note stable = settled_stable [OF assms(1-3) s]
  show ?thesis
    using stable [of _ rs2 x] stable [of _ "rs2 @ rs'" x] by (simp add: rs)
qed

definition three_of_four :: early_term_factory where
  "three_of_four = \<lparr>et_alpha_preference = 3, et_alpha_confidence = 3\<rparr>"

lemmas poll_eval = poll_run_def new_poll_def poll_vote_def poll_drop_def remove_polled_def poll_finished_def
  should_terminate_def bag_of_def bag_add_def bag_add_count_def bag_new_def bag_count_def bag_len_def
  bag_list_def sat_add64_def u64_max_value Let_def three_of_four_def

theorem poll_early_termination_sound_witness:
  "po_finished (poll_run three_of_four (bag_of [0, 1, 2, 3 :: nat]) [VoteFrom 0 id_EMPTY, VoteFrom 1 id_EMPTY, VoteFrom 2 id_EMPTY])
   \<and> 3 \<le> bag_count (po_votes (poll_run three_of_four (bag_of [0, 1, 2, 3 :: nat])
        ([VoteFrom 0 id_EMPTY, VoteFrom 1 id_EMPTY, VoteFrom 2 id_EMPTY] @ [DropOf 3]))) id_EMPTY"
proof -
  let ?vs = "bag_of [0, 1, 2, 3 :: nat]"
  let ?rs = "[VoteFrom 0 id_EMPTY, VoteFrom 1 id_EMPTY, VoteFrom (2 :: nat) id_EMPTY]"
  have fin: "po_finished (poll_run three_of_four ?vs ?rs)"
    by (simp add: poll_eval)
  have c: "3 \<le> bag_count (po_votes (poll_run three_of_four ?vs ?rs)) id_EMPTY"
    by (simp add: poll_eval)
  have len: "bag_len ?vs < 2 * et_alpha_preference three_of_four"
    using size_bag_mset [OF bag_wf_of, of "[0, 1, 2, 3 :: nat]"] by (simp add: bag_mset_of three_of_four_def)
  from poll_early_termination_sound [OF bag_wf_of len _ _ fin, of "[DropOf 3]" id_EMPTY] fin c
  show ?thesis by (simp add: three_of_four_def u32_max_def)
qed

text \<open>
  C19. A poll always completes: once every sampled validator has responded or
  been dropped, the poll is finished.
\<close>

theorem poll_completes:
  assumes "bag_wf vs" "rs \<noteq> []" "set_mset (bag_mset vs) \<subseteq> responder ` set rs"
  shows "po_finished (poll_run f vs rs)"
proof -
  from assms(2) obtain rs' r where rs: "rs = rs' @ [r]" by (metis rev_exhaust)
  have "bag_mset (po_polled (poll_run f vs rs)) = {#}"
    using poll_run_ok [OF assms(1), of rs f] assms(3) by (auto simp: poll_ok_def multiset_eq_iff count_eq_zero_iff)
  moreover have "bag_wf (po_polled (poll_run f vs rs))"
    using poll_run_ok [OF assms(1), of rs f] by (simp add: poll_ok_def)
  ultimately have "bag_len (po_polled (poll_run f vs rs)) = 0" using size_bag_mset by force
  then show ?thesis
    by (cases r) (simp_all add: rs poll_run_def, simp_all add: poll_finished_def)
qed


theorem poll_completes_witness:
  "po_finished (poll_run three_of_four (bag_of [0, 1 :: nat]) [DropOf 1, VoteFrom 0 id_EMPTY])"
  by (rule poll_completes [OF bag_wf_of]) (simp_all add: bag_mset_of)

lemma poll_finished_False: "\<not> snd (poll_finished p) \<Longrightarrow> poll_finished p = (p, False)"
  by (auto simp: poll_finished_def Let_def split: if_splits)

lemma drain_loop_eq:
  assumes "bt_wf polls"
  shows "drain_loop polls (bt_keys polls) results =
    (dropWhile (\<lambda>(k, p). snd (poll_finished p)) polls,
     results @ map (\<lambda>(k, p). po_votes p) (takeWhile (\<lambda>(k, p). snd (poll_finished p)) polls))"
  using assms
proof (induction polls arbitrary: results)
  case (Cons kp polls)
  obtain k p where kp: "kp = (k, p)" by fastforce
  show ?case
  proof (cases "snd (poll_finished p)")
    case True
    then obtain p' where p': "poll_finished p = (p', True)" by (metis prod.collapse)
    then have "poll_result p' = po_votes p"
      using poll_finished_keeps(2) [of p] by (simp add: poll_result_def)
    with Cons kp p' True show ?thesis by simp
  next
    case False
    with kp poll_finished_False [OF False] show ?thesis by simp
  qed
qed simp

text \<open>
  C20. Finished polls leave the set in the order of their request ids:
  \<^verbatim>\<open>drain_finished\<close> returns the results of the longest run of finished polls
  that starts at the smallest id, in increasing order, removes exactly these
  polls and leaves the others as they are.
\<close>

theorem drain_in_order:
  assumes "bt_wf (ps_polls ps)"
  shows "drain_finished ps =
    (ps\<lparr>ps_polls := dropWhile (\<lambda>(k, p). snd (poll_finished p)) (ps_polls ps)\<rparr>,
     map (\<lambda>(k, p). po_votes p) (takeWhile (\<lambda>(k, p). snd (poll_finished p)) (ps_polls ps)))"
  using drain_loop_eq [OF assms, of "[]"] by (simp add: drain_finished_def)

theorem drain_in_order_witness:
  "drain_finished \<lparr>ps_factory = three_of_four,
     ps_polls = [(1, new_poll three_of_four (bag_of [])), (2, new_poll three_of_four (bag_of [0, 1, 2 :: nat])),
                 (3, new_poll three_of_four (bag_of []))]\<rparr>
   = (\<lparr>ps_factory = three_of_four,
       ps_polls = [(2, new_poll three_of_four (bag_of [0, 1, 2 :: nat])), (3, new_poll three_of_four (bag_of []))]\<rparr>,
      [bag_new])"
  by (subst drain_in_order) (simp_all add: poll_eval)

lemma shared_ancestor_gap:
  fixes a b c d :: ava_id
  assumes "a \<noteq> b" "a \<noteq> c" "a \<noteq> d" "b \<noteq> c" "b \<noteq> d" "c \<noteq> d"
  defines "f \<equiv> \<lparr>et_alpha_preference = 3, et_alpha_confidence = 4\<rparr>"
    and "rs \<equiv> [VoteFrom 0 a, VoteFrom 1 b, VoteFrom 2 c, VoteFrom (3 :: nat) d]"
  shows "snd (poll_finished (poll_run f (bag_of [0, 1, 2, 3, 4]) rs))"
    "bag_count (po_votes (poll_run f (bag_of [0, 1, 2, 3, 4]) rs)) a = 1"
    "bag_count (po_votes (poll_run f (bag_of [0, 1, 2, 3, 4]) rs)) b = 1"
    "bag_count (po_votes (poll_run f (bag_of [0, 1, 2, 3, 4]) (rs @ [VoteFrom 4 a]))) a = 2"
    "bag_count (po_votes (poll_run f (bag_of [0, 1, 2, 3, 4]) (rs @ [VoteFrom 4 a]))) b = 1"
  using assms(1-6) assms(1-6) [symmetric] by (simp_all add: poll_eval f_def rs_def)

lemma replicate_id_inject: "id_of (replicate 32 x) = id_of (replicate 32 y) \<longleftrightarrow> x = y"
proof
  assume "id_of (replicate 32 x) = id_of (replicate 32 y)"
  then have "as_bytes (id_of (replicate 32 x)) = as_bytes (id_of (replicate 32 y))" by simp
  then show "x = y" by simp
qed simp


end
