(* ===== verification/Ava_Packer.thy ===== *)
theory Ava_Packer
  imports Ava_Prelude
begin

text \<open>
  The big-endian packer of \<^verbatim>\<open>crates/ava-codec/src/packer.rs\<close>. A packer either
  appends to a buffer or reads from one; its first error is sticky. Integers of
  16, 32 and 64 bits are natural numbers; their byte strings are \<open>be_bytes\<close>.
  A \<^verbatim>\<open>String\<close> is the list of its UTF-8 bytes.
\<close>

section \<open>Big-endian integers\<close>

fun be_bytes :: "nat \<Rightarrow> nat \<Rightarrow> u8 list" where
  "be_bytes 0 x = []"
| "be_bytes (Suc n) x = be_bytes n (x div 256) @ [of_nat x]"

definition from_be :: "u8 list \<Rightarrow> nat" where
  "from_be bs = foldl (\<lambda>a b. 256 * a + unat b) 0 bs"

lemma length_be_bytes [simp]: "length (be_bytes n x) = n"
  by (induction n arbitrary: x) auto

lemma from_be_Nil [simp]: "from_be [] = 0"
  by (simp add: from_be_def)

lemma from_be_snoc [simp]: "from_be (bs @ [b]) = 256 * from_be bs + unat b"
  by (simp add: from_be_def)

lemma unat_u8_less: "unat (b :: u8) < 256"
  using unsigned_less [of b] by simp

lemma from_be_less: "from_be bs < 256 ^ length bs"
proof (induction bs rule: rev_induct)
  case (snoc b bs)
  then have "256 * from_be bs + unat b < 256 * (from_be bs + 1)" using unat_u8_less [of b] by simp
  also have "\<dots> \<le> 256 * 256 ^ length bs" using snoc by simp
  finally show ?case by simp
qed simp

lemma unat_of_nat_u8: "unat (of_nat x :: u8) = x mod 256"
  by (simp add: unat_of_nat)

lemma from_be_bytes: "x < 256 ^ n \<Longrightarrow> from_be (be_bytes n x) = x"
  by (induction n arbitrary: x) (simp_all add: unat_of_nat_u8 less_mult_imp_div_less mult.commute)

lemma be_bytes_from: "be_bytes (length bs) (from_be bs) = bs"
proof (induction bs rule: rev_induct)
  case (snoc b bs)
  have "(256 * from_be bs + unat b) div 256 = from_be bs" using unat_u8_less [of b] by simp
  moreover have "(of_nat (256 * from_be bs + unat b) :: u8) = b"
    unfolding word_unat_eq_iff unat_of_nat_u8 using unat_u8_less [of b] by simp
  ultimately show ?case using snoc by simp
qed simp

section \<open>UTF-8\<close>

text \<open>
  The byte strings \<^verbatim>\<open>String::from_utf8\<close> accepts: shortest encodings only, no
  surrogates, nothing above U+10FFFF.
\<close>

definition utf8_cont :: "u8 \<Rightarrow> bool" where
  "utf8_cont b \<longleftrightarrow> 128 \<le> unat b \<and> unat b < 192"

fun utf8_valid :: "u8 list \<Rightarrow> bool" where
  "utf8_valid [] = True"
| "utf8_valid (a # bs) =
     (let x = unat a in
      if x < 128 then utf8_valid bs
      else if 194 \<le> x \<and> x < 224 then
        (case bs of b # r \<Rightarrow> utf8_cont b \<and> utf8_valid r | _ \<Rightarrow> False)
      else if 224 \<le> x \<and> x < 240 then
        (case bs of b # c # r \<Rightarrow> utf8_cont b \<and> utf8_cont c
             \<and> (x = 224 \<longrightarrow> 160 \<le> unat b) \<and> (x = 237 \<longrightarrow> unat b < 160) \<and> utf8_valid r
         | _ \<Rightarrow> False)
      else if 240 \<le> x \<and> x < 245 then
        (case bs of b # c # d # r \<Rightarrow> utf8_cont b \<and> utf8_cont c \<and> utf8_cont d
             \<and> (x = 240 \<longrightarrow> 144 \<le> unat b) \<and> (x = 244 \<longrightarrow> unat b < 144) \<and> utf8_valid r
         | _ \<Rightarrow> False)
      else False)"

section \<open>The packer\<close>

datatype packer_error = InsufficientLength | NegativeOffset | InvalidInput | BadBool | Oversized

datatype packer_buf = WriteBuf "u8 list" | ReadBuf "u8 list"

definition BYTE_LEN :: nat where "BYTE_LEN = 1"
definition SHORT_LEN :: nat where "SHORT_LEN = 2"
definition INT_LEN :: nat where "INT_LEN = 4"
definition LONG_LEN :: nat where "LONG_LEN = 8"
definition BOOL_LEN :: nat where "BOOL_LEN = 1"
definition MAX_STRING_LEN :: nat where "MAX_STRING_LEN = 2 ^ 16 - 1"

lemmas packer_lens = BYTE_LEN_def SHORT_LEN_def INT_LEN_def LONG_LEN_def BOOL_LEN_def

record packer =
  pk_bytes :: packer_buf
  pk_offset :: nat
  pk_max_size :: nat
  pk_err :: "packer_error option"

fun pbuf_bytes :: "packer_buf \<Rightarrow> u8 list" where
  "pbuf_bytes (WriteBuf v) = v"
| "pbuf_bytes (ReadBuf s) = s"

definition pbuf_len :: "packer_buf \<Rightarrow> nat" where
  "pbuf_len b = length (pbuf_bytes b)"

definition new_write :: "nat \<Rightarrow> packer" where
  "new_write cap = \<lparr>pk_bytes = WriteBuf [], pk_offset = 0, pk_max_size = cap, pk_err = None\<rparr>"

definition with_max_size :: "nat \<Rightarrow> packer" where
  "with_max_size max_size = \<lparr>pk_bytes = WriteBuf [], pk_offset = 0, pk_max_size = max_size, pk_err = None\<rparr>"

definition new_read :: "u8 list \<Rightarrow> packer" where
  "new_read src = \<lparr>pk_bytes = ReadBuf src, pk_offset = 0, pk_max_size = length src, pk_err = None\<rparr>"

definition pk_errored :: "packer \<Rightarrow> bool" where
  "pk_errored p \<longleftrightarrow> pk_err p \<noteq> None"

definition pk_cursor :: "packer \<Rightarrow> nat" where
  "pk_cursor p = (case pk_bytes p of WriteBuf v \<Rightarrow> length v | ReadBuf _ \<Rightarrow> pk_offset p)"

definition pk_len :: "packer \<Rightarrow> nat" where
  "pk_len p = pbuf_len (pk_bytes p)"

definition pk_is_empty :: "packer \<Rightarrow> bool" where
  "pk_is_empty p \<longleftrightarrow> pbuf_len (pk_bytes p) = 0"

definition add_error :: "packer_error \<Rightarrow> packer \<Rightarrow> packer" where
  "add_error e p = (if pk_err p = None then p\<lparr>pk_err := Some e\<rparr> else p)"

definition into_bytes :: "packer \<Rightarrow> u8 list" where
  "into_bytes p = (case pk_bytes p of WriteBuf v \<Rightarrow> v | ReadBuf _ \<Rightarrow> [])"

definition as_slice :: "packer \<Rightarrow> u8 list" where
  "as_slice p = pbuf_bytes (pk_bytes p)"

definition checked_add64 :: "nat \<Rightarrow> nat \<Rightarrow> nat option" where
  "checked_add64 a b = (if a + b \<le> u64_max then Some (a + b) else None)"

definition expand_write :: "nat \<Rightarrow> packer \<Rightarrow> packer \<times> bool" where
  "expand_write n p =
     (if pk_errored p then (p, False)
      else case pk_bytes p of
        WriteBuf v \<Rightarrow>
          (case checked_add64 (length v) n of
             Some needed \<Rightarrow> if needed \<le> pk_max_size p then (p, True) else (add_error InsufficientLength p, False)
           | None \<Rightarrow> (add_error InsufficientLength p, False))
      | ReadBuf _ \<Rightarrow> (add_error InsufficientLength p, False))"

definition check_space :: "nat \<Rightarrow> packer \<Rightarrow> packer \<times> bool" where
  "check_space n p =
     (if pk_errored p then (p, False)
      else case checked_add64 (pk_offset p) n of
        Some e \<Rightarrow> if e \<le> pbuf_len (pk_bytes p) then (p, True) else (add_error InsufficientLength p, False)
      | None \<Rightarrow> (add_error InsufficientLength p, False))"

definition append_bytes :: "u8 list \<Rightarrow> packer \<Rightarrow> packer" where
  "append_bytes data p = (case pk_bytes p of
       WriteBuf v \<Rightarrow> p\<lparr>pk_bytes := WriteBuf (v @ data)\<rparr> | ReadBuf _ \<Rightarrow> p)"

subsection \<open>Writing\<close>

definition pack_fixed_bytes :: "u8 list \<Rightarrow> packer \<Rightarrow> packer" where
  "pack_fixed_bytes data p =
     (let (p', ok) = expand_write (length data) p in if ok then append_bytes data p' else p')"

definition pack_byte :: "u8 \<Rightarrow> packer \<Rightarrow> packer" where
  "pack_byte b p = (let (p', ok) = expand_write BYTE_LEN p in if ok then append_bytes [b] p' else p')"

definition pack_u16 :: "nat \<Rightarrow> packer \<Rightarrow> packer" where
  "pack_u16 v p =
     (let (p', ok) = expand_write SHORT_LEN p in if ok then append_bytes (be_bytes 2 v) p' else p')"

definition pack_u32 :: "nat \<Rightarrow> packer \<Rightarrow> packer" where
  "pack_u32 v p =
     (let (p', ok) = expand_write INT_LEN p in if ok then append_bytes (be_bytes 4 v) p' else p')"

definition pack_u64 :: "nat \<Rightarrow> packer \<Rightarrow> packer" where
  "pack_u64 v p =
     (let (p', ok) = expand_write LONG_LEN p in if ok then append_bytes (be_bytes 8 v) p' else p')"

definition pack_bool :: "bool \<Rightarrow> packer \<Rightarrow> packer" where
  "pack_bool b p = pack_byte (if b then 1 else 0) p"

definition pack_bytes :: "u8 list \<Rightarrow> packer \<Rightarrow> packer" where
  "pack_bytes data p =
     (if length data > u32_max then add_error InvalidInput p
      else pack_fixed_bytes data (pack_u32 (length data) p))"

definition pack_str :: "u8 list \<Rightarrow> packer \<Rightarrow> packer" where
  "pack_str data p =
     (if length data > MAX_STRING_LEN then add_error InvalidInput p
      else pack_fixed_bytes data (pack_u16 (length data mod 2 ^ 16) p))"

subsection \<open>Reading\<close>

definition pk_read :: "nat \<Rightarrow> packer \<Rightarrow> u8 list \<times> packer" where
  "pk_read n p =
     (let (p', ok) = check_space n p in
      if \<not> ok then ([], p')
      else (take n (drop (pk_offset p') (pbuf_bytes (pk_bytes p'))),
            p'\<lparr>pk_offset := sat_add64 (pk_offset p') n\<rparr>))"

definition unpack_byte :: "packer \<Rightarrow> u8 \<times> packer" where
  "unpack_byte p = (let (b, p') = pk_read BYTE_LEN p in (case b of [] \<Rightarrow> 0 | x # _ \<Rightarrow> x, p'))"

definition unpack_u16 :: "packer \<Rightarrow> nat \<times> packer" where
  "unpack_u16 p = (let (b, p') = pk_read SHORT_LEN p in (if length b = 2 then from_be b else 0, p'))"

definition unpack_u32 :: "packer \<Rightarrow> nat \<times> packer" where
  "unpack_u32 p = (let (b, p') = pk_read INT_LEN p in (if length b = 4 then from_be b else 0, p'))"

definition unpack_u64 :: "packer \<Rightarrow> nat \<times> packer" where
  "unpack_u64 p = (let (b, p') = pk_read LONG_LEN p in (if length b = 8 then from_be b else 0, p'))"

definition unpack_bool :: "packer \<Rightarrow> bool \<times> packer" where
  "unpack_bool p = (let (b, p') = unpack_byte p in
     if b = 0 then (False, p') else if b = 1 then (True, p') else (False, add_error BadBool p'))"

definition unpack_fixed_bytes :: "nat \<Rightarrow> packer \<Rightarrow> u8 list \<times> packer" where
  "unpack_fixed_bytes n p = pk_read n p"

definition unpack_bytes :: "packer \<Rightarrow> u8 list \<times> packer" where
  "unpack_bytes p = (let (len, p') = unpack_u32 p in unpack_fixed_bytes len p')"

definition unpack_limited_bytes :: "nat \<Rightarrow> packer \<Rightarrow> u8 list \<times> packer" where
  "unpack_limited_bytes limit p = (let (len, p') = unpack_u32 p in
     if len > limit then ([], add_error Oversized p') else unpack_fixed_bytes len p')"

definition read_str :: "nat \<Rightarrow> packer \<Rightarrow> u8 list \<times> packer" where
  "read_str len p = (let (raw, p') = pk_read len p in
     if pk_errored p' then ([], p')
     else if utf8_valid raw then (raw, p') else ([], add_error InvalidInput p'))"

definition unpack_str :: "packer \<Rightarrow> u8 list \<times> packer" where
  "unpack_str p = (let (len, p') = unpack_u16 p in read_str len p')"

definition unpack_limited_str :: "nat \<Rightarrow> packer \<Rightarrow> u8 list \<times> packer" where
  "unpack_limited_str limit p = (let (len, p') = unpack_u16 p in
     if len > limit then ([], add_error Oversized p') else read_str len p')"

section \<open>What writing and reading do\<close>

text \<open>A packer that writes, or reads, without an error so far.\<close>

definition writing :: "packer \<Rightarrow> u8 list \<Rightarrow> bool" where
  "writing p v \<longleftrightarrow> pk_bytes p = WriteBuf v \<and> pk_err p = None \<and> pk_max_size p \<le> u64_max"

definition reading :: "packer \<Rightarrow> u8 list \<Rightarrow> bool" where
  "reading p rest \<longleftrightarrow> (\<exists>s. pk_bytes p = ReadBuf s \<and> pk_offset p \<le> length s \<and> length s \<le> u64_max
     \<and> drop (pk_offset p) s = rest) \<and> pk_err p = None"

lemma add_error_err [simp]: "pk_err (add_error e p) \<noteq> None"
  by (simp add: add_error_def)

lemma add_error_errored: "pk_err p \<noteq> None \<Longrightarrow> add_error e p = p"
  by (simp add: add_error_def)

lemma expand_write_writing:
  "writing p v \<Longrightarrow> expand_write n p =
     (if length v + n \<le> pk_max_size p then (p, True) else (p\<lparr>pk_err := Some InsufficientLength\<rparr>, False))"
  by (auto simp: expand_write_def writing_def pk_errored_def checked_add64_def add_error_def)

lemma expand_write_errored: "pk_err p \<noteq> None \<Longrightarrow> expand_write n p = (p, False)"
  by (simp add: expand_write_def pk_errored_def)

lemma pack_raw:
  "pack_byte b p = pack_fixed_bytes [b] p"
  "pack_u16 v p = pack_fixed_bytes (be_bytes 2 v) p"
  "pack_u32 v p = pack_fixed_bytes (be_bytes 4 v) p"
  "pack_u64 v p = pack_fixed_bytes (be_bytes 8 v) p"
  by (simp_all add: pack_byte_def pack_u16_def pack_u32_def pack_u64_def pack_fixed_bytes_def packer_lens)

lemma pack_fixed_writing:
  "writing p v \<Longrightarrow> pack_fixed_bytes data p =
     (if length v + length data \<le> pk_max_size p then p\<lparr>pk_bytes := WriteBuf (v @ data)\<rparr>
      else p\<lparr>pk_err := Some InsufficientLength\<rparr>)"
  by (simp add: pack_fixed_bytes_def expand_write_writing append_bytes_def) (simp add: writing_def)

lemma pack_fixed_errored: "pk_err p \<noteq> None \<Longrightarrow> pack_fixed_bytes data p = p"
  by (simp add: pack_fixed_bytes_def expand_write_errored)

lemma pk_read_reading:
  assumes "reading p rest"
  shows "pk_read n p =
    (if n \<le> length rest then (take n rest, p\<lparr>pk_offset := pk_offset p + n\<rparr>)
     else ([], p\<lparr>pk_err := Some InsufficientLength\<rparr>))"
  using assms by (auto simp: reading_def pk_read_def check_space_def pk_errored_def checked_add64_def
      pbuf_len_def add_error_def sat_add64_def Let_def)

lemma pk_read_errored: "pk_err p \<noteq> None \<Longrightarrow> pk_read n p = ([], p)"
  by (simp add: pk_read_def check_space_def pk_errored_def)

lemma reading_advance:
  "reading p rest \<Longrightarrow> n \<le> length rest \<Longrightarrow> reading (p\<lparr>pk_offset := pk_offset p + n\<rparr>) (drop n rest)"
  by (auto simp: reading_def drop_drop add.commute)

lemma writing_append:
  "writing p v \<Longrightarrow> writing (p\<lparr>pk_bytes := WriteBuf (v @ data)\<rparr>) (v @ data)"
  by (simp add: writing_def)

end
