(* ===== verification/Ava_Codec.thy ===== *)
theory Ava_Codec
  imports Ava_Packer "HOL-Library.List_Lexorder"
begin

text \<open>
  The linear codec: \<^verbatim>\<open>Serializable\<close> and \<^verbatim>\<open>Deserializable\<close> with their
  implementations for integers, booleans, strings, byte arrays, vectors and
  ordered maps (\<^verbatim>\<open>crates/ava-codec/src/lib.rs\<close>), the type-id registry
  (\<^verbatim>\<open>linearcodec.rs\<close>) and the versioned manager (\<^verbatim>\<open>manager.rs\<close>).

  An implementation of the two traits is a record of their methods; the
  implementations for \<^verbatim>\<open>Vec<T>\<close> and \<^verbatim>\<open>BTreeMap<K, V>\<close> take those of their parameters.
  \<^verbatim>\<open>unmarshal_from\<close> takes the old value of the destination, which it leaves
  there when it fails.
\<close>

section \<open>The codec traits and their implementations\<close>

record 'a codec =
  c_marshal :: "'a \<Rightarrow> packer \<Rightarrow> packer"
  c_size :: "'a \<Rightarrow> nat"
  c_unmarshal :: "'a \<Rightarrow> packer \<Rightarrow> 'a \<times> packer"
  c_default :: 'a

definition u8_codec :: "u8 codec" where
  "u8_codec = \<lparr>c_marshal = pack_byte, c_size = (\<lambda>_. BYTE_LEN),
     c_unmarshal = (\<lambda>_. unpack_byte), c_default = 0\<rparr>"

definition u16_codec :: "nat codec" where
  "u16_codec = \<lparr>c_marshal = pack_u16, c_size = (\<lambda>_. SHORT_LEN),
     c_unmarshal = (\<lambda>_. unpack_u16), c_default = 0\<rparr>"

definition u32_codec :: "nat codec" where
  "u32_codec = \<lparr>c_marshal = pack_u32, c_size = (\<lambda>_. INT_LEN),
     c_unmarshal = (\<lambda>_. unpack_u32), c_default = 0\<rparr>"

definition u64_codec :: "nat codec" where
  "u64_codec = \<lparr>c_marshal = pack_u64, c_size = (\<lambda>_. LONG_LEN),
     c_unmarshal = (\<lambda>_. unpack_u64), c_default = 0\<rparr>"

definition bool_codec :: "bool codec" where
  "bool_codec = \<lparr>c_marshal = pack_bool, c_size = (\<lambda>_. BOOL_LEN),
     c_unmarshal = (\<lambda>_. unpack_bool), c_default = False\<rparr>"

definition string_codec :: "u8 list codec" where
  "string_codec = \<lparr>c_marshal = pack_str, c_size = (\<lambda>s. sat_add64 SHORT_LEN (length s)),
     c_unmarshal = (\<lambda>_. unpack_str), c_default = []\<rparr>"

definition array_unmarshal :: "nat \<Rightarrow> u8 list \<Rightarrow> packer \<Rightarrow> u8 list \<times> packer" where
  "array_unmarshal n old p =
     (let (raw, p') = unpack_fixed_bytes n p in (if length raw = n then raw else old, p'))"

definition array_codec :: "nat \<Rightarrow> u8 list codec" where
  "array_codec n = \<lparr>c_marshal = pack_fixed_bytes, c_size = (\<lambda>_. n),
     c_unmarshal = array_unmarshal n, c_default = replicate n 0\<rparr>"

definition MAX_SLICE_LEN :: nat where
  "MAX_SLICE_LEN = 2 ^ 31 - 1"

definition pack_count :: "nat \<Rightarrow> packer \<Rightarrow> packer" where
  "pack_count len p = (if len > MAX_SLICE_LEN then add_error Oversized p else pack_u32 len p)"

subsection \<open>Vectors\<close>

fun vec_elems :: "'a codec \<Rightarrow> packer \<Rightarrow> 'a list \<Rightarrow> packer" where
  "vec_elems c p [] = p"
| "vec_elems c p (x # xs) =
     (let p' = c_marshal c x p in
      if \<not> pk_errored p' \<and> pk_cursor p' = pk_cursor p then add_error InvalidInput p'
      else vec_elems c p' xs)"

definition vec_marshal :: "'a codec \<Rightarrow> 'a list \<Rightarrow> packer \<Rightarrow> packer" where
  "vec_marshal c xs p = vec_elems c (pack_count (length xs) p) xs"

definition vec_size :: "'a codec \<Rightarrow> 'a list \<Rightarrow> nat" where
  "vec_size c xs = foldl (\<lambda>total x. sat_add64 total (c_size c x)) INT_LEN xs"

text \<open>The decoding loop; \<open>None\<close> stands for the early returns.\<close>

fun vec_loop :: "'a codec \<Rightarrow> nat \<Rightarrow> 'a list \<Rightarrow> packer \<Rightarrow> 'a list option \<times> packer" where
  "vec_loop c 0 out p = (Some out, p)"
| "vec_loop c (Suc n) out p =
     (let (x, p') = c_unmarshal c (c_default c) p in
      if pk_errored p' then (None, p')
      else if pk_cursor p' = pk_cursor p then (None, add_error InvalidInput p')
      else vec_loop c n (out @ [x]) p')"

definition vec_unmarshal :: "'a codec \<Rightarrow> 'a list \<Rightarrow> packer \<Rightarrow> 'a list \<times> packer" where
  "vec_unmarshal c old p =
     (let (cnt, p1) = unpack_u32 p in
      if pk_errored p1 then (old, p1)
      else let (res, p2) = vec_loop c cnt [] p1 in
        (case res of None \<Rightarrow> old | Some out \<Rightarrow> out, p2))"

definition vec_codec :: "'a codec \<Rightarrow> 'a list codec" where
  "vec_codec c = \<lparr>c_marshal = vec_marshal c, c_size = vec_size c,
     c_unmarshal = vec_unmarshal c, c_default = []\<rparr>"

subsection \<open>Maps\<close>

text \<open>\<^verbatim>\<open>BTreeMap::marshal_into\<close>: serialize the keys, sort, write.\<close>

definition key_packer :: "'k codec \<Rightarrow> 'k \<Rightarrow> packer" where
  "key_packer kc k = c_marshal kc k (new_write (max (c_size kc k) 1))"

fun map_keys :: "'k codec \<Rightarrow> packer \<Rightarrow> ('k \<times> 'v) list \<Rightarrow> (u8 list \<times> 'v) list
    \<Rightarrow> packer \<times> (u8 list \<times> 'v) list option" where
  "map_keys kc p [] entries = (p, Some entries)"
| "map_keys kc p ((k, v) # m) entries = (case pk_err (key_packer kc k) of
       Some e \<Rightarrow> (add_error e p, None)
     | None \<Rightarrow> map_keys kc p m (entries @ [(into_bytes (key_packer kc k), v)]))"

fun map_write :: "'v codec \<Rightarrow> packer \<Rightarrow> (u8 list \<times> 'v) list \<Rightarrow> packer" where
  "map_write vc p [] = p"
| "map_write vc p ((kb, v) # es) =
     (let p' = c_marshal vc v (pack_fixed_bytes kb p) in
      if pk_errored p' then p' else map_write vc p' es)"

definition map_marshal :: "'k codec \<Rightarrow> 'v codec \<Rightarrow> ('k, 'v) btree \<Rightarrow> packer \<Rightarrow> packer" where
  "map_marshal kc vc m p =
     (let p1 = pack_count (length m) p in
      if pk_errored p1 then p1
      else case map_keys kc p1 m [] of
        (p2, None) \<Rightarrow> p2
      | (p2, Some entries) \<Rightarrow> map_write vc p2 (sort_key fst entries))"

definition map_size :: "'k codec \<Rightarrow> 'v codec \<Rightarrow> ('k, 'v) btree \<Rightarrow> nat" where
  "map_size kc vc m =
     foldl (\<lambda>total (k, v). sat_add64 (sat_add64 total (c_size kc k)) (c_size vc v)) INT_LEN m"

fun map_loop :: "('k::linorder) codec \<Rightarrow> 'v codec \<Rightarrow> nat \<Rightarrow> ('k, 'v) btree \<Rightarrow> u8 list option \<Rightarrow> packer
    \<Rightarrow> ('k, 'v) btree option \<times> packer" where
  "map_loop kc vc 0 out prev p = (Some out, p)"
| "map_loop kc vc (Suc n) out prev p =
     (let (k, p1) = c_unmarshal kc (c_default kc) p in
      if pk_errored p1 then (None, p1)
      else let key_bytes = into_bytes (key_packer kc k) in
        if (case prev of None \<Rightarrow> False | Some pb \<Rightarrow> key_bytes \<le> pb) then (None, add_error InvalidInput p1)
        else let (v, p2) = c_unmarshal vc (c_default vc) p1 in
          if pk_errored p2 then (None, p2)
          else map_loop kc vc n (bt_insert k v out) (Some key_bytes) p2)"

definition map_unmarshal ::
    "('k::linorder) codec \<Rightarrow> 'v codec \<Rightarrow> ('k, 'v) btree \<Rightarrow> packer \<Rightarrow> ('k, 'v) btree \<times> packer" where
  "map_unmarshal kc vc old p =
     (let (cnt, p1) = unpack_u32 p in
      if pk_errored p1 then (old, p1)
      else let (res, p2) = map_loop kc vc cnt [] None p1 in
        (case res of None \<Rightarrow> old | Some out \<Rightarrow> out, p2))"

definition map_codec :: "('k::linorder) codec \<Rightarrow> 'v codec \<Rightarrow> ('k, 'v) btree codec" where
  "map_codec kc vc = \<lparr>c_marshal = map_marshal kc vc, c_size = map_size kc vc,
     c_unmarshal = map_unmarshal kc vc, c_default = []\<rparr>"

text \<open>
  A derived struct is the concatenation of its fields in declaration order; the
  nested pair is the derive of a struct with two fields.
\<close>

definition pair_codec :: "'a codec \<Rightarrow> 'b codec \<Rightarrow> ('a \<times> 'b) codec" where
  "pair_codec a b = \<lparr>c_marshal = (\<lambda>(x, y) p. c_marshal b y (c_marshal a x p)),
     c_size = (\<lambda>(x, y). sat_add64 (c_size a x) (c_size b y)),
     c_unmarshal = (\<lambda>(x, y) p. let (x', p1) = c_unmarshal a x p; (y', p2) = c_unmarshal b y p1 in ((x', y'), p2)),
     c_default = (c_default a, c_default b)\<rparr>"

text \<open>
  A derived interface enum: \<open>tag\<close> is the type id of a variant and \<open>arms\<close> gives the
  codec of the payload of every type id, here on values of the enum itself.
\<close>

definition enum_unmarshal :: "(nat \<times> 'e codec) list \<Rightarrow> 'e \<Rightarrow> packer \<Rightarrow> 'e \<times> packer" where
  "enum_unmarshal arms old p =
     (let (type_id, p1) = unpack_u32 p in
      if pk_errored p1 then (old, p1)
      else case map_of arms type_id of
        None \<Rightarrow> (old, add_error InvalidInput p1)
      | Some a \<Rightarrow>
          let (inner, p2) = c_unmarshal a (c_default a) p1 in
          (if \<not> pk_errored p2 then inner else old, p2))"

definition enum_codec :: "(nat \<times> 'e codec) list \<Rightarrow> ('e \<Rightarrow> nat) \<Rightarrow> 'e \<Rightarrow> 'e codec" where
  "enum_codec arms tag dflt = \<lparr>
     c_marshal = (\<lambda>e p. case map_of arms (tag e) of None \<Rightarrow> p | Some a \<Rightarrow> c_marshal a e (pack_u32 (tag e) p)),
     c_size = (\<lambda>e. case map_of arms (tag e) of None \<Rightarrow> 0 | Some a \<Rightarrow> sat_add64 INT_LEN (c_size a e)),
     c_unmarshal = enum_unmarshal arms, c_default = dflt\<rparr>"

section \<open>The linear codec and its registry\<close>

datatype codec_error =
    UnsupportedType | MaxSliceLenExceeded | DoesNotImplementInterface | UnexportedField
  | MarshalZeroLength | UnmarshalZeroLength | UnknownVersion | MarshalNil | UnmarshalNil
  | UnmarshalTooBig | CantPackVersion | CantUnpackVersion | DuplicatedVersion | ExtraSpace
  | DuplicateType | UnknownTypeId nat | PackerErr packer_error

definition map_packer_error :: "packer_error \<Rightarrow> codec_error" where
  "map_packer_error e = (case e of Oversized \<Rightarrow> MaxSliceLenExceeded | err \<Rightarrow> PackerErr err)"

definition linear_marshal_into :: "'a codec \<Rightarrow> 'a \<Rightarrow> packer \<Rightarrow> packer \<times> (codec_error + unit)" where
  "linear_marshal_into c v p =
     (let p' = c_marshal c v p in
      (p', case pk_err p' of Some e \<Rightarrow> Inl (map_packer_error e) | None \<Rightarrow> Inr ()))"

definition linear_unmarshal_from :: "'a codec \<Rightarrow> 'a \<Rightarrow> packer \<Rightarrow> 'a \<times> packer \<times> (codec_error + unit)" where
  "linear_unmarshal_from c d p =
     (let (v, p') = c_unmarshal c d p in
      (v, p', case pk_err p' of Some e \<Rightarrow> Inl (map_packer_error e) | None \<Rightarrow> Inr ()))"

definition linear_size :: "'a codec \<Rightarrow> 'a \<Rightarrow> codec_error + nat" where
  "linear_size c v = Inr (c_size c v)"

record type_id_registry =
  tr_next :: nat
  tr_assigned :: "(string \<times> nat) list"

definition registry_new :: type_id_registry where
  "registry_new = \<lparr>tr_next = 0, tr_assigned = []\<rparr>"

definition checked_add32 :: "nat \<Rightarrow> nat \<Rightarrow> nat option" where
  "checked_add32 a b = (if a + b \<le> u32_max then Some (a + b) else None)"

definition registry_register :: "type_id_registry \<Rightarrow> string \<Rightarrow> type_id_registry \<times> (codec_error + nat)" where
  "registry_register r name =
     (if list_ex (\<lambda>(n, _). n = name) (tr_assigned r) then (r, Inl DuplicateType)
      else case checked_add32 (tr_next r) 1 of
        None \<Rightarrow> (r, Inl MaxSliceLenExceeded)
      | Some next \<Rightarrow> (r\<lparr>tr_next := next, tr_assigned := tr_assigned r @ [(name, tr_next r)]\<rparr>, Inr (tr_next r)))"

definition registry_skip :: "type_id_registry \<Rightarrow> nat \<Rightarrow> type_id_registry \<times> (codec_error + unit)" where
  "registry_skip r n = (case checked_add32 (tr_next r) n of
       None \<Rightarrow> (r, Inl MaxSliceLenExceeded)
     | Some next \<Rightarrow> (r\<lparr>tr_next := next\<rparr>, Inr ()))"

section \<open>The manager\<close>

text \<open>The only implementation of \<^verbatim>\<open>Codec\<close> is the stateless linear codec.\<close>

datatype codec_impl = LinearCodec

record manager =
  mg_max_size :: nat
  mg_codecs :: "(nat \<times> codec_impl) list"

definition VERSION_SIZE :: nat where "VERSION_SIZE = SHORT_LEN"
definition DEFAULT_MAX_SIZE :: nat where "DEFAULT_MAX_SIZE = 256 * 1024"

definition mg_new :: "nat \<Rightarrow> manager" where
  "mg_new max_size = \<lparr>mg_max_size = max_size, mg_codecs = []\<rparr>"

definition mg_register :: "manager \<Rightarrow> nat \<Rightarrow> codec_impl \<Rightarrow> manager \<times> (codec_error + unit)" where
  "mg_register m version c =
     (if map_of (mg_codecs m) version \<noteq> None then (m, Inl DuplicatedVersion)
      else (m\<lparr>mg_codecs := (version, c) # mg_codecs m\<rparr>, Inr ()))"

definition mg_codec :: "manager \<Rightarrow> nat \<Rightarrow> codec_error + codec_impl" where
  "mg_codec m version = (case map_of (mg_codecs m) version of None \<Rightarrow> Inl UnknownVersion | Some c \<Rightarrow> Inr c)"

definition mg_size :: "manager \<Rightarrow> nat \<Rightarrow> 'a codec \<Rightarrow> 'a \<Rightarrow> codec_error + nat" where
  "mg_size m version c v = (case mg_codec m version of
       Inl e \<Rightarrow> Inl e
     | Inr _ \<Rightarrow> (case linear_size c v of
         Inl e \<Rightarrow> Inl e
       | Inr n \<Rightarrow> (case checked_add64 n VERSION_SIZE of None \<Rightarrow> Inl MaxSliceLenExceeded | Some s \<Rightarrow> Inr s)))"

definition mg_marshal :: "manager \<Rightarrow> nat \<Rightarrow> 'a codec \<Rightarrow> 'a \<Rightarrow> codec_error + u8 list" where
  "mg_marshal m version c v = (case mg_size m version c v of
       Inl e \<Rightarrow> Inl e
     | Inr needed \<Rightarrow>
         let p = pack_u16 version (with_max_size (max (mg_max_size m) needed)) in
         if pk_err p \<noteq> None then Inl CantPackVersion
         else (case linear_marshal_into c v p of
            (p', Inl e) \<Rightarrow> Inl e
          | (p', Inr _) \<Rightarrow> (case pk_err p' of Some e \<Rightarrow> Inl (map_packer_error e) | None \<Rightarrow> Inr (into_bytes p'))))"

definition mg_unmarshal :: "manager \<Rightarrow> u8 list \<Rightarrow> 'a codec \<Rightarrow> 'a \<Rightarrow> codec_error + nat \<times> 'a" where
  "mg_unmarshal m src c d =
     (if length src > mg_max_size m then Inl UnmarshalTooBig
      else let (version, p) = unpack_u16 (new_read src) in
        if pk_err p \<noteq> None then Inl CantUnpackVersion
        else (case mg_codec m version of
           Inl e \<Rightarrow> Inl e
         | Inr _ \<Rightarrow> (case linear_unmarshal_from c d p of
             (v, p', Inl e) \<Rightarrow> Inl e
           | (v, p', Inr _) \<Rightarrow>
               (case pk_err p' of
                  Some e \<Rightarrow> Inl (map_packer_error e)
                | None \<Rightarrow> if pk_offset p' \<noteq> length src then Inl ExtraSpace else Inr (version, v)))))"

end
