(* ===== verification/Ava_Codec_Spec.thy ===== *)
theory Ava_Codec_Spec
  imports Ava_Codec
begin

text \<open>
  The contract of the codec traits (locale \<open>serial\<close>): what is written for a value
  is its encoding, what is read back is the value, and nothing but the encoding
  of a value is accepted. The contract holds for the primitive implementations
  and is kept by vectors, maps, structs and interface enums, so it holds for
  every type built from them.
\<close>

section \<open>The contract\<close>

abbreviation skip_read :: "nat \<Rightarrow> packer \<Rightarrow> packer" where
  "skip_read n p \<equiv> p\<lparr>pk_offset := pk_offset p + n\<rparr>"

locale serial =
  fixes C :: "'a codec"
    and enc :: "'a \<Rightarrow> u8 list"
    and ok :: "'a \<Rightarrow> bool"
  assumes marshal_errored: "pk_err p \<noteq> None \<Longrightarrow> c_marshal C v p = p"
    and marshal_fits: "writing p w \<Longrightarrow> ok v \<Longrightarrow> length w + length (enc v) \<le> pk_max_size p \<Longrightarrow>
          c_marshal C v p = p\<lparr>pk_bytes := WriteBuf (w @ enc v)\<rparr>"
    and marshal_full: "writing p w \<Longrightarrow> ok v \<Longrightarrow> pk_max_size p < length w + length (enc v) \<Longrightarrow>
          pk_err (c_marshal C v p) \<noteq> None"
    and size_enc: "ok v \<Longrightarrow> length (enc v) \<le> u64_max \<Longrightarrow> c_size C v = length (enc v)"
    and unmarshal_errored: "pk_err p \<noteq> None \<Longrightarrow> pk_err (snd (c_unmarshal C d p)) \<noteq> None"
    and unmarshal_enc: "reading p (enc v @ rest) \<Longrightarrow> ok v \<Longrightarrow>
          c_unmarshal C d p = (v, skip_read (length (enc v)) p)"
    and unmarshal_sound: "reading p bs \<Longrightarrow> length bs \<le> MAX_SLICE_LEN \<Longrightarrow>
          c_unmarshal C d p = (v, p') \<Longrightarrow> pk_err p' = None \<Longrightarrow>
          ok v \<and> (\<exists>rest. bs = enc v @ rest \<and> p' = skip_read (length (enc v)) p)"
begin

lemma enc_prefix_free:
  assumes "ok v" "ok w" "enc v @ r = enc w @ r'" "length (enc v @ r) \<le> u64_max"
  shows "v = w \<and> r = r'"
proof -
  have rd: "reading (new_read (enc v @ r)) (enc v @ r)"
    using assms(4) by (simp add: reading_def new_read_def)
  from unmarshal_enc [OF rd assms(1), of "c_default C"]
    unmarshal_enc [OF rd [unfolded assms(3)] assms(2), of "c_default C"]
  have "v = w" by (simp add: assms(3))
  with assms(3) show ?thesis by simp
qed

end

locale serial_ne = serial +
  assumes enc_ne: "ok v \<Longrightarrow> enc v \<noteq> []"

section \<open>Primitive implementations\<close>

lemma reading_append_take: "reading p (xs @ rest) \<Longrightarrow> n = length xs \<Longrightarrow>
    pk_read n p = (xs, skip_read n p)"
  by (simp add: pk_read_reading)

lemma pk_read_cases:
  assumes "reading p bs" "pk_read n p = (b, p')"
  obtains "n \<le> length bs" "b = take n bs" "p' = skip_read n p" "pk_err p' = None"
  | "b = []" "pk_err p' \<noteq> None"
  using assms by (auto simp: pk_read_reading reading_def split: if_splits)

lemma writing_fixed:
  assumes "writing p w"
  shows "length w + length data \<le> pk_max_size p \<Longrightarrow>
      pack_fixed_bytes data p = p\<lparr>pk_bytes := WriteBuf (w @ data)\<rparr>"
    "pk_max_size p < length w + length data \<Longrightarrow> pk_err (pack_fixed_bytes data p) \<noteq> None"
  using assms by (simp_all add: pack_fixed_writing)

lemma be_bytes_ne: "0 < n \<Longrightarrow> be_bytes n x \<noteq> []"
  using length_be_bytes [of n x] by (metis length_greater_0_conv)

text \<open>The integers: \<open>n\<close> bytes, big-endian.\<close>

lemma int_serial:
  fixes C :: "nat codec"
  assumes n: "0 < n" "n \<le> 8"
    and m: "c_marshal C = (\<lambda>v. pack_fixed_bytes (be_bytes n v))" and s: "c_size C = (\<lambda>_. n)"
    and u: "c_unmarshal C = (\<lambda>_ p. let (b, p') = pk_read n p in (if length b = n then from_be b else 0, p'))"
  shows "serial_ne C (be_bytes n) (\<lambda>v. v < 256 ^ n)"
proof unfold_locales
  fix p bs d v p'
  assume rd: "reading p bs" and len: "length bs \<le> MAX_SLICE_LEN" and uv: "c_unmarshal C d p = (v, p')" and ne: "pk_err p' = None"
  obtain b q where q: "pk_read n p = (b, q)" by fastforce
  with uv u have vq: "v = (if length b = n then from_be b else 0)" "p' = q" by auto
  from rd q show "v < 256 ^ n \<and> (\<exists>rest. bs = be_bytes n v @ rest
      \<and> p' = skip_read (length (be_bytes n v)) p)"
  proof (cases rule: pk_read_cases)
    case 1
    then have "length b = n" by simp
    with vq have v: "v = from_be b" by simp
    have "be_bytes n v = b" using be_bytes_from [of b] \<open>length b = n\<close> v by simp
    moreover have "v < 256 ^ n" using from_be_less [of b] \<open>length b = n\<close> v by simp
    moreover have "bs = b @ drop n bs" using 1 by simp
    ultimately show ?thesis using 1 vq by (auto intro!: exI [of _ "drop n bs"])
  qed (use vq ne in simp)
next
  fix p v rest and d :: nat
  assume "reading p (be_bytes n v @ rest)" "v < 256 ^ n"
  then show "c_unmarshal C d p = (v, skip_read (length (be_bytes n v)) p)"
    by (simp add: u reading_append_take [where xs = "be_bytes n v"] from_be_bytes)
next
  fix v :: nat assume "v < 256 ^ n" then show "be_bytes n v \<noteq> []" using n by (simp add: be_bytes_ne)
qed (use n in \<open>auto simp: m s u pack_fixed_errored writing_fixed pk_read_errored\<close>)

interpretation u16c: serial_ne u16_codec "be_bytes 2" "\<lambda>v. v < 256 ^ 2"
  by (rule int_serial) (simp_all add: u16_codec_def pack_raw unpack_u16_def packer_lens fun_eq_iff)

interpretation u32c: serial_ne u32_codec "be_bytes 4" "\<lambda>v. v < 256 ^ 4"
  by (rule int_serial) (simp_all add: u32_codec_def pack_raw unpack_u32_def packer_lens fun_eq_iff)

interpretation u64c: serial_ne u64_codec "be_bytes 8" "\<lambda>v. v < 256 ^ 8"
  by (rule int_serial) (simp_all add: u64_codec_def pack_raw unpack_u64_def packer_lens fun_eq_iff)

lemma take_1_conv: "0 < length bs \<Longrightarrow> take (Suc 0) bs = [hd bs]"
  by (cases bs) auto

interpretation u8c: serial_ne u8_codec "\<lambda>b. [b]" "\<lambda>_. True"
proof unfold_locales
  fix p bs d v p'
  assume rd: "reading p bs" and len: "length bs \<le> MAX_SLICE_LEN" and uv: "c_unmarshal u8_codec d p = (v, p')" and ne: "pk_err p' = None"
  obtain b q where q: "pk_read 1 p = (b, q)" by fastforce
  with uv have vq: "v = (case b of [] \<Rightarrow> 0 | x # _ \<Rightarrow> x)" "p' = q"
    by (auto simp: u8_codec_def unpack_byte_def packer_lens)
  from rd q show "True \<and> (\<exists>rest. bs = [v] @ rest \<and> p' = skip_read (length [v]) p)"
  proof (cases rule: pk_read_cases)
    case 1
    with vq show ?thesis by (cases bs) auto
  qed (use vq ne in simp)
qed (auto simp: u8_codec_def pack_raw pack_fixed_errored writing_fixed unpack_byte_def packer_lens
    pk_read_errored pk_read_reading)

interpretation boolc: serial_ne bool_codec "\<lambda>b. [if b then 1 else 0]" "\<lambda>_. True"
proof unfold_locales
  fix p bs d v p'
  assume rd: "reading p bs" and len: "length bs \<le> MAX_SLICE_LEN" and uv: "c_unmarshal bool_codec d p = (v, p')" and ne: "pk_err p' = None"
  obtain x q where xq: "unpack_byte p = (x, q)" by fastforce
  from uv xq ne have vq: "v = (x = 1)" "p' = q" "x = 0 \<or> x = 1"
    by (auto simp: bool_codec_def unpack_bool_def split: if_splits)
  from u8c.unmarshal_sound [OF rd len, of d' x q for d'] xq ne vq
  show "True \<and> (\<exists>rest. bs = [if v then 1 else 0] @ rest
      \<and> p' = skip_read (length [if v then 1 else 0 :: u8]) p)"
    by (auto simp: u8_codec_def)
next
  fix p :: packer and d assume "pk_err p \<noteq> None"
  then show "pk_err (snd (c_unmarshal bool_codec d p)) \<noteq> None"
    by (simp add: bool_codec_def unpack_bool_def unpack_byte_def pk_read_errored)
next
  fix p v rest d
  assume "reading p ([if v then 1 else 0] @ rest)"
  then show "c_unmarshal bool_codec d p = (v, skip_read (length [if v then 1 else 0 :: u8]) p)"
    by (simp add: bool_codec_def unpack_bool_def unpack_byte_def packer_lens pk_read_reading)
qed (auto simp: bool_codec_def pack_bool_def pack_raw pack_fixed_errored writing_fixed packer_lens)

interpretation arrc: serial "array_codec n" "\<lambda>b. b" "\<lambda>b. length b = n" for n
proof unfold_locales
  fix p bs d v p'
  assume rd: "reading p bs" and len: "length bs \<le> MAX_SLICE_LEN" and uv: "c_unmarshal (array_codec n) d p = (v, p')" and ne: "pk_err p' = None"
  obtain b q where q: "pk_read n p = (b, q)" by fastforce
  with uv have vq: "v = (if length b = n then b else d)" "p' = q"
    by (auto simp: array_codec_def array_unmarshal_def unpack_fixed_bytes_def)
  from rd q show "length v = n \<and> (\<exists>rest. bs = v @ rest \<and> p' = skip_read (length v) p)"
  proof (cases rule: pk_read_cases)
    case 1
    with vq show ?thesis by (auto intro!: exI [of _ "drop n bs"])
  qed (use vq ne in simp)
qed (auto simp: array_codec_def pack_fixed_errored writing_fixed array_unmarshal_def unpack_fixed_bytes_def
    pk_read_errored pk_read_reading)

section \<open>Structs, enums, strings\<close>

lemma serial_step:
  assumes s: "serial C enc ok" and "writing p w" "ok v"
  obtains "length w + length (enc v) \<le> pk_max_size p"
      "c_marshal C v p = p\<lparr>pk_bytes := WriteBuf (w @ enc v)\<rparr>" "writing (c_marshal C v p) (w @ enc v)"
      "pk_max_size (c_marshal C v p) = pk_max_size p"
  | "pk_max_size p < length w + length (enc v)" "pk_err (c_marshal C v p) \<noteq> None"
proof (cases "length w + length (enc v) \<le> pk_max_size p")
  case True
  with serial.marshal_fits [OF assms(1,2,3) True] writing_append [OF assms(2)] that(1) show ?thesis by simp
next
  case False
  then show ?thesis using serial.marshal_full [OF assms] that(2) by simp
qed

lemma reading_append:
  "reading p (xs @ rest) \<Longrightarrow> n = length xs \<Longrightarrow> reading (skip_read n p) rest"
  using reading_advance [of p "xs @ rest" n] by simp

lemma reading_ok: "reading p bs \<Longrightarrow> pk_err p = None"
  by (simp add: reading_def)

lemma serial_no_err:
  "serial C enc ok \<Longrightarrow> c_unmarshal C d p = (v, p') \<Longrightarrow> pk_err p' = None \<Longrightarrow> pk_err p = None"
  using serial.unmarshal_errored [of C enc ok p d] by (cases "pk_err p") auto

lemma pair_serial:
  fixes A :: "'a codec" and B :: "'b codec"
  assumes a: "serial A ea oka" and b: "serial B eb okb"
  shows "serial (pair_codec A B) (\<lambda>(x, y). ea x @ eb y) (\<lambda>(x, y). oka x \<and> okb y)"
proof unfold_locales
  fix p w v
  assume w: "writing p w" and ok: "case v of (x, y) \<Rightarrow> oka x \<and> okb y"
  obtain x y where v: "v = (x, y)" by fastforce
  with ok have okx: "oka x" and oky: "okb y" by auto
  { assume fits: "length w + length (case v of (x, y) \<Rightarrow> ea x @ eb y) \<le> pk_max_size p"
    from a w okx show "c_marshal (pair_codec A B) v p = p\<lparr>pk_bytes := WriteBuf (w @ (case v of (x, y) \<Rightarrow> ea x @ eb y))\<rparr>"
    proof (cases rule: serial_step)
      case 1
      then show ?thesis using serial.marshal_fits [OF b 1(3) oky] fits v by (simp add: pair_codec_def)
    qed (use fits v in simp) }
  { assume full: "pk_max_size p < length w + length (case v of (x, y) \<Rightarrow> ea x @ eb y)"
    from a w okx show "pk_err (c_marshal (pair_codec A B) v p) \<noteq> None"
    proof (cases rule: serial_step)
      case 1
      then show ?thesis using serial.marshal_full [OF b 1(3) oky] full v by (simp add: pair_codec_def)
    next
      case 2
      then show ?thesis using serial.marshal_errored [OF b 2(2)] v by (simp add: pair_codec_def)
    qed }
next
  fix p v rest d
  assume r: "reading p ((case v of (x, y) \<Rightarrow> ea x @ eb y) @ rest)" and ok: "case v of (x, y) \<Rightarrow> oka x \<and> okb y"
  obtain x y where v: "v = (x, y)" by fastforce
  from r v have r': "reading p (ea x @ (eb y @ rest))" by simp
  from serial.unmarshal_enc [OF a r'] serial.unmarshal_enc [OF b reading_append [OF r' refl]] ok v
  show "c_unmarshal (pair_codec A B) d p = (v, skip_read (length (case v of (x, y) \<Rightarrow> ea x @ eb y)) p)"
    by (auto simp: pair_codec_def split: prod.splits)
next
  fix p bs d v p'
  assume r: "reading p bs" and len: "length bs \<le> MAX_SLICE_LEN"
    and u: "c_unmarshal (pair_codec A B) d p = (v, p')" and ne: "pk_err p' = None"
  obtain dx dy where d: "d = (dx, dy)" by fastforce
  obtain x p1 where x: "c_unmarshal A dx p = (x, p1)" by fastforce
  obtain y p2 where y: "c_unmarshal B dy p1 = (y, p2)" by fastforce
  from u d x y have v: "v = (x, y)" "p' = p2" by (auto simp: pair_codec_def)
  have "pk_err p1 = None" using serial_no_err [OF b y] ne v by simp
  with serial.unmarshal_sound [OF a r len x] obtain rest where
    1: "oka x" "bs = ea x @ rest" "p1 = skip_read (length (ea x)) p" by auto
  with serial.unmarshal_sound [OF b reading_append [OF r [unfolded 1(2)] refl], of dy y p2] y len ne v
  show "(case v of (x, y) \<Rightarrow> oka x \<and> okb y) \<and> (\<exists>rest. bs = (case v of (x, y) \<Rightarrow> ea x @ eb y) @ rest
      \<and> p' = skip_read (length (case v of (x, y) \<Rightarrow> ea x @ eb y)) p)"
    by (auto simp: add.assoc)
next
  fix p :: packer and d :: "'a \<times> 'b"
  assume e: "pk_err p \<noteq> None"
  obtain dx dy where d: "d = (dx, dy)" by fastforce
  obtain x p1 where x: "c_unmarshal A dx p = (x, p1)" by fastforce
  obtain y p2 where y: "c_unmarshal B dy p1 = (y, p2)" by fastforce
  show "pk_err (snd (c_unmarshal (pair_codec A B) d p)) \<noteq> None"
    using serial_no_err [OF a x] serial_no_err [OF b y] e d x y
    by (cases "pk_err p2") (simp_all add: pair_codec_def)
qed (auto simp: pair_codec_def serial.marshal_errored [OF a] serial.marshal_errored [OF b]
    serial.size_enc [OF a] serial.size_enc [OF b] sat_add64_def)

interpretation strc: serial_ne string_codec "\<lambda>s. be_bytes 2 (length s) @ s"
    "\<lambda>s. length s \<le> MAX_STRING_LEN \<and> utf8_valid s"
proof unfold_locales
  fix p w and v :: "u8 list"
  assume w: "writing p w" and ok: "length v \<le> MAX_STRING_LEN \<and> utf8_valid v"
  let ?p1 = "c_marshal u16_codec (length v) p"
  have eq: "c_marshal string_codec v p = pack_fixed_bytes v ?p1"
    using ok by (simp add: string_codec_def pack_str_def u16_codec_def MAX_STRING_LEN_def)
  have l: "length v < 256 ^ 2" using ok by (simp add: MAX_STRING_LEN_def)
  { assume "length w + length (be_bytes 2 (length v) @ v) \<le> pk_max_size p"
    with w l show "c_marshal string_codec v p = p\<lparr>pk_bytes := WriteBuf (w @ be_bytes 2 (length v) @ v)\<rparr>"
      using pack_fixed_writing [OF writing_append [OF w]] by (simp add: eq u16c.marshal_fits) }
  { assume full: "pk_max_size p < length w + length (be_bytes 2 (length v) @ v)"
    from u16c.serial_axioms w l show "pk_err (c_marshal string_codec v p) \<noteq> None"
    proof (cases rule: serial_step)
      case 1
      with full show ?thesis unfolding eq by (simp add: writing_fixed)
    qed (simp add: eq pack_fixed_errored) }
next
  fix p rest d and v :: "u8 list"
  assume r: "reading p ((be_bytes 2 (length v) @ v) @ rest)" and ok: "length v \<le> MAX_STRING_LEN \<and> utf8_valid v"
  then have r1: "reading p (be_bytes 2 (length v) @ v @ rest)" by simp
  have l: "length v < 256 ^ 2" using ok by (simp add: MAX_STRING_LEN_def)
  have "pk_read (length v) (skip_read 2 p) = (v, skip_read (length v) (skip_read 2 p))"
    using reading_append_take [OF reading_append [OF r1]] by simp
  moreover have "unpack_u16 p = (length v, skip_read 2 p)"
    using u16c.unmarshal_enc [OF r1 l] by (simp add: u16_codec_def)
  ultimately show "c_unmarshal string_codec d p = (v, skip_read (length (be_bytes 2 (length v) @ v)) p)"
    using ok reading_ok [OF r] by (simp add: string_codec_def unpack_str_def read_str_def pk_errored_def)
next
  fix p bs d v p'
  assume r: "reading p bs" and len: "length bs \<le> MAX_SLICE_LEN"
    and u: "c_unmarshal string_codec d p = (v, p')" and ne: "pk_err p' = None"
  obtain n p1 where n: "unpack_u16 p = (n, p1)" by fastforce
  obtain raw p2 where raw: "pk_read n p1 = (raw, p2)" by fastforce
  from u n raw ne have v: "v = raw" "p' = p2" "utf8_valid v"
    by (auto simp: string_codec_def unpack_str_def read_str_def pk_errored_def split: if_splits)
  have "pk_err p1 = None" using pk_read_errored [of p1 n] raw ne v by (cases "pk_err p1") auto
  with u16c.unmarshal_sound [OF r len, of d' n p1 for d'] n obtain rest where
    1: "n < 256 ^ 2" "bs = be_bytes 2 n @ rest" "p1 = skip_read 2 p" by (auto simp: u16_codec_def)
  from r 1 have r2: "reading p1 rest" using reading_append [of p "be_bytes 2 n" rest 2] by simp
  from r2 raw show "(length v \<le> MAX_STRING_LEN \<and> utf8_valid v) \<and> (\<exists>rest. bs = (be_bytes 2 (length v) @ v) @ rest
      \<and> p' = skip_read (length (be_bytes 2 (length v) @ v)) p)"
  proof (cases rule: pk_read_cases)
    case 1
    then show ?thesis using v \<open>n < 256 ^ 2\<close> \<open>bs = _\<close> \<open>p1 = _\<close>
      by (auto simp: MAX_STRING_LEN_def intro!: exI [of _ "drop n rest"])
  qed (use v ne in simp)
next
  fix p :: packer and d assume "pk_err p \<noteq> None"
  then show "pk_err (snd (c_unmarshal string_codec d p)) \<noteq> None"
    by (simp add: string_codec_def unpack_str_def unpack_u16_def read_str_def pk_read_errored pk_errored_def)
qed (auto simp: string_codec_def pack_str_def pack_raw pack_fixed_errored add_error_errored sat_add64_def
    packer_lens be_bytes_ne)

section \<open>Vectors\<close>

abbreviation vec_enc :: "('a \<Rightarrow> u8 list) \<Rightarrow> 'a list \<Rightarrow> u8 list" where
  "vec_enc enc xs \<equiv> be_bytes 4 (length xs) @ concat (map enc xs)"

abbreviation vec_ok :: "('a \<Rightarrow> bool) \<Rightarrow> 'a list \<Rightarrow> bool" where
  "vec_ok ok xs \<equiv> length xs \<le> MAX_SLICE_LEN \<and> list_all ok xs"

lemma pk_cursor_simps:
  "writing p w \<Longrightarrow> pk_cursor p = length w"
  "reading p bs \<Longrightarrow> pk_cursor p = pk_offset p"
  by (auto simp: writing_def reading_def pk_cursor_def)

lemma writing_ok: "writing p w \<Longrightarrow> pk_err p = None"
  by (simp add: writing_def)

lemma MAX_SLICE_LEN_u32: "n \<le> MAX_SLICE_LEN \<Longrightarrow> n < 256 ^ 4"
  by (simp add: MAX_SLICE_LEN_def)

lemma pack_count_u32: "n \<le> MAX_SLICE_LEN \<Longrightarrow> pack_count n p = c_marshal u32_codec n p"
  by (simp add: pack_count_def u32_codec_def)

lemma unpack_u32_codec: "unpack_u32 = c_unmarshal u32_codec d"
  by (simp add: u32_codec_def)

context serial_ne
begin

lemma vec_elems_errored: "pk_err p \<noteq> None \<Longrightarrow> vec_elems C p xs = p"
  by (induction xs) (auto simp: marshal_errored pk_errored_def)

lemma vec_elems_cons:
  assumes "writing p w" "ok x"
  shows "vec_elems C p (x # xs) = vec_elems C (c_marshal C x p) xs"
  using serial_axioms assms
proof (cases rule: serial_step)
  case 1
  with enc_ne [OF assms(2)] pk_cursor_simps(1) [OF assms(1)] pk_cursor_simps(1) [OF 1(3)] show ?thesis
    by simp
qed (auto simp: pk_errored_def Let_def)

lemma vec_elems_writing:
  "writing p w \<Longrightarrow> list_all ok xs \<Longrightarrow>
     (if length w + length (concat (map enc xs)) \<le> pk_max_size p
      then vec_elems C p xs = p\<lparr>pk_bytes := WriteBuf (w @ concat (map enc xs))\<rparr>
      else pk_max_size p < length w \<or> pk_err (vec_elems C p xs) \<noteq> None)"
proof (induction xs arbitrary: p w)
  case Nil
  then show ?case by (auto simp: writing_def)
next
  case (Cons x xs)
  then have okx: "ok x" and oks: "list_all ok xs" by simp_all
  from serial_axioms Cons.prems(1) okx show ?case
  proof (cases rule: serial_step)
    case 1
    with Cons.IH [OF 1(3) oks] show ?thesis
      unfolding vec_elems_cons [OF Cons.prems(1) okx] by (simp split: if_splits)
  next
    case 2
    then show ?thesis unfolding vec_elems_cons [OF Cons.prems(1) okx]
      by (simp add: vec_elems_errored)
  qed
qed

lemma vec_loop_enc:
  "reading p (concat (map enc xs) @ rest) \<Longrightarrow> list_all ok xs \<Longrightarrow>
     vec_loop C (length xs) out p = (Some (out @ xs), skip_read (length (concat (map enc xs))) p)"
proof (induction xs arbitrary: p out)
  case (Cons x xs)
  from Cons.prems have r: "reading p (enc x @ concat (map enc xs) @ rest)" and okx: "ok x" by simp_all
  note r' = reading_append [OF r refl]
  have "pk_cursor (skip_read (length (enc x)) p) \<noteq> pk_cursor p"
    using enc_ne [OF okx] by (simp add: pk_cursor_simps(2) [OF r] pk_cursor_simps(2) [OF r'])
  with unmarshal_enc [OF r okx, of "c_default C"] Cons.IH [OF r', of "out @ [x]"] Cons.prems(2)
    reading_ok [OF r'] show ?case by (simp add: pk_errored_def add.assoc)
qed simp

lemma vec_loop_sound:
  "reading p bs \<Longrightarrow> length bs \<le> MAX_SLICE_LEN \<Longrightarrow> vec_loop C n out p = (res, p') \<Longrightarrow> pk_err p' = None \<Longrightarrow>
     \<exists>xs rest. res = Some (out @ xs) \<and> length xs = n \<and> list_all ok xs \<and> bs = concat (map enc xs) @ rest
       \<and> p' = skip_read (length (concat (map enc xs))) p \<and> n \<le> length bs"
proof (induction n arbitrary: p bs out)
  case (Suc n)
  obtain x p1 where x: "c_unmarshal C (c_default C) p = (x, p1)" by fastforce
  from Suc.prems(3,4) x have step: "vec_loop C n (out @ [x]) p1 = (res, p')" "pk_err p1 = None"
    by (auto simp: pk_errored_def split: if_splits)
  from unmarshal_sound [OF Suc.prems(1,2) x step(2)] obtain rest where
    1: "ok x" "bs = enc x @ rest" "p1 = skip_read (length (enc x)) p" by auto
  have r1: "reading p1 rest" using reading_append [OF Suc.prems(1) [unfolded 1(2)] refl] 1(3) by simp
  from Suc.prems(2) 1(2) have "length rest \<le> MAX_SLICE_LEN" by simp
  from Suc.IH [OF r1 this step(1) Suc.prems(4)] obtain xs rest' where
    2: "res = Some ((out @ [x]) @ xs)" "length xs = n" "list_all ok xs" "rest = concat (map enc xs) @ rest'"
      "p' = skip_read (length (concat (map enc xs))) p1" "n \<le> length rest" by blast
  with 1 enc_ne [OF 1(1)] show ?case
    by (intro exI [of _ "x # xs"] exI [of _ rest']) (cases "enc x"; simp add: add.assoc)
qed simp

lemma vec_size_enc:
  assumes "list_all ok xs" "n + length (concat (map enc xs)) \<le> u64_max"
  shows "foldl (\<lambda>total x. sat_add64 total (c_size C x)) n xs = n + length (concat (map enc xs))"
  using assms by (induction xs arbitrary: n) (auto simp: size_enc sat_add64_def)

lemma vec_serial: "serial_ne (vec_codec C) (vec_enc enc) (vec_ok ok)"
proof unfold_locales
  fix p w and v :: "'a list"
  assume w: "writing p w" and ok: "vec_ok ok v"
  then have l: "length v < 256 ^ 4" by (intro MAX_SLICE_LEN_u32) simp
  have eq: "c_marshal (vec_codec C) v p = vec_elems C (c_marshal u32_codec (length v) p) v"
    using ok by (simp add: vec_codec_def vec_marshal_def pack_count_u32)
  { assume fits: "length w + length (vec_enc enc v) \<le> pk_max_size p"
    from u32c.serial_axioms w l show "c_marshal (vec_codec C) v p = p\<lparr>pk_bytes := WriteBuf (w @ vec_enc enc v)\<rparr>"
    proof (cases rule: serial_step)
      case 1
      then show ?thesis using fits vec_elems_writing [OF 1(3), of v] ok by (simp add: eq)
    qed (use fits in simp) }
  { assume full: "pk_max_size p < length w + length (vec_enc enc v)"
    from u32c.serial_axioms w l show "pk_err (c_marshal (vec_codec C) v p) \<noteq> None"
    proof (cases rule: serial_step)
      case 1
      then show ?thesis using full vec_elems_writing [OF 1(3), of v] ok by (simp add: eq split: if_splits)
    qed (simp add: eq vec_elems_errored) }
next
  fix p rest d and v :: "'a list"
  assume r: "reading p (vec_enc enc v @ rest)" and ok: "vec_ok ok v"
  then have r': "reading p (be_bytes 4 (length v) @ concat (map enc v) @ rest)" by simp
  note r2 = reading_append [OF r' refl, unfolded length_be_bytes]
  from u32c.unmarshal_enc [OF r' MAX_SLICE_LEN_u32] vec_loop_enc [OF r2, of "[]"] ok reading_ok [OF r]
  show "c_unmarshal (vec_codec C) d p = (v, skip_read (length (vec_enc enc v)) p)"
    by (simp add: vec_codec_def vec_unmarshal_def unpack_u32_codec [of 0] pk_errored_def)
next
  fix p bs d v p'
  assume r: "reading p bs" and len: "length bs \<le> MAX_SLICE_LEN"
    and u: "c_unmarshal (vec_codec C) d p = (v, p')" and ne: "pk_err p' = None"
  obtain n p1 where n: "c_unmarshal u32_codec 0 p = (n, p1)" by fastforce
  obtain res p2 where res: "vec_loop C n [] p1 = (res, p2)" by fastforce
  from u n res ne have e1: "pk_err p1 = None" and p2: "p' = p2" and v: "v = (case res of None \<Rightarrow> d | Some out \<Rightarrow> out)"
    by (auto simp: vec_codec_def vec_unmarshal_def unpack_u32_codec [of 0] pk_errored_def split: if_splits)
  from u32c.unmarshal_sound [OF r len n e1] obtain rest where
    1: "n < 256 ^ 4" "bs = be_bytes 4 n @ rest" "p1 = skip_read 4 p" by auto
  from 1 reading_append [OF r [unfolded 1(2)] refl] have r1: "reading p1 rest" by simp
  from 1 len have "length rest \<le> MAX_SLICE_LEN" by simp
  from vec_loop_sound [OF r1 this res] ne p2 1 v len
  show "vec_ok ok v \<and> (\<exists>rest. bs = vec_enc enc v @ rest \<and> p' = skip_read (length (vec_enc enc v)) p)"
    by (auto simp: add.assoc)
next
  fix p :: packer and d assume "pk_err p \<noteq> None"
  then show "pk_err (snd (c_unmarshal (vec_codec C) d p)) \<noteq> None"
    by (simp add: vec_codec_def vec_unmarshal_def unpack_u32_def pk_read_errored pk_errored_def)
qed (auto simp: vec_codec_def vec_marshal_def vec_size_def pack_count_def add_error_errored pack_raw
    pack_fixed_errored vec_elems_errored vec_size_enc packer_lens be_bytes_ne)

end

section \<open>Maps\<close>

lemma sort_key_map: "sort_key f (map g xs) = map g (sort_key (f \<circ> g) xs)"
proof -
  have "insort_key f (g x) (map g ys) = map g (insort_key (f \<circ> g) x ys)" for x ys
    by (induction ys) auto
  then show ?thesis by (induction xs) auto
qed

lemma bt_ext:
  assumes "bt_wf a" "bt_wf b" "set a = set b"
  shows "a = b"
proof (rule map_sorted_distinct_set_unique [where f = fst])
  show "inj_on fst (set a \<union> set b)"
    using bt_wf_distinct [OF assms(1)] assms(3) by (simp add: distinct_map)
qed (use assms in \<open>auto simp: bt_wf_def strict_sorted_iff\<close>)

abbreviation bt_inserts :: "('k::linorder, 'v) btree \<Rightarrow> ('k \<times> 'v) list \<Rightarrow> ('k, 'v) btree" where
  "bt_inserts out es \<equiv> foldl (\<lambda>m (k, v). bt_insert k v m) out es"

lemma bt_wf_inserts: "bt_wf out \<Longrightarrow> bt_wf (bt_inserts out es)"
  by (induction es arbitrary: out) auto

lemma bt_get_inserts: "bt_get (bt_inserts out es) = bt_get out ++ map_of (rev es)"
  by (induction es arbitrary: out) (auto simp: map_simps)

lemma set_bt_inserts:
  assumes "distinct (map fst es)"
  shows "set (bt_inserts [] es) = set es"
proof -
  have "bt_get (bt_inserts [] es) = map_of es"
    using assms by (simp add: bt_get_inserts map_of_inject_set rev_map [symmetric])
  then have "(x \<in> set (bt_inserts [] es)) = (x \<in> set es)" for x
    using assms bt_mem_iff [OF bt_wf_inserts, of "[]" "fst x" "snd x" es] by simp
  then show ?thesis by blast
qed

lemma bt_inserts_sort:
  assumes "bt_wf m"
  shows "bt_inserts [] (sort_key f m) = m"
proof -
  have "mset (map fst (sort_key f m)) = mset (map fst m)" by simp
  then have "distinct (map fst (sort_key f m))"
    using bt_wf_distinct [OF assms] mset_eq_imp_distinct_iff by blast
  from set_bt_inserts [OF this] assms show ?thesis
    by (intro bt_ext) (simp_all add: bt_wf_inserts)
qed

lemma sort_bt_inserts:
  assumes s: "sorted_wrt (\<lambda>a b. f a < f b) es" and d: "distinct (map fst es)"
  shows "sort_key f (bt_inserts [] es) = (es :: ('k::linorder \<times> 'v) list)"
proof (rule map_sorted_distinct_set_unique [where f = f])
  have s': "sorted_wrt (<) (map f es)" using s by (simp add: sorted_wrt_map)
  then show "sorted (map f es)" "distinct (map f es)" by (simp_all add: strict_sorted_iff)
  then have inj: "inj_on f (set es)" by (simp add: distinct_map)
  then show "inj_on f (set (sort_key f (bt_inserts [] es)) \<union> set es)"
    by (simp add: set_bt_inserts [OF d])
  have "distinct (bt_inserts [] es)"
    using bt_wf_distinct [OF bt_wf_inserts [of "[]" es]] by (simp add: distinct_map)
  with inj show "distinct (map f (sort_key f (bt_inserts [] es)))"
    by (simp add: distinct_map set_bt_inserts [OF d])
  show "set (sort_key f (bt_inserts [] es)) = set es" by (simp add: set_bt_inserts [OF d])
qed simp

locale serial_map = k: serial_ne KC ek okk + v: serial VC ev okv
  for KC :: "('k::linorder) codec" and ek and okk and VC :: "'v codec" and ev and okv
begin

lemma ek_inj:
  assumes "okk a" "okk b" "ek a = ek b" "length (ek a) \<le> u64_max"
  shows "a = b"
  using k.enc_prefix_free [of a b "[]" "[]"] assms by simp

lemma key_packer_ok:
  assumes "okk a" "length (ek a) \<le> u64_max"
  shows "pk_err (key_packer KC a) = None" "into_bytes (key_packer KC a) = ek a"
proof -
  have w: "writing (new_write (max (c_size KC a) 1)) []"
    using assms by (simp add: writing_def new_write_def k.size_enc u64_max_def)
  have "key_packer KC a = new_write (max (c_size KC a) 1)\<lparr>pk_bytes := WriteBuf (ek a)\<rparr>"
    unfolding key_packer_def using assms k.marshal_fits [OF w assms(1)]
    by (simp add: new_write_def k.size_enc)
  then show "pk_err (key_packer KC a) = None" "into_bytes (key_packer KC a) = ek a"
    by (simp_all add: new_write_def into_bytes_def)
qed

abbreviation entry_enc :: "'k \<times> 'v \<Rightarrow> u8 list" where
  "entry_enc e \<equiv> ek (fst e) @ ev (snd e)"

abbreviation entry_ok :: "'k \<times> 'v \<Rightarrow> bool" where
  "entry_ok e \<equiv> okk (fst e) \<and> okv (snd e) \<and> length (ek (fst e)) \<le> u64_max"

lemma map_keys_ok:
  "list_all entry_ok m \<Longrightarrow> map_keys KC p m es = (p, Some (es @ map (\<lambda>(a, b). (ek a, b)) m))"
  by (induction m arbitrary: es) (auto simp: key_packer_ok)

lemma map_write_errored: "pk_err p \<noteq> None \<Longrightarrow> map_write VC p es = p"
  by (cases es) (auto simp: pack_fixed_errored v.marshal_errored pk_errored_def)

lemma map_write_writing:
  "writing p w \<Longrightarrow> list_all entry_ok es \<Longrightarrow>
     (if length w + length (concat (map entry_enc es)) \<le> pk_max_size p
      then map_write VC p (map (\<lambda>(a, b). (ek a, b)) es) = p\<lparr>pk_bytes := WriteBuf (w @ concat (map entry_enc es))\<rparr>
      else pk_max_size p < length w \<or> pk_err (map_write VC p (map (\<lambda>(a, b). (ek a, b)) es)) \<noteq> None)"
proof (induction es arbitrary: p w)
  case Nil
  then show ?case by (auto simp: writing_def)
next
  case (Cons e es)
  obtain a b where e: "e = (a, b)" by fastforce
  with Cons.prems have okb: "okv b" and oks: "list_all entry_ok es" by simp_all
  show ?case
  proof (cases "length w + length (ek a) \<le> pk_max_size p")
    case True
    let ?p1 = "pack_fixed_bytes (ek a) p"
    from True Cons.prems(1) have p1: "?p1 = p\<lparr>pk_bytes := WriteBuf (w @ ek a)\<rparr>" by (simp add: writing_fixed)
    with Cons.prems(1) have w1: "writing ?p1 (w @ ek a)" by (simp add: writing_append)
    from v.serial_axioms w1 okb show ?thesis
    proof (cases rule: serial_step)
      case 1
      then have "map_write VC p (map (\<lambda>(a, b). (ek a, b)) (e # es))
          = map_write VC (c_marshal VC b ?p1) (map (\<lambda>(a, b). (ek a, b)) es)"
        by (simp add: e pk_errored_def writing_def)
      with Cons.IH [OF 1(3) oks] 1 p1 e show ?thesis by (simp split: if_splits)
    next
      case 2
      then show ?thesis using p1 e by (auto simp: pk_errored_def Let_def)
    qed
  next
    case False
    then show ?thesis using Cons.prems(1) e writing_fixed(2) [OF Cons.prems(1), of "ek a"]
      by (simp add: v.marshal_errored pk_errored_def Let_def)
  qed
qed

end

context serial_map
begin

abbreviation ascending :: "u8 list option \<Rightarrow> ('k \<times> 'v) list \<Rightarrow> bool" where
  "ascending prev es \<equiv> sorted_wrt (\<lambda>a b. ek (fst a) < ek (fst b)) es
     \<and> (\<forall>pb. prev = Some pb \<longrightarrow> (\<forall>e \<in> set es. pb < ek (fst e)))"

lemma map_loop_enc:
  "reading p (concat (map entry_enc es) @ rest) \<Longrightarrow> list_all entry_ok es \<Longrightarrow> ascending prev es \<Longrightarrow>
     map_loop KC VC (length es) out prev p
       = (Some (bt_inserts out es), skip_read (length (concat (map entry_enc es))) p)"
proof (induction es arbitrary: p out prev)
  case (Cons e es)
  obtain a b where e: "e = (a, b)" by fastforce
  from Cons.prems e have r: "reading p (ek a @ ev b @ concat (map entry_enc es) @ rest)"
    and ok: "okk a" "okv b" "length (ek a) \<le> u64_max" by simp_all
  note r1 = reading_append [OF r refl]
  note r2 = reading_append [OF r1 refl]
  have gt: "\<not> (case prev of None \<Rightarrow> False | Some pb \<Rightarrow> ek a \<le> pb)"
    using Cons.prems(3) e by (auto split: option.splits)
  have asc: "ascending (Some (ek a)) es" using Cons.prems(3) e by simp
  from k.unmarshal_enc [OF r ok(1), of "c_default KC"] v.unmarshal_enc [OF r1 ok(2), of "c_default VC"]
    Cons.IH [OF r2 _ asc, of "bt_insert a b out"] Cons.prems(2) e gt reading_ok [OF r] key_packer_ok [OF ok(1,3)]
  show ?case by (simp add: pk_errored_def add.assoc)
qed simp

lemma map_loop_sound:
  "reading p bs \<Longrightarrow> length bs \<le> MAX_SLICE_LEN \<Longrightarrow> map_loop KC VC n out prev p = (res, p') \<Longrightarrow> pk_err p' = None \<Longrightarrow>
     \<exists>es rest. res = Some (bt_inserts out es) \<and> length es = n \<and> list_all entry_ok es \<and> ascending prev es
       \<and> bs = concat (map entry_enc es) @ rest \<and> p' = skip_read (length (concat (map entry_enc es))) p
       \<and> n \<le> length bs"
proof (induction n arbitrary: p bs out prev)
  case 0
  then show ?case by (intro exI [of _ "[]"] exI [of _ bs]) auto
next
  case (Suc n)
  obtain a p1 where a: "c_unmarshal KC (c_default KC) p = (a, p1)" by fastforce
  obtain b p2 where b: "c_unmarshal VC (c_default VC) p1 = (b, p2)" by fastforce
  from Suc.prems(3,4) a b have e1: "pk_err p1 = None" and e2: "pk_err p2 = None"
    and gt: "\<not> (case prev of None \<Rightarrow> False | Some pb \<Rightarrow> into_bytes (key_packer KC a) \<le> pb)"
    and step: "map_loop KC VC n (bt_insert a b out) (Some (into_bytes (key_packer KC a))) p2 = (res, p')"
    by (auto simp: pk_errored_def Let_def split: if_splits)
  from k.unmarshal_sound [OF Suc.prems(1,2) a e1] obtain r1 where
    1: "okk a" "bs = ek a @ r1" "p1 = skip_read (length (ek a)) p" by auto
  have rd1: "reading p1 r1" using reading_append [OF Suc.prems(1) [unfolded 1(2)] refl] 1(3) by simp
  from Suc.prems(2) 1(2) have len: "length (ek a) \<le> MAX_SLICE_LEN" "length r1 \<le> MAX_SLICE_LEN" by simp_all
  then have len': "length (ek a) \<le> u64_max" by (simp add: MAX_SLICE_LEN_def u64_max_def)
  from v.unmarshal_sound [OF rd1 len(2) b e2] obtain r2 where
    2: "okv b" "r1 = ev b @ r2" "p2 = skip_read (length (ev b)) p1" by auto
  have rd2: "reading p2 r2" using reading_append [OF rd1 [unfolded 2(2)] refl] 2(3) by simp
  from len 2(2) have "length r2 \<le> MAX_SLICE_LEN" by simp
  from Suc.IH [OF rd2 this step Suc.prems(4)] obtain es rest where
    3: "res = Some (bt_inserts (bt_insert a b out) es)" "length es = n" "list_all entry_ok es"
      "ascending (Some (ek a)) es" "r2 = concat (map entry_enc es) @ rest"
      "p' = skip_read (length (concat (map entry_enc es))) p2" "n \<le> length r2"
    unfolding key_packer_ok(2) [OF 1(1) len'] by blast
  have "ek a > pb" if "prev = Some pb" for pb using gt that key_packer_ok(2) [OF 1(1) len'] by simp
  moreover have "ek a \<noteq> []" using k.enc_ne [OF 1(1)] .
  ultimately show ?case using 1 2 3 len'
    by (intro exI [of _ "(a, b) # es"] exI [of _ rest])
      (cases "ek a"; auto simp: add.assoc dest: less_trans)
qed

lemma ascending_sort:
  assumes "bt_wf m" "list_all entry_ok m"
  shows "ascending None (sort_key (ek \<circ> fst) m)"
proof -
  have "inj_on (ek \<circ> fst) (set m)"
  proof (rule inj_onI)
    fix x y assume "x \<in> set m" "y \<in> set m" and eq: "(ek \<circ> fst) x = (ek \<circ> fst) y"
    moreover from calculation assms(2) have "fst x = fst y"
      by (intro ek_inj) (auto simp: list_all_iff)
    ultimately show "x = y" using bt_wf_distinct [OF assms(1)] by (auto simp: distinct_map inj_on_def)
  qed
  moreover have "distinct m" using bt_wf_distinct [OF assms(1)] by (simp add: distinct_map)
  ultimately have "sorted_wrt (<) (map (ek \<circ> fst) (sort_key (ek \<circ> fst) m))"
    by (simp add: strict_sorted_iff distinct_map)
  then show ?thesis by (simp add: sorted_wrt_map)
qed

abbreviation map_enc :: "('k, 'v) btree \<Rightarrow> u8 list" where
  "map_enc m \<equiv> be_bytes 4 (length m) @ concat (map entry_enc (sort_key (ek \<circ> fst) m))"

abbreviation map_ok :: "('k, 'v) btree \<Rightarrow> bool" where
  "map_ok m \<equiv> bt_wf m \<and> length m \<le> MAX_SLICE_LEN \<and> list_all entry_ok m"

lemma length_concat_sort:
  "length (concat (map g (sort_key f m))) = length (concat (map g m))"
proof -
  have "mset (concat (map g (sort_key f m))) = mset (concat (map g m))"
    by (simp only: mset_concat mset_map mset_sort flip: sum_mset_sum_list)
  then show ?thesis by (rule mset_eq_length)
qed

lemma map_size_enc:
  assumes "list_all entry_ok m" "n + length (concat (map entry_enc m)) \<le> u64_max"
  shows "foldl (\<lambda>total (a, b). sat_add64 (sat_add64 total (c_size KC a)) (c_size VC b)) n m
    = n + length (concat (map entry_enc m))"
  using assms by (induction m arbitrary: n) (auto simp: k.size_enc v.size_enc sat_add64_def)

end

context serial_map
begin

lemma map_serial: "serial_ne (map_codec KC VC) map_enc map_ok"
proof unfold_locales
  fix p w and m :: "('k, 'v) btree"
  assume w: "writing p w" and ok: "map_ok m"
  then have l: "length m < 256 ^ 4" by (intro MAX_SLICE_LEN_u32) simp
  let ?p1 = "c_marshal u32_codec (length m) p" and ?es = "sort_key (ek \<circ> fst) m"
  from ok have oks: "list_all entry_ok ?es" by (simp add: list_all_iff)
  have sort: "sort_key fst (map (\<lambda>(a, b). (ek a, b)) m) = map (\<lambda>(a, b). (ek a, b)) ?es"
    by (simp add: sort_key_map comp_def case_prod_beta)
  have eq: "c_marshal (map_codec KC VC) m p = (if pk_err ?p1 \<noteq> None then ?p1
      else map_write VC ?p1 (map (\<lambda>(a, b). (ek a, b)) ?es))"
    using ok by (simp add: map_codec_def map_marshal_def pack_count_u32 pk_errored_def map_keys_ok sort)
  { assume fits: "length w + length (map_enc m) \<le> pk_max_size p"
    from u32c.serial_axioms w l show "c_marshal (map_codec KC VC) m p = p\<lparr>pk_bytes := WriteBuf (w @ map_enc m)\<rparr>"
    proof (cases rule: serial_step)
      case 1
      then show ?thesis using fits map_write_writing [OF 1(3) oks] writing_ok [OF 1(3)] by (simp add: eq)
    qed (use fits in simp) }
  { assume full: "pk_max_size p < length w + length (map_enc m)"
    from u32c.serial_axioms w l show "pk_err (c_marshal (map_codec KC VC) m p) \<noteq> None"
    proof (cases rule: serial_step)
      case 1
      then show ?thesis using full map_write_writing [OF 1(3) oks] writing_ok [OF 1(3)]
        by (simp add: eq split: if_splits)
    qed (simp add: eq) }
next
  fix p rest d and m :: "('k, 'v) btree"
  assume r: "reading p (map_enc m @ rest)" and ok: "map_ok m"
  let ?es = "sort_key (ek \<circ> fst) m"
  from r have r': "reading p (be_bytes 4 (length m) @ concat (map entry_enc ?es) @ rest)" by simp
  note r2 = reading_append [OF r' refl, unfolded length_be_bytes]
  from ok have oks: "list_all entry_ok ?es" by (simp add: list_all_iff)
  from ok u32c.unmarshal_enc [OF r' MAX_SLICE_LEN_u32] map_loop_enc [OF r2 oks ascending_sort, of "[]"]
    reading_ok [OF r] bt_inserts_sort [of m "ek \<circ> fst"]
  show "c_unmarshal (map_codec KC VC) d p = (m, skip_read (length (map_enc m)) p)"
    by (simp add: map_codec_def map_unmarshal_def unpack_u32_codec [of 0] pk_errored_def)
next
  fix p bs d m p'
  assume r: "reading p bs" and len: "length bs \<le> MAX_SLICE_LEN"
    and u: "c_unmarshal (map_codec KC VC) d p = (m, p')" and ne: "pk_err p' = None"
  obtain n p1 where n: "c_unmarshal u32_codec 0 p = (n, p1)" by fastforce
  obtain res p2 where res: "map_loop KC VC n [] None p1 = (res, p2)" by fastforce
  from u n res ne have e1: "pk_err p1 = None" and p2: "p' = p2" and m: "m = (case res of None \<Rightarrow> d | Some out \<Rightarrow> out)"
    by (auto simp: map_codec_def map_unmarshal_def unpack_u32_codec [of 0] pk_errored_def split: if_splits)
  from u32c.unmarshal_sound [OF r len n e1] obtain rest where
    1: "n < 256 ^ 4" "bs = be_bytes 4 n @ rest" "p1 = skip_read 4 p" by auto
  from 1 reading_append [OF r [unfolded 1(2)] refl] have r1: "reading p1 rest" by simp
  from 1 len have "length rest \<le> MAX_SLICE_LEN" by simp
  from map_loop_sound [OF r1 this res ne [unfolded p2]] obtain es rest' where
    2: "res = Some (bt_inserts [] es)" "length es = n" "list_all entry_ok es" "ascending None es"
      "rest = concat (map entry_enc es) @ rest'" "p2 = skip_read (length (concat (map entry_enc es))) p1"
      "n \<le> length rest" by blast
  have "sorted_wrt (<) (map (\<lambda>e. ek (fst e)) es)" using 2(4) by (simp add: sorted_wrt_map)
  then have d: "distinct (map fst es)"
    by (auto simp: strict_sorted_iff distinct_map inj_on_def)
  have es: "sort_key (ek \<circ> fst) (bt_inserts [] es) = es"
    using 2(4) by (intro sort_bt_inserts d) simp
  then have "length (bt_inserts [] es) = n" using 2(2) by (metis length_sort)
  with 1 2 m p2 es len bt_wf_inserts [of "[]" es] set_bt_inserts [OF d]
  show "map_ok m \<and> (\<exists>rest. bs = map_enc m @ rest \<and> p' = skip_read (length (map_enc m)) p)"
    by (auto simp: add.assoc list_all_iff)
next
  fix p :: packer and d assume "pk_err p \<noteq> None"
  then show "pk_err (snd (c_unmarshal (map_codec KC VC) d p)) \<noteq> None"
    by (simp add: map_codec_def map_unmarshal_def unpack_u32_def pk_read_errored pk_errored_def)
qed (auto simp: map_codec_def map_marshal_def map_size_def pack_count_def add_error_errored pack_raw
    pack_fixed_errored map_size_enc packer_lens be_bytes_ne pk_errored_def length_concat_sort)

end

section \<open>Interface enums\<close>

lemma enum_serial:
  assumes arms: "\<And>t a. map_of arms t = Some a \<Longrightarrow> t < 256 ^ 4 \<and> serial a encp (\<lambda>e. ok e \<and> tag e = t)"
  shows "serial_ne (enum_codec arms tag dflt) (\<lambda>e. be_bytes 4 (tag e) @ encp e)
    (\<lambda>e. ok e \<and> map_of arms (tag e) \<noteq> None)"
proof unfold_locales
  fix p w e
  assume w: "writing p w" and ok: "ok e \<and> map_of arms (tag e) \<noteq> None"
  then obtain a where a: "map_of arms (tag e) = Some a" by blast
  let ?p1 = "c_marshal u32_codec (tag e) p"
  have eq: "c_marshal (enum_codec arms tag dflt) e p = c_marshal a e ?p1"
    by (simp add: enum_codec_def a u32_codec_def)
  from arms [OF a] have l: "tag e < 256 ^ 4" and s: "serial a encp (\<lambda>x. ok x \<and> tag x = tag e)" by simp_all
  { assume fits: "length w + length (be_bytes 4 (tag e) @ encp e) \<le> pk_max_size p"
    from u32c.serial_axioms w l
    show "c_marshal (enum_codec arms tag dflt) e p = p\<lparr>pk_bytes := WriteBuf (w @ be_bytes 4 (tag e) @ encp e)\<rparr>"
    proof (cases rule: serial_step)
      case 1
      then show ?thesis unfolding eq using fits serial.marshal_fits [OF s 1(3), of e] ok by simp
    qed (use fits in simp) }
  { assume full: "pk_max_size p < length w + length (be_bytes 4 (tag e) @ encp e)"
    from u32c.serial_axioms w l show "pk_err (c_marshal (enum_codec arms tag dflt) e p) \<noteq> None"
    proof (cases rule: serial_step)
      case 1
      then show ?thesis unfolding eq using full serial.marshal_full [OF s 1(3), of e] ok by simp
    qed (simp add: eq serial.marshal_errored [OF s]) }
next
  fix p rest d e
  assume r: "reading p ((be_bytes 4 (tag e) @ encp e) @ rest)" and ok: "ok e \<and> map_of arms (tag e) \<noteq> None"
  then obtain a where a: "map_of arms (tag e) = Some a" by blast
  from r have r': "reading p (be_bytes 4 (tag e) @ encp e @ rest)" by simp
  note r2 = reading_append [OF r' refl, unfolded length_be_bytes]
  from arms [OF a] have l: "tag e < 256 ^ 4" and s: "serial a encp (\<lambda>x. ok x \<and> tag x = tag e)" by simp_all
  from u32c.unmarshal_enc [OF r' l] serial.unmarshal_enc [OF s r2] ok a reading_ok [OF r]
  show "c_unmarshal (enum_codec arms tag dflt) d p = (e, skip_read (length (be_bytes 4 (tag e) @ encp e)) p)"
    by (simp add: enum_codec_def enum_unmarshal_def unpack_u32_codec [of 0] pk_errored_def)
next
  fix p bs d e p'
  assume r: "reading p bs" and len: "length bs \<le> MAX_SLICE_LEN"
    and u: "c_unmarshal (enum_codec arms tag dflt) d p = (e, p')" and ne: "pk_err p' = None"
  obtain n p1 where n: "c_unmarshal u32_codec 0 p = (n, p1)" by fastforce
  from u n ne have e1: "pk_err p1 = None"
    by (auto simp: enum_codec_def enum_unmarshal_def unpack_u32_codec [of 0] pk_errored_def split: if_splits)
  with u n ne obtain a where a: "map_of arms n = Some a"
    by (auto simp: enum_codec_def enum_unmarshal_def unpack_u32_codec [of 0] pk_errored_def split: option.splits)
  with u n ne e1 have i: "c_unmarshal a (c_default a) p1 = (e, p')"
    by (auto simp: enum_codec_def enum_unmarshal_def unpack_u32_codec [of 0] pk_errored_def split: prod.splits)
  from u32c.unmarshal_sound [OF r len n e1] obtain rest where
    1: "bs = be_bytes 4 n @ rest" "p1 = skip_read 4 p" by auto
  from 1 reading_append [OF r [unfolded 1(1)] refl] have r1: "reading p1 rest" by simp
  from 1 len have l: "length rest \<le> MAX_SLICE_LEN" by simp
  from serial.unmarshal_sound [OF conjunct2 [OF arms [OF a]] r1 l i ne] 1 a
  show "(ok e \<and> map_of arms (tag e) \<noteq> None) \<and> (\<exists>rest. bs = (be_bytes 4 (tag e) @ encp e) @ rest
      \<and> p' = skip_read (length (be_bytes 4 (tag e) @ encp e)) p)"
    by (auto simp: add.assoc)
next
  fix p :: packer and v assume e: "pk_err p \<noteq> None"
  show "c_marshal (enum_codec arms tag dflt) v p = p"
  proof (cases "map_of arms (tag v)")
    case (Some a)
    from serial.marshal_errored [OF conjunct2 [OF arms [OF Some]] e] e Some show ?thesis
      by (simp add: enum_codec_def pack_raw pack_fixed_errored)
  qed (simp add: enum_codec_def)
next
  fix v assume ok: "ok v \<and> map_of arms (tag v) \<noteq> None" and l: "length (be_bytes 4 (tag v) @ encp v) \<le> u64_max"
  then obtain a where a: "map_of arms (tag v) = Some a" by blast
  from serial.size_enc [OF conjunct2 [OF arms [OF a]], of v] ok l a
  show "c_size (enum_codec arms tag dflt) v = length (be_bytes 4 (tag v) @ encp v)"
    by (simp add: enum_codec_def packer_lens sat_add64_def)
next
  fix p :: packer and d assume "pk_err p \<noteq> None"
  then show "pk_err (snd (c_unmarshal (enum_codec arms tag dflt) d p)) \<noteq> None"
    by (simp add: enum_codec_def enum_unmarshal_def unpack_u32_def pk_read_errored pk_errored_def)
qed (simp add: be_bytes_ne)

end
