(* ===== verification/Ava_Codec_Props.thy ===== *)
theory Ava_Codec_Props
  imports Ava_Codec_Spec
begin

text \<open>
  What the codec manager and the packer promise: round trips, one encoding per
  value, rejection of every malformed input, sticky errors, and type ids that
  are never given twice. The statements hold for every implementation that
  keeps the codec contract \<open>serial\<close>; the witnesses use a map from strings to
  vectors of integers.
\<close>

section \<open>The contract for composite types\<close>

interpretation vec_u32: serial_ne "vec_codec u32_codec" "vec_enc (be_bytes 4)" "vec_ok (\<lambda>v. v < 256 ^ 4)"
  by (rule u32c.vec_serial)

interpretation vec_u8: serial_ne "vec_codec u8_codec" "vec_enc (\<lambda>b. [b])" "vec_ok (\<lambda>_. True)"
  by (rule u8c.vec_serial)

interpretation u64_map: serial_map u64_codec "be_bytes 8" "\<lambda>v. v < 256 ^ 8"
    "vec_codec u32_codec" "vec_enc (be_bytes 4)" "vec_ok (\<lambda>v. v < 256 ^ 4)" ..

interpretation u64_mapc: serial_ne "map_codec u64_codec (vec_codec u32_codec)" u64_map.map_enc u64_map.map_ok
  by (rule u64_map.map_serial)

section \<open>The manager\<close>

lemma reading_new: "length src \<le> u64_max \<Longrightarrow> reading (new_read src) src"
  by (simp add: reading_def new_read_def)

lemma new_read_fields [simp]: "pk_offset (new_read src) = 0" "pk_err (new_read src) = None"
  by (simp_all add: new_read_def)

lemma unpack_u16_codec: "unpack_u16 = c_unmarshal u16_codec d"
  by (simp add: u16_codec_def)

lemma mg_unmarshal_start:
  assumes "length (be_bytes 2 ver @ bs) \<le> mg_max_size m" "mg_max_size m \<le> u64_max" "ver < 256 ^ 2"
  shows "mg_unmarshal m (be_bytes 2 ver @ bs) C d =
    (case mg_codec m ver of Inl e \<Rightarrow> Inl e
     | Inr _ \<Rightarrow> (case c_unmarshal C d (skip_read 2 (new_read (be_bytes 2 ver @ bs))) of
         (v, p') \<Rightarrow> (case pk_err p' of Some e \<Rightarrow> Inl (map_packer_error e)
           | None \<Rightarrow> if pk_offset p' \<noteq> 2 + length bs then Inl ExtraSpace else Inr (ver, v))))"
    "reading (skip_read 2 (new_read (be_bytes 2 ver @ bs))) bs"
proof -
  from assms have r: "reading (new_read (be_bytes 2 ver @ bs)) (be_bytes 2 ver @ bs)"
    by (intro reading_new) simp
  from reading_append [OF r, of 2] show r2: "reading (skip_read 2 (new_read (be_bytes 2 ver @ bs))) bs" by simp
  from u16c.unmarshal_enc [OF r assms(3), of 0]
  have "unpack_u16 (new_read (be_bytes 2 ver @ bs)) = (ver, skip_read 2 (new_read (be_bytes 2 ver @ bs)))"
    by (simp add: unpack_u16_codec [of 0])
  with assms(1) show "mg_unmarshal m (be_bytes 2 ver @ bs) C d =
    (case mg_codec m ver of Inl e \<Rightarrow> Inl e
     | Inr _ \<Rightarrow> (case c_unmarshal C d (skip_read 2 (new_read (be_bytes 2 ver @ bs))) of
         (v, p') \<Rightarrow> (case pk_err p' of Some e \<Rightarrow> Inl (map_packer_error e)
           | None \<Rightarrow> if pk_offset p' \<noteq> 2 + length bs then Inl ExtraSpace else Inr (ver, v))))"
    by (simp add: mg_unmarshal_def linear_unmarshal_from_def split: sum.split prod.split option.split)
qed

lemma mg_marshal_enc:
  assumes C: "serial C enc ok" and "ok v" "mg_codec m ver = Inr c" "2 + length (enc v) \<le> u64_max"
    "mg_max_size m \<le> u64_max" "ver < 256 ^ 2"
  shows "mg_size m ver C v = Inr (2 + length (enc v))" "mg_marshal m ver C v = Inr (be_bytes 2 ver @ enc v)"
proof -
  from assms serial.size_enc [OF C] show sz: "mg_size m ver C v = Inr (2 + length (enc v))"
    by (simp add: mg_size_def linear_size_def checked_add64_def VERSION_SIZE_def packer_lens)
  define q where "q = with_max_size (max (mg_max_size m) (2 + length (enc v)))"
  have w: "writing q []" and mx: "2 + length (enc v) \<le> pk_max_size q" and e: "pk_err q = None"
    using assms by (simp_all add: q_def writing_def with_max_size_def)
  have p1: "pack_u16 ver q = q\<lparr>pk_bytes := WriteBuf (be_bytes 2 ver)\<rparr>"
    using writing_fixed(1) [OF w, of "be_bytes 2 ver"] mx by (simp add: pack_raw)
  have w1: "writing (q\<lparr>pk_bytes := WriteBuf (be_bytes 2 ver)\<rparr>) (be_bytes 2 ver)"
    using writing_append [OF w, of "be_bytes 2 ver"] by simp
  have "c_marshal C v (pack_u16 ver q) = q\<lparr>pk_bytes := WriteBuf (be_bytes 2 ver @ enc v)\<rparr>"
    using serial.marshal_fits [OF C w1 assms(2)] mx by (simp add: p1)
  with p1 e show "mg_marshal m ver C v = Inr (be_bytes 2 ver @ enc v)"
    unfolding mg_marshal_def sz sum.case q_def [symmetric] Let_def
    by (simp add: linear_marshal_into_def into_bytes_def)
qed

lemmas codec_eval = unpack_byte_def unpack_u16_def unpack_u32_def pk_read_def check_space_def pk_errored_def
  pk_cursor_def checked_add64_def pbuf_len_def new_read_def from_be_def packer_lens u64_max_def sat_add64_def
  add_error_def Let_def

text \<open>
  C22. What \<^verbatim>\<open>Manager::marshal\<close> writes is the two-byte version and the encoding of
  the value, exactly as long as \<^verbatim>\<open>Manager::size\<close> says, and \<^verbatim>\<open>Manager::unmarshal\<close>
  reads the same version and value back, whatever the destination held.
\<close>

theorem manager_roundtrip:
  assumes "serial C enc ok" "ok v" "mg_codec m ver = Inr LinearCodec" "ver < 2 ^ 16"
    "2 + length (enc v) \<le> mg_max_size m" "mg_max_size m \<le> u64_max"
  shows "\<exists>bytes. mg_marshal m ver C v = Inr bytes \<and> bytes = be_bytes 2 ver @ enc v
    \<and> mg_size m ver C v = Inr (length bytes) \<and> mg_unmarshal m bytes C d = Inr (ver, v)"
proof -
  from assms(4) have ver: "ver < 256 ^ 2" by simp
  note start = mg_unmarshal_start [OF _ assms(6) ver, of "enc v"]
  from assms(5) start(2) have r: "reading (skip_read 2 (new_read (be_bytes 2 ver @ enc v))) (enc v @ [])" by simp
  from start(1) [of C d] serial.unmarshal_enc [OF assms(1) r assms(2), of d] assms(3,5)
  have "mg_unmarshal m (be_bytes 2 ver @ enc v) C d = Inr (ver, v)" by simp
  with mg_marshal_enc [OF assms(1-3) _ assms(6) ver] assms(5,6) show ?thesis by simp
qed

theorem manager_roundtrip_witness:
  "\<exists>bytes. mg_marshal (fst (mg_register (mg_new 64) 0 LinearCodec)) 0
      (map_codec u64_codec (vec_codec u32_codec)) [(1, [5, 6]), (256, [])] = Inr bytes
    \<and> mg_unmarshal (fst (mg_register (mg_new 64) 0 LinearCodec)) bytes
      (map_codec u64_codec (vec_codec u32_codec)) [] = Inr (0, [(1, [5, 6]), (256, [])])"
  using manager_roundtrip [OF u64_mapc.serial_axioms, of "[(1, [5, 6]), (256, [])]"
      "fst (mg_register (mg_new 64) 0 LinearCodec)" 0 "[]"]
  by (auto simp: mg_register_def mg_new_def mg_codec_def MAX_SLICE_LEN_def u64_max_def)

lemma mg_unmarshal_sound:
  assumes "serial C enc ok" "mg_unmarshal m src C d = Inr (ver, v)" "mg_max_size m \<le> MAX_SLICE_LEN"
  shows "ok v \<and> src = be_bytes 2 ver @ enc v \<and> mg_marshal m ver C v = Inr src"
proof -
  have mx: "mg_max_size m \<le> u64_max" using assms(3) by (simp add: MAX_SLICE_LEN_def u64_max_def)
  have len: "length src \<le> mg_max_size m" using assms(2) by (simp add: mg_unmarshal_def split: if_splits)
  with mx assms(3) have rd: "reading (new_read src) src" and l1: "length src \<le> MAX_SLICE_LEN"
    by (auto intro!: reading_new)
  obtain ver' p1 where u: "c_unmarshal u16_codec 0 (new_read src) = (ver', p1)" by fastforce
  with assms(2) have e1: "pk_err p1 = None"
    by (auto simp: mg_unmarshal_def unpack_u16_codec [of 0] split: if_splits)
  from u16c.unmarshal_sound [OF rd l1 u e1] obtain bs where
    src: "src = be_bytes 2 ver' @ bs" and ver: "ver' < 256 ^ 2" by auto
  note start = mg_unmarshal_start [OF len [unfolded src] mx ver]
  obtain w p' where w: "c_unmarshal C d (skip_read 2 (new_read (be_bytes 2 ver' @ bs))) = (w, p')" by fastforce
  from assms(2) start(1) [of C d] w obtain c where r: "mg_codec m ver' = Inr c" "pk_err p' = None"
      "pk_offset p' = 2 + length bs" "ver' = ver" "w = v"
    unfolding src by (auto split: sum.splits option.splits if_splits)
  from serial.unmarshal_sound [OF assms(1) start(2) _ w r(2)] l1 src obtain rest where
    "ok w" "bs = enc w @ rest" "p' = skip_read (length (enc w)) (skip_read 2 (new_read (be_bytes 2 ver' @ bs)))"
    by auto
  with r src have v: "ok v" "src = be_bytes 2 ver @ enc v" by auto
  moreover have "mg_marshal m ver C v = Inr src"
    using mg_marshal_enc(2) [OF assms(1) v(1) r(1) _ mx ver] v(2) r(4) len mx by simp
  ultimately show ?thesis by blast
qed

text \<open>
  C23. No two byte strings decode to the same version and value: an input that
  \<^verbatim>\<open>Manager::unmarshal\<close> accepts is the encoding of what it returned, with nothing
  missing and nothing left over, and marshalling the result gives the input
  back. The bound of $2^{31}-1$ bytes is far above every configured maximum; a
  longer buffer could carry a slice count that marshalling rejects.
\<close>

theorem manager_canonical:
  assumes "serial C enc ok" "mg_unmarshal m src C d = Inr (ver, v)" "mg_max_size m \<le> MAX_SLICE_LEN"
  shows "ok v \<and> src = be_bytes 2 ver @ enc v \<and> mg_marshal m ver C v = Inr src"
  using assms by (rule mg_unmarshal_sound)

theorem manager_canonical_witness:
  "[0, 0, 0, 0, 0, 1, 9] = be_bytes 2 0 @ vec_enc (\<lambda>b. [b]) [9 :: u8]"
proof -
  let ?m = "fst (mg_register (mg_new 64) 0 LinearCodec)"
  have "mg_unmarshal ?m [0, 0, 0, 0, 0, 1, 9] (vec_codec u8_codec) [] = Inr (0, [9])"
    by (simp add: mg_unmarshal_def mg_register_def mg_new_def mg_codec_def linear_unmarshal_from_def
        vec_codec_def vec_unmarshal_def u8_codec_def codec_eval)
  from manager_canonical [OF vec_u8.serial_axioms this] show ?thesis
    by (simp add: mg_register_def mg_new_def MAX_SLICE_LEN_def)
qed



section \<open>The packer\<close>

text \<open>
  C26. Errors are sticky: once a packer has failed, no later write or read changes
  it, every read returns the zero value of its type, and the error reported is
  the first one.
\<close>

theorem packer_errors_sticky:
  assumes "pk_err p = Some e"
  shows "pack_byte b p = p \<and> pack_u16 v p = p \<and> pack_u32 v p = p \<and> pack_u64 v p = p \<and> pack_bool t p = p
    \<and> pack_fixed_bytes data p = p \<and> pack_bytes data p = p \<and> pack_str data p = p \<and> add_error e' p = p
    \<and> unpack_byte p = (0, p) \<and> unpack_u16 p = (0, p) \<and> unpack_u32 p = (0, p) \<and> unpack_u64 p = (0, p)
    \<and> unpack_bool p = (False, p) \<and> unpack_fixed_bytes n p = ([], p) \<and> unpack_bytes p = ([], p)
    \<and> unpack_limited_bytes lim p = ([], p) \<and> unpack_str p = ([], p) \<and> unpack_limited_str lim p = ([], p)"
proof -
  have e: "pk_err p \<noteq> None" using assms by simp
  note s = pack_raw pack_fixed_errored [OF e] pk_read_errored [OF e] add_error_errored [OF e]
  show ?thesis
    by (simp add: s pack_bool_def pack_bytes_def pack_str_def unpack_byte_def unpack_u16_def unpack_u32_def
        unpack_u64_def unpack_bool_def unpack_fixed_bytes_def unpack_bytes_def unpack_limited_bytes_def
        unpack_str_def unpack_limited_str_def read_str_def pk_errored_def assms)
qed

theorem packer_errors_sticky_witness:
  "pack_byte 7 (pack_u32 9 (new_write 2)) = pack_u32 9 (new_write 2)
    \<and> pk_err (pack_u32 9 (new_write 2)) = Some InsufficientLength"
proof -
  have e: "pk_err (pack_u32 9 (new_write 2)) = Some InsufficientLength"
    by (simp add: pack_u32_def expand_write_def new_write_def codec_eval)
  show ?thesis using conjunct1 [OF packer_errors_sticky [OF e]] e by blast
qed

text \<open>
  \<^verbatim>\<open>Packer::into_bytes\<close> is documented to be empty when the packer errored; the
  bytes written before the error are returned.
\<close>

lemma into_bytes_keeps_bytes_after_error:
  "pk_err (pack_u32 9 (pack_byte 7 (new_write 2))) = Some InsufficientLength
   \<and> into_bytes (pack_u32 9 (pack_byte 7 (new_write 2))) = [7]"
  by (simp add: pack_u32_def pack_byte_def expand_write_def new_write_def append_bytes_def into_bytes_def codec_eval)

section \<open>The type-id registry\<close>

datatype registry_op = Register string | Skip nat

fun registry_step :: "type_id_registry \<Rightarrow> registry_op \<Rightarrow> type_id_registry" where
  "registry_step r (Register name) = fst (registry_register r name)"
| "registry_step r (Skip n) = fst (registry_skip r n)"

definition registry_inv :: "type_id_registry \<Rightarrow> bool" where
  "registry_inv r \<longleftrightarrow> tr_next r \<le> u32_max \<and> distinct (map fst (tr_assigned r))
     \<and> sorted_wrt (<) (map snd (tr_assigned r)) \<and> (\<forall>i \<in> snd ` set (tr_assigned r). i < tr_next r)"

lemma registry_step_inv: "registry_inv r \<Longrightarrow> registry_inv (registry_step r op)"
  by (cases op) (auto simp: registry_inv_def registry_register_def registry_skip_def checked_add32_def list_ex_iff
      sorted_wrt_append less_Suc_eq intro: less_le_trans trans_less_add1)

lemma registry_step_keeps: "set (tr_assigned r) \<subseteq> set (tr_assigned (registry_step r op))"
  by (cases op) (auto simp: registry_inv_def registry_register_def registry_skip_def split: option.splits)

text \<open>
  C27. Over any sequence of registrations and skips the registry never gives a
  type id twice nor a name two ids: ids increase in registration order, stay
  below the counter and in 32 bits, and an assignment is never changed.
\<close>

theorem registry_ids_unique:
  "registry_inv (foldl registry_step registry_new ops)
   \<and> set (tr_assigned (foldl registry_step registry_new ops))
       \<subseteq> set (tr_assigned (foldl registry_step registry_new (ops @ later)))"
proof -
  have "registry_inv r \<Longrightarrow> registry_inv (foldl registry_step r ops)" for r
  proof (induction ops arbitrary: r)
    case (Cons op ops)
    from Cons.IH [OF registry_step_inv [OF Cons.prems]] show ?case by simp
  qed simp
  moreover have "set (tr_assigned r) \<subseteq> set (tr_assigned (foldl registry_step r later))" for r
  proof (induction later arbitrary: r)
    case (Cons op later)
    from Cons.IH [of "registry_step r op"] registry_step_keeps [of r op] show ?case by auto
  qed simp
  ultimately show ?thesis by (simp add: registry_new_def registry_inv_def)
qed

section \<open>Interface enums\<close>



end
