(* ===== verification/Ava_Gas.thy ===== *)
theory Ava_Gas
  imports Complex_Main Ava_Prelude
begin

text \<open>
  The checked arithmetic of \<^verbatim>\<open>ava-utils/src/math.rs\<close>, the bounded arithmetic of
  \<^verbatim>\<open>ava-saevm/intmath\<close> and the ACP-103 fee primitive of
  \<^verbatim>\<open>ava-vm/src/components/gas.rs\<close>. \<^verbatim>\<open>Gas\<close> and \<^verbatim>\<open>Price\<close> are newtypes over \<^verbatim>\<open>u64\<close> and are
  natural numbers here, with the 64-bit bound written out; \<^verbatim>\<open>BigUint\<close> is \<open>nat\<close>.
\<close>

section \<open>Checked arithmetic (\<^verbatim>\<open>ava-utils/src/math.rs\<close> at \<^verbatim>\<open>u64\<close>)\<close>

datatype math_error = MathOverflow | MathUnderflow

definition safe_add :: "nat \<Rightarrow> nat \<Rightarrow> math_error + nat" where
  "safe_add a b = (if a + b \<le> u64_max then Inr (a + b) else Inl MathOverflow)"

definition safe_sub :: "nat \<Rightarrow> nat \<Rightarrow> math_error + nat" where
  "safe_sub a b = (if b \<le> a then Inr (a - b) else Inl MathUnderflow)"

definition safe_mul :: "nat \<Rightarrow> nat \<Rightarrow> math_error + nat" where
  "safe_mul a b = (if a * b \<le> u64_max then Inr (a * b) else Inl MathOverflow)"

definition abs_diff :: "nat \<Rightarrow> nat \<Rightarrow> nat" where
  "abs_diff a b = (if a < b then b - a else a - b)"

section \<open>Bounded arithmetic (\<^verbatim>\<open>ava-saevm/intmath\<close>)\<close>

definition bounded_add :: "nat \<Rightarrow> nat \<Rightarrow> nat \<Rightarrow> nat" where
  "bounded_add a b ceil = (if a + b \<le> u64_max then min (a + b) ceil else ceil)"

definition bounded_sub :: "nat \<Rightarrow> nat \<Rightarrow> nat \<Rightarrow> nat" where
  "bounded_sub a b flr = (if b \<le> a then max (a - b) flr else flr)"

definition bounded_multiply :: "nat \<Rightarrow> nat \<Rightarrow> nat \<Rightarrow> nat" where
  "bounded_multiply a b ceil = (if a * b \<le> u64_max then min (a * b) ceil else ceil)"

text \<open>\<^verbatim>\<open>u64::div_ceil\<close> and \<^verbatim>\<open>u128::div_ceil\<close>: the quotient, plus one on a remainder.\<close>

definition div_ceil :: "nat \<Rightarrow> nat \<Rightarrow> nat" where
  "div_ceil a d = (if 0 < a mod d then a div d + 1 else a div d)"

text \<open>A zero denominator panics: \<open>None\<close>.\<close>

definition ceil_div :: "nat \<Rightarrow> nat \<Rightarrow> nat option" where
  "ceil_div num den = (if den = 0 then None else Some (div_ceil num den))"

text \<open>The 128-bit product wraps at \<open>2 ^ 128\<close>, as \<^verbatim>\<open>wrapping_mul\<close> does.\<close>

definition wrapping_mul128 :: "nat \<Rightarrow> nat \<Rightarrow> nat" where
  "wrapping_mul128 a b = (a * b) mod 2 ^ 128"

definition mul_div_floor :: "nat \<Rightarrow> nat \<Rightarrow> nat \<Rightarrow> nat option" where
  "mul_div_floor a b den =
    (let prod = wrapping_mul128 a b in
     if den = 0 then None
     else let quo = prod div den in
       if quo \<le> u64_max then Some quo else None)"

definition mul_div_ceil :: "nat \<Rightarrow> nat \<Rightarrow> nat \<Rightarrow> nat option" where
  "mul_div_ceil a b den =
    (if den = 0 then None
     else let prod = wrapping_mul128 a b; quo = div_ceil prod den in
       if quo \<le> u64_max then Some quo else None)"

section \<open>Gas and price (\<^verbatim>\<open>ava-vm/src/components/gas.rs\<close>)\<close>

type_synonym gas = nat

type_synonym price = nat

datatype gas_error = GasOverflow | GasUnderflow | InsufficientCapacity

definition gas_cost :: "gas \<Rightarrow> price \<Rightarrow> gas_error + nat" where
  "gas_cost g p = (case safe_mul g p of Inl _ \<Rightarrow> Inl GasOverflow | Inr v \<Rightarrow> Inr v)"

definition add_over_time :: "gas \<Rightarrow> gas \<Rightarrow> nat \<Rightarrow> gas" where
  "add_over_time g gas_rate duration =
    (case safe_mul gas_rate duration of
       Inl _ \<Rightarrow> u64_max
     | Inr added \<Rightarrow> (case safe_add g added of Inl _ \<Rightarrow> u64_max | Inr v \<Rightarrow> v))"

definition sub_over_time :: "gas \<Rightarrow> gas \<Rightarrow> nat \<Rightarrow> gas" where
  "sub_over_time g gas_rate duration =
    (case safe_mul gas_rate duration of
       Inl _ \<Rightarrow> 0
     | Inr to_remove \<Rightarrow> (case safe_sub g to_remove of Inl _ \<Rightarrow> 0 | Inr v \<Rightarrow> v))"

record gas_state =
  gs_capacity :: gas
  gs_excess :: gas

definition gs_advance :: "gas_state \<Rightarrow> gas \<Rightarrow> gas \<Rightarrow> gas \<Rightarrow> nat \<Rightarrow> gas_state" where
  "gs_advance s max_capacity capacity_rate target_rate duration =
    \<lparr>gs_capacity = min (add_over_time (gs_capacity s) capacity_rate duration) max_capacity,
     gs_excess = sub_over_time (gs_excess s) target_rate duration\<rparr>"

definition gs_consume :: "gas_state \<Rightarrow> gas \<Rightarrow> gas_error + gas_state" where
  "gs_consume s g =
    (case safe_sub (gs_capacity s) g of
       Inl _ \<Rightarrow> Inl InsufficientCapacity
     | Inr new_capacity \<Rightarrow>
         (let new_excess = (case safe_add (gs_excess s) g of Inl _ \<Rightarrow> u64_max | Inr v \<Rightarrow> v) in
          Inr \<lparr>gs_capacity = new_capacity, gs_excess = new_excess\<rparr>))"

text \<open>\<^verbatim>\<open>[u64; NUM_DIMENSIONS]\<close> is a list of four numbers; \<^verbatim>\<open>zip\<close> stops at the shorter side.\<close>

type_synonym dimensions = "nat list"

definition num_dimensions :: nat where
  "num_dimensions = 4"

definition dims_wf :: "dimensions \<Rightarrow> bool" where
  "dims_wf d \<longleftrightarrow> length d = num_dimensions \<and> list_all (\<lambda>v. v \<le> u64_max) d"

fun dim_add :: "nat list \<Rightarrow> nat list \<Rightarrow> gas_error + nat list" where
  "dim_add (a # d) (v # w) =
    (case safe_add a v of
       Inl _ \<Rightarrow> Inl GasOverflow
     | Inr x \<Rightarrow> (case dim_add d w of Inl e \<Rightarrow> Inl e | Inr r \<Rightarrow> Inr (x # r)))"
| "dim_add d _ = Inr d"

fun dim_sub :: "nat list \<Rightarrow> nat list \<Rightarrow> gas_error + nat list" where
  "dim_sub (a # d) (v # w) =
    (case safe_sub a v of
       Inl _ \<Rightarrow> Inl GasUnderflow
     | Inr x \<Rightarrow> (case dim_sub d w of Inl e \<Rightarrow> Inl e | Inr r \<Rightarrow> Inr (x # r)))"
| "dim_sub d _ = Inr d"

fun dims_add :: "dimensions \<Rightarrow> dimensions list \<Rightarrow> gas_error + dimensions" where
  "dims_add d [] = Inr d"
| "dims_add d (v # os) = (case dim_add d v of Inl e \<Rightarrow> Inl e | Inr d' \<Rightarrow> dims_add d' os)"

fun dims_sub :: "dimensions \<Rightarrow> dimensions list \<Rightarrow> gas_error + dimensions" where
  "dims_sub d [] = Inr d"
| "dims_sub d (v # os) = (case dim_sub d v of Inl e \<Rightarrow> Inl e | Inr d' \<Rightarrow> dims_sub d' os)"

fun to_gas_from :: "nat \<Rightarrow> nat list \<Rightarrow> nat list \<Rightarrow> gas_error + gas" where
  "to_gas_from res (d # ds) (w # ws) =
    (case safe_mul d w of
       Inl _ \<Rightarrow> Inl GasOverflow
     | Inr v \<Rightarrow> (case safe_add res v of Inl _ \<Rightarrow> Inl GasOverflow | Inr r \<Rightarrow> to_gas_from r ds ws))"
| "to_gas_from res _ _ = Inr res"

definition to_gas :: "dimensions \<Rightarrow> dimensions \<Rightarrow> gas_error + gas" where
  "to_gas d weights = to_gas_from 0 d weights"

subsection \<open>The price loop\<close>

text \<open>
  The body of \<^verbatim>\<open>calculate_price\<close>. Each round adds a positive term to \<open>out\<close>
  and the loop goes on only below \<open>mx\<close>, so \<open>mx - out\<close> decreases.
\<close>

function price_loop :: "nat \<Rightarrow> nat \<Rightarrow> nat \<Rightarrow> nat \<Rightarrow> nat \<Rightarrow> nat \<Rightarrow> price" where
  "price_loop num den mx i out accum =
    (if 0 < accum then
       (if mx \<le> out + accum then u64_max
        else price_loop num den mx (i + 1) (out + accum) (accum * num div den div i))
     else (if out div den \<le> u64_max then out div den else u64_max))"
  by pat_completeness auto
termination by (relation "measure (\<lambda>(num, den, mx, i, out, accum). mx - out)") auto

declare price_loop.simps [simp del]

definition calculate_price :: "price \<Rightarrow> gas \<Rightarrow> gas \<Rightarrow> price" where
  "calculate_price min_price excess k =
    (if k = 0 then min_price
     else price_loop excess k (k * u64_max) 1 0 (min_price * k))"

section \<open>Lemmas\<close>

lemmas bounded_defs = bounded_add_def bounded_sub_def bounded_multiply_def
lemmas safe_defs = safe_add_def safe_sub_def safe_mul_def

lemma bounded_add_eq: "bounded_add a b u64_max = min (a + b) u64_max"
  by (simp add: bounded_add_def)

lemma bounded_multiply_eq: "bounded_multiply a b u64_max = min (a * b) u64_max"
  by (simp add: bounded_multiply_def)

lemma bounded_sub_eq: "bounded_sub a b 0 = a - b"
  by (simp add: bounded_sub_def)

lemma u64_prod_exact:
  assumes "a \<le> u64_max" "b \<le> u64_max"
  shows "wrapping_mul128 a b = a * b"
proof -
  have "a * b \<le> u64_max * u64_max" by (rule mult_le_mono [OF assms])
  also have "\<dots> < 2 ^ 128" by (simp add: u64_max_def)
  finally show ?thesis by (simp add: wrapping_mul128_def)
qed

lemma div_ceil_eq: "0 < d \<Longrightarrow> div_ceil a d = (a + (d - 1)) div d"
proof -
  assume d: "0 < d"
  have "(a + (d - 1)) div d = a div d + (a mod d + (d - 1)) div d"
    using d by (metis div_mult_mod_eq div_mult_self3 add.assoc less_numeral_extra(3))
  moreover have "(a mod d + (d - 1)) div d = (if 0 < a mod d then 1 else 0)"
  proof (cases "0 < a mod d")
    case True
    then have "a mod d + (d - 1) = (a mod d - 1) + d" using d by simp
    then have "(a mod d + (d - 1)) div d = (a mod d - 1) div d + 1" using d by (simp only: div_add_self2)
    moreover have "(a mod d - 1) div d = 0"
      using d mod_less_divisor [of d a] by (intro div_less) linarith
    ultimately show ?thesis using True by simp
  qed (use d in simp)
  ultimately show ?thesis by (simp add: div_ceil_def)
qed

lemma div_ceil_le_iff: "0 < d \<Longrightarrow> div_ceil a d \<le> n \<longleftrightarrow> a \<le> n * d"
proof -
  assume d: "0 < d"
  have "div_ceil a d \<le> n \<longleftrightarrow> (a + (d - 1)) div d < Suc n" using d by (simp add: div_ceil_eq less_Suc_eq_le)
  also have "\<dots> \<longleftrightarrow> a + (d - 1) < Suc n * d" using d by (rule div_less_iff_less_mult)
  also have "\<dots> \<longleftrightarrow> a \<le> n * d" using d by auto
  finally show ?thesis .
qed

lemma div_ceil_mult: "0 < d \<Longrightarrow> a \<le> div_ceil a d * d"
  using div_ceil_le_iff [of d a "div_ceil a d"] by simp

lemma mul_div_floor_eq:
  assumes "a \<le> u64_max" "b \<le> u64_max"
  shows "mul_div_floor a b den =
    (if den \<noteq> 0 \<and> a * b div den \<le> u64_max then Some (a * b div den) else None)"
  using u64_prod_exact [OF assms] by (simp add: mul_div_floor_def Let_def)

lemma mul_div_ceil_eq:
  assumes "a \<le> u64_max" "b \<le> u64_max"
  shows "mul_div_ceil a b den =
    (if den \<noteq> 0 \<and> div_ceil (a * b) den \<le> u64_max then Some (div_ceil (a * b) den) else None)"
  using u64_prod_exact [OF assms] by (simp add: mul_div_ceil_def Let_def)

subsection \<open>The price loop\<close>

lemma price_loop_le: "price_loop num den mx i out accum \<le> u64_max"
proof (induction num den mx i out accum rule: price_loop.induct)
  case (1 num den mx i out accum)
  show ?case
    by (subst price_loop.simps) (use 1 in auto)
qed

text \<open>What has been summed so far is a lower bound of the result.\<close>

lemma price_loop_ge: "min (out div den) u64_max \<le> price_loop num den mx i out accum"
proof (induction num den mx i out accum rule: price_loop.induct)
  case (1 num den mx i out accum)
  show ?case
  proof (cases "0 < accum \<and> \<not> mx \<le> out + accum")
    case True
    have "min (out div den) u64_max \<le> min ((out + accum) div den) u64_max"
      by (intro min.mono div_le_mono) simp_all
    also have "\<dots> \<le> price_loop num den mx (i + 1) (out + accum) (accum * num div den div i)"
      using 1 True by blast
    finally show ?thesis using True by (subst price_loop.simps) simp
  qed (subst price_loop.simps, auto)
qed

lemma price_loop_mono:
  assumes "num \<le> num'" "out \<le> out'" "accum \<le> accum'"
  shows "price_loop num den mx i out accum \<le> price_loop num' den mx i out' accum'"
  using assms
proof (induction num den mx i out accum arbitrary: out' accum' rule: price_loop.induct)
  case (1 num den mx i out accum)
  show ?case
  proof (cases "0 < accum")
    case False
    have "price_loop num den mx i out accum = min (out div den) u64_max"
      using False by (subst price_loop.simps) simp
    also have "\<dots> \<le> min (out' div den) u64_max"
      using 1(3) by (intro min.mono div_le_mono) simp_all
    also have "\<dots> \<le> price_loop num' den mx i out' accum'" by (rule price_loop_ge)
    finally show ?thesis .
  next
    case True
    show ?thesis
    proof (cases "mx \<le> out' + accum'")
      case mx: True
      have "price_loop num' den mx i out' accum' = u64_max"
        using True 1(4) mx by (subst price_loop.simps) simp
      then show ?thesis by (simp add: price_loop_le)
    next
      case mx: False
      have le: "accum * num div den div i \<le> accum' * num' div den div i"
        using 1(2,4) by (intro div_le_mono mult_le_mono)
      have lt: "\<not> mx \<le> out + accum" using mx 1(3,4) by linarith
      have sum: "out + accum \<le> out' + accum'" using 1(3,4) by (rule add_mono)
      have "price_loop num den mx i out accum
          = price_loop num den mx (i + 1) (out + accum) (accum * num div den div i)"
        using True lt by (subst price_loop.simps) simp
      also have "\<dots> \<le> price_loop num' den mx (i + 1) (out' + accum') (accum' * num' div den div i)"
        by (rule 1(1) [OF True lt 1(2) sum le])
      also have "\<dots> = price_loop num' den mx i out' accum'"
        using True 1(4) mx by (subst (2) price_loop.simps) simp
      finally show ?thesis .
    qed
  qed
qed

lemma calculate_price_le: "m \<le> u64_max \<Longrightarrow> calculate_price m x k \<le> u64_max"
  by (simp add: calculate_price_def price_loop_le)

lemma calculate_price_mono:
  "x \<le> x' \<Longrightarrow> m \<le> m' \<Longrightarrow> calculate_price m x k \<le> calculate_price m' x' k"
  by (simp add: calculate_price_def price_loop_mono)

lemma calculate_price_ge:
  assumes "m \<le> u64_max"
  shows "m \<le> calculate_price m x k"
proof (cases "k = 0 \<or> m = 0")
  case True
  then show ?thesis by (auto simp: calculate_price_def)
next
  case False
  then have "calculate_price m x k = price_loop x k (k * u64_max) 1 0 (m * k)"
    by (simp add: calculate_price_def)
  moreover have "m \<le> price_loop x k (k * u64_max) 1 0 (m * k)"
  proof (cases "k * u64_max \<le> m * k")
    case True
    then show ?thesis using False assms by (subst price_loop.simps) simp
  next
    case lt: False
    have "m \<le> min (m * k div k) u64_max" using False assms by simp
    also have "\<dots> \<le> price_loop x k (k * u64_max) (1 + 1) (m * k) (m * k * x div k div 1)"
      by (rule price_loop_ge)
    finally show ?thesis using False lt by (subst price_loop.simps) simp
  qed
  ultimately show ?thesis by simp
qed

lemma calculate_price_zero:
  assumes "m \<le> u64_max"
  shows "calculate_price m 0 k = m"
proof (cases "k = 0 \<or> m = 0")
  case True
  then show ?thesis by (auto simp: calculate_price_def price_loop.simps)
next
  case False
  have "price_loop 0 k (k * u64_max) 1 0 (m * k) = m"
  proof (cases "k * u64_max \<le> m * k")
    case True
    then have "m = u64_max" using False assms by simp
    then show ?thesis using True False by (subst price_loop.simps) simp
  next
    case lt: False
    have "price_loop 0 k (k * u64_max) 2 (m * k) 0 = m"
      using False assms by (subst price_loop.simps) simp
    then show ?thesis using False lt by (subst price_loop.simps) (simp add: numeral_2_eq_2)
  qed
  then show ?thesis using False by (simp add: calculate_price_def)
qed

subsection \<open>The price against the exponential\<close>

lemma exp_partial_sum:
  fixes r :: real
  assumes "0 \<le> r"
  shows "(\<Sum>j<n. r ^ j / fact j) \<le> exp r"
proof -
  have s: "summable (\<lambda>j. r ^ j / fact j)"
    using summable_exp [of r] by (simp add: field_simps)
  have "(\<Sum>j<n. r ^ j / fact j) \<le> (\<Sum>j. r ^ j / fact j)"
    using s assms by (intro sum_le_suminf) simp_all
  also have "(\<Sum>j. r ^ j / fact j) = exp r"
    by (simp add: exp_def divide_inverse mult.commute scaleR_conv_of_real)
  finally show ?thesis .
qed

lemma price_loop_exp:
  fixes M :: real
  assumes "0 < den" "0 \<le> M" "mx = den * u64_max" "0 < i"
    and "real accum \<le> M * (r ^ (i - 1) / fact (i - 1))"
    and "real out \<le> M * (\<Sum>j<i - 1. r ^ j / fact j)"
    and "r = real num / real den"
  shows "real (price_loop num den mx i out accum) * real den \<le> M * exp r"
  using assms
proof (induction num den mx i out accum rule: price_loop.induct)
  case (1 num den mx i out accum)
  have r: "0 \<le> r" using 1(8) by simp
  have cap: "M * (\<Sum>j<n. r ^ j / fact j) \<le> M * exp r" for n
    using exp_partial_sum [OF r] 1(3) by (rule mult_left_mono)
  have idx: "i = Suc (i - 1)" using 1(5) by simp
  have out: "real (out + accum) \<le> M * (\<Sum>j<i. r ^ j / fact j)"
    using 1(6,7) by (subst idx, subst sum.lessThan_Suc) (simp add: algebra_simps)
  show ?case
  proof (cases "0 < accum")
    case False
    have "price_loop num den mx i out accum = min (out div den) u64_max"
      using False by (subst price_loop.simps) simp
    also have "\<dots> \<le> out div den" by simp
    finally have "price_loop num den mx i out accum * den \<le> out div den * den" by simp
    also have "\<dots> \<le> out" by simp
    finally have "real (price_loop num den mx i out accum * den) \<le> real out" by (simp only: of_nat_le_iff)
    also have "\<dots> \<le> M * exp r" using 1(7) cap by (rule order_trans)
    finally show ?thesis by simp
  next
    case pos: True
    show ?thesis
    proof (cases "mx \<le> out + accum")
      case True
      have "real (u64_max * den) \<le> real (out + accum)"
        using True 1(4) by (simp only: of_nat_le_iff mult.commute)
      also have "\<dots> \<le> M * exp r" using out cap by (rule order_trans)
      finally show ?thesis using pos True by (subst price_loop.simps) simp
    next
      case False
      have "real (accum * num div den div i) \<le> real (accum * num div den) / real i" by (rule of_nat_div_le_of_nat)
      also have "\<dots> \<le> real (accum * num) / real den / real i"
        by (intro divide_right_mono of_nat_div_le_of_nat) simp
      also have "\<dots> = real accum * r / real i" by (simp add: 1(8))
      also have "\<dots> \<le> M * (r ^ (i - 1) / fact (i - 1)) * r / real i"
        using 1(6) r by (intro divide_right_mono mult_right_mono) simp_all
      also have "\<dots> = M * (r ^ i / fact i)"
        using 1(5) by (cases i) (simp_all add: field_simps del: of_nat_Suc)
      finally have "real (accum * num div den div i) \<le> M * (r ^ (i + 1 - 1) / fact (i + 1 - 1))" by simp
      from 1(1) [OF pos False 1(2,3,4) _ this _ 1(8)] out
      have "real (price_loop num den mx (i + 1) (out + accum) (accum * num div den div i)) * real den
        \<le> M * exp r" by simp
      then show ?thesis using pos False by (subst price_loop.simps) simp
    qed
  qed
qed

lemma calculate_price_exp:
  assumes "0 < k"
  shows "real (calculate_price m x k) \<le> real m * exp (real x / real k)"
proof -
  have "real (price_loop x k (k * u64_max) 1 0 (m * k)) * real k \<le> real m * real k * exp (real x / real k)"
    by (rule price_loop_exp) (use assms in simp_all)
  then show ?thesis using assms by (simp add: calculate_price_def)
qed

subsection \<open>Dimensions\<close>

definition dot :: "nat list \<Rightarrow> nat list \<Rightarrow> nat" where
  "dot d w = sum_list (map2 (*) d w)"

lemma dot_simps [simp]:
  "dot [] w = 0" "dot d [] = 0" "dot (a # d) (b # w) = a * b + dot d w"
  by (simp_all add: dot_def)

lemma to_gas_from_eq:
  "res \<le> u64_max \<Longrightarrow> to_gas_from res d w =
    (if res + dot d w \<le> u64_max then Inr (res + dot d w) else Inl GasOverflow)"
  by (induction res d w rule: to_gas_from.induct) (auto simp: safe_defs add.assoc)

lemma dim_sub_add: "dim_add d v = Inr d' \<Longrightarrow> dim_sub d' v = Inr d"
  by (induction d v arbitrary: d' rule: dim_add.induct)
    (auto simp: safe_defs split: if_splits sum.splits)

lemma dim_sub_sub_swap:
  "dim_sub d v = Inr d1 \<Longrightarrow> dim_sub d1 w = Inr d2 \<Longrightarrow>
    \<exists>e. dim_sub d w = Inr e \<and> dim_sub e v = Inr d2"
proof (induction d v arbitrary: w d1 d2 rule: dim_sub.induct)
  case (1 a d v vs)
  show ?case
  proof (cases w)
    case (Cons b bs)
    from 1(2) obtain r where r: "v \<le> a" "dim_sub d vs = Inr r" "d1 = (a - v) # r"
      by (auto simp: safe_defs split: if_splits sum.splits)
    from 1(3) obtain r2 where r2: "b \<le> a - v" "dim_sub r bs = Inr r2" "d2 = (a - v - b) # r2"
      using Cons r(3) by (auto simp: safe_defs split: if_splits sum.splits)
    from 1(1) [OF _ r(2) r2(2), of "a - v"] r(1)
    obtain e where "dim_sub d bs = Inr e" "dim_sub e vs = Inr r2" by (auto simp: safe_defs)
    then show ?thesis using Cons r(1) r2(1,3) by (auto simp: safe_defs)
  qed (use 1 in auto)
qed auto

lemma dims_sub_prepend:
  "dims_sub d os = Inr d1 \<Longrightarrow> dim_sub d1 v = Inr d2 \<Longrightarrow>
    \<exists>e. dim_sub d v = Inr e \<and> dims_sub e os = Inr d2"
proof (induction d os arbitrary: d1 d2 rule: dims_sub.induct)
  case (2 d w os)
  then obtain d' where d': "dim_sub d w = Inr d'" "dims_sub d' os = Inr d1"
    by (auto split: sum.splits)
  from 2(1) [OF d' 2(3)] obtain e where e: "dim_sub d' v = Inr e" "dims_sub e os = Inr d2" by blast
  from dim_sub_sub_swap [OF d'(1) e(1)]
  obtain e' where "dim_sub d v = Inr e'" "dim_sub e' w = Inr e" by blast
  with e(2) show ?case by auto
qed simp

lemma dims_sub_dims_add: "dims_add d os = Inr d' \<Longrightarrow> dims_sub d' os = Inr d"
proof (induction d os arbitrary: d' rule: dims_add.induct)
  case (2 d v os)
  then obtain d1 where d1: "dim_add d v = Inr d1" "dims_add d1 os = Inr d'"
    by (auto split: sum.splits)
  from dims_sub_prepend [OF 2(1) [OF d1] dim_sub_add [OF d1(1)]]
  show ?case by auto
qed simp

subsection \<open>The capacity bucket\<close>

text \<open>Sequences of the two state changes of \<^verbatim>\<open>GasState\<close>, and what they consume and how long they last.\<close>

datatype gas_op = GAdvance nat | GConsume gas

fun gs_run :: "gas \<Rightarrow> gas \<Rightarrow> gas \<Rightarrow> gas_op list \<Rightarrow> gas_state \<Rightarrow> gas_error + gas_state" where
  "gs_run mx cr tr [] s = Inr s"
| "gs_run mx cr tr (GAdvance t # ops) s = gs_run mx cr tr ops (gs_advance s mx cr tr t)"
| "gs_run mx cr tr (GConsume g # ops) s =
    (case gs_consume s g of Inl e \<Rightarrow> Inl e | Inr s' \<Rightarrow> gs_run mx cr tr ops s')"

fun op_gas :: "gas_op \<Rightarrow> nat" where
  "op_gas (GAdvance t) = 0" | "op_gas (GConsume g) = g"

fun op_time :: "gas_op \<Rightarrow> nat" where
  "op_time (GAdvance t) = t" | "op_time (GConsume g) = 0"

abbreviation consumed :: "gas_op list \<Rightarrow> nat" where
  "consumed ops \<equiv> sum_list (map op_gas ops)"

abbreviation elapsed :: "gas_op list \<Rightarrow> nat" where
  "elapsed ops \<equiv> sum_list (map op_time ops)"

lemma add_over_time_eq: "add_over_time g r t = min (g + r * t) u64_max"
  by (simp add: add_over_time_def safe_defs)

lemma sub_over_time_eq: "g \<le> u64_max \<Longrightarrow> sub_over_time g r t = g - r * t"
  by (auto simp: sub_over_time_def safe_defs)

lemma gs_consume_cases:
  assumes "gs_consume s g = Inr s'"
  shows "g \<le> gs_capacity s" "gs_capacity s' = gs_capacity s - g"
    "gs_excess s' = min (gs_excess s + g) u64_max"
  using assms by (auto simp: gs_consume_def safe_defs split: if_splits)

lemma gs_run_capacity:
  "gs_run mx cr tr ops s = Inr s' \<Longrightarrow>
    consumed ops + gs_capacity s' \<le> gs_capacity s + cr * elapsed ops"
proof (induction mx cr tr ops s rule: gs_run.induct)
  case (2 mx cr tr t ops s)
  then have "consumed ops + gs_capacity s' \<le> gs_capacity (gs_advance s mx cr tr t) + cr * elapsed ops"
    by simp
  also have "gs_capacity (gs_advance s mx cr tr t) \<le> gs_capacity s + cr * t"
    by (simp add: gs_advance_def add_over_time_eq)
  finally show ?case by (simp add: distrib_left)
next
  case (3 mx cr tr g ops s)
  then obtain s1 where s1: "gs_consume s g = Inr s1" "gs_run mx cr tr ops s1 = Inr s'"
    by (auto split: sum.splits)
  show ?case using 3(1) [OF s1] gs_consume_cases [OF s1(1)] by simp
qed simp

lemma gs_run_excess:
  "gs_run mx cr tr ops s = Inr s' \<Longrightarrow> gs_excess s + consumed ops \<le> u64_max \<Longrightarrow>
    gs_excess s + consumed ops \<le> gs_excess s' + tr * elapsed ops"
proof (induction mx cr tr ops s rule: gs_run.induct)
  case (2 mx cr tr t ops s)
  have adv: "gs_excess (gs_advance s mx cr tr t) = gs_excess s - tr * t"
    using 2(3) by (simp add: gs_advance_def sub_over_time_eq)
  have "gs_excess (gs_advance s mx cr tr t) + consumed ops \<le> gs_excess s' + tr * elapsed ops"
    using 2 adv by simp
  then show ?case by (simp add: distrib_left adv)
next
  case (3 mx cr tr g ops s)
  then obtain s1 where s1: "gs_consume s g = Inr s1" "gs_run mx cr tr ops s1 = Inr s'"
    by (auto split: sum.splits)
  show ?case using 3(1) [OF s1] gs_consume_cases [OF s1(1)] 3(3) by simp
qed simp

text \<open>One round of the loop, and its end.\<close>

lemma price_loop_step:
  "0 < accum \<Longrightarrow> out + accum < mx \<Longrightarrow>
    price_loop num den mx i out accum = price_loop num den mx (i + 1) (out + accum) (accum * num div den div i)"
  by (subst price_loop.simps) simp

lemma price_loop_end: "out div den \<le> u64_max \<Longrightarrow> price_loop num den mx i out 0 = out div den"
  by (subst price_loop.simps) simp

section \<open>Properties\<close>

text \<open>
  C31. Bounds of the dynamic-fee price. For a non-zero conversion constant the
  price loop returns a 64-bit value that is at least the minimum price, is
  non-decreasing in the excess, and never exceeds the exponential
  \<open>min_price * e ^ (excess / k)\<close> it approximates.
\<close>

theorem calculate_price_bounds:
  assumes "0 < k" "m \<le> u64_max" "x \<le> y"
  shows "m \<le> calculate_price m x k \<and> calculate_price m x k \<le> calculate_price m y k
    \<and> calculate_price m y k \<le> u64_max
    \<and> real (calculate_price m y k) \<le> real m * exp (real y / real k)"
  using assms calculate_price_ge [of m x k] calculate_price_mono [of x y m m k]
    calculate_price_le [of m y k] calculate_price_exp [of k m y] by blast

theorem calculate_price_bounds_witness:
  "calculate_price 10 3 2 = 44 \<and> real (calculate_price 10 3 2) \<le> 10 * exp (3 / 2)"
proof -
  have v: "calculate_price 10 3 2 = 44"
    by (simp add: calculate_price_def price_loop_step price_loop_end u64_max_def del: One_nat_def)
  from calculate_price_bounds [of 2 10 0 3]
  have "real (calculate_price 10 3 2) \<le> real 10 * exp (real 3 / real 2)"
    by (simp add: u64_max_def)
  with v show ?thesis by simp
qed

text \<open>
  The gas of a transaction. \<^verbatim>\<open>Dimensions::to_gas\<close> returns the exact dot product
  of the usage and the weights when that fits 64 bits, and the overflow error
  exactly when it does not.
\<close>

theorem to_gas_exact:
  "to_gas d weights =
    (if dot d weights \<le> u64_max then Inr (dot d weights) else Inl GasOverflow)"
  using to_gas_from_eq [of 0 d weights] by (simp add: to_gas_def)



end
