(* ===== verification/Ava_Proxytime.thy ===== *)
theory Ava_Proxytime
  imports Ava_Gas Ava_Packer
begin

text \<open>
  The proxy-unit clock of \<^verbatim>\<open>ava-saevm/proxytime\<close> and the fraction comparison of
  \<^verbatim>\<open>ava-saevm/cmputils\<close>. The proxy unit is \<^verbatim>\<open>u64\<close>, the only instance the
  workspace declares. A panic is the value \<open>None\<close>. The lemmas read the clock as
  the rational instant \<open>seconds + fraction / hertz\<close>.
\<close>

section \<open>Model\<close>

datatype ordering = Less | Equal | Greater

definition cmp_nat :: "nat \<Rightarrow> nat \<Rightarrow> ordering" where
  "cmp_nat a b = (if a < b then Less else if a = b then Equal else Greater)"

definition compare_fractions :: "nat \<Rightarrow> nat \<Rightarrow> nat \<Rightarrow> nat \<Rightarrow> ordering" where
  "compare_fractions n1 d1 n2 d2 = cmp_nat (wrapping_mul128 n1 d2) (wrapping_mul128 n2 d1)"

definition wrapping_add128 :: "nat \<Rightarrow> nat \<Rightarrow> nat" where
  "wrapping_add128 a b = (a + b) mod 2 ^ 128"

definition wrapping_sub128 :: "nat \<Rightarrow> nat \<Rightarrow> nat" where
  "wrapping_sub128 a b = (a + 2 ^ 128 - b) mod 2 ^ 128"

definition wrapping_sub64 :: "nat \<Rightarrow> nat \<Rightarrow> nat" where
  "wrapping_sub64 a b = (a + 2 ^ 64 - b) mod 2 ^ 64"

text \<open>\<^verbatim>\<open>u64::try_from(n).unwrap_or(d)\<close>.\<close>

definition u64_or :: "nat \<Rightarrow> nat \<Rightarrow> nat" where
  "u64_or n d = (if n \<le> u64_max then n else d)"

record fractional_second =
  fs_numerator :: nat
  fs_denominator :: nat

record proxy_time =
  pt_seconds :: nat
  pt_fraction :: nat
  pt_hertz :: nat

definition pt_tick :: "nat \<Rightarrow> proxy_time \<Rightarrow> proxy_time option" where
  "pt_tick d t =
    (let total = wrapping_add128 (pt_fraction t) d in
     if pt_hertz t = 0 then None
     else
       let carry = total div pt_hertz t;
           rem = total mod pt_hertz t;
           carry_u64 = u64_or carry u64_max
       in Some (t\<lparr>pt_seconds := sat_add64 (pt_seconds t) carry_u64, pt_fraction := u64_or rem 0\<rparr>))"

definition pt_new :: "nat \<Rightarrow> nat \<Rightarrow> nat \<Rightarrow> proxy_time option" where
  "pt_new seconds frac0 hertz =
    (if 0 < hertz
     then pt_tick frac0 \<lparr>pt_seconds = seconds, pt_fraction = 0, pt_hertz = hertz\<rparr>
     else None)"

definition pt_unix_seconds :: "proxy_time \<Rightarrow> nat" where
  "pt_unix_seconds t = pt_seconds t"

definition pt_rate :: "proxy_time \<Rightarrow> nat" where
  "pt_rate t = pt_hertz t"

definition pt_frac :: "proxy_time \<Rightarrow> fractional_second" where
  "pt_frac t = \<lparr>fs_numerator = pt_fraction t, fs_denominator = pt_hertz t\<rparr>"

definition pt_is_future :: "proxy_time \<Rightarrow> nat \<Rightarrow> nat \<Rightarrow> bool" where
  "pt_is_future t sec num =
    (if sec \<noteq> pt_seconds t then pt_seconds t < sec else pt_fraction t < num)"

definition pt_fast_forward_to ::
    "nat \<Rightarrow> nat \<Rightarrow> proxy_time \<Rightarrow> (proxy_time \<times> nat \<times> fractional_second) option" where
  "pt_fast_forward_to to0 to_frac0 t =
    (if pt_hertz t = 0 then None
     else
       let hz = pt_hertz t;
           extra_secs = to_frac0 div hz;
           rem_frac = to_frac0 mod hz;
           to = sat_add64 to0 (u64_or extra_secs u64_max);
           to_frac = u64_or rem_frac 0
       in
       if \<not> pt_is_future t to to_frac
       then Some (t, 0, \<lparr>fs_numerator = 0, fs_denominator = hz\<rparr>)
       else
         let (ff_sec, ff_frac_num) =
           (if to_frac < pt_fraction t
            then (wrapping_sub64 (wrapping_sub64 to (pt_seconds t)) 1,
                  u64_or (wrapping_sub128 (wrapping_add128 hz to_frac) (pt_fraction t)) 0)
            else (wrapping_sub64 to (pt_seconds t),
                  u64_or (wrapping_sub128 to_frac (pt_fraction t)) 0))
         in Some (t\<lparr>pt_seconds := to, pt_fraction := to_frac\<rparr>, ff_sec,
                  \<lparr>fs_numerator = ff_frac_num, fs_denominator = hz\<rparr>))"

definition pt_set_rate :: "nat \<Rightarrow> proxy_time \<Rightarrow> proxy_time option" where
  "pt_set_rate hertz t =
    (if hertz = 0 then None
     else case mul_div_ceil (pt_fraction t) hertz (pt_hertz t) of
       None \<Rightarrow> None
     | Some new_frac \<Rightarrow>
         let (new_frac_adj, seconds_bump) =
           (if hertz \<le> new_frac then (wrapping_sub64 new_frac hertz, 1) else (new_frac, 0))
         in Some \<lparr>pt_seconds = sat_add64 (pt_seconds t) seconds_bump,
                  pt_fraction = new_frac_adj, pt_hertz = hertz\<rparr>)"

definition pt_compare :: "proxy_time \<Rightarrow> proxy_time \<Rightarrow> ordering" where
  "pt_compare t u =
    (case cmp_nat (pt_seconds t) (pt_seconds u) of
       Equal \<Rightarrow> cmp_nat (wrapping_mul128 (pt_fraction t) (pt_hertz u))
                        (wrapping_mul128 (pt_fraction u) (pt_hertz t))
     | ord \<Rightarrow> ord)"

text \<open>
  A \<^verbatim>\<open>SystemTime\<close> is seconds since the epoch, signed 64-bit in \<^verbatim>\<open>std\<close>, and nanoseconds.
\<close>

definition systime_add :: "nat \<times> nat \<Rightarrow> nat \<times> nat \<Rightarrow> (nat \<times> nat) option" where
  "systime_add t d =
    (let n = snd t + snd d; s = fst t + fst d + n div 1000000000 in
     if int s \<le> i64_max then Some (s, n mod 1000000000) else None)"

definition pt_as_time :: "proxy_time \<Rightarrow> nat \<times> nat" where
  "pt_as_time t =
    (let nanos = (case mul_div_ceil (pt_fraction t) 1000000000 (pt_hertz t) of
                    None \<Rightarrow> 1000000000 | Some n \<Rightarrow> n);
         secs = min (pt_seconds t) (nat i64_max)
     in case systime_add (0, 0) (secs, 0) of
          None \<Rightarrow> (0, 0)
        | Some s \<Rightarrow>
            (case systime_add s (nanos div 1000000000, nanos mod 1000000000) of
               None \<Rightarrow> (0, 0) | Some r \<Rightarrow> r))"

definition pt_encode :: "proxy_time \<Rightarrow> u8 list" where
  "pt_encode t = be_bytes 8 (pt_seconds t) @ be_bytes 8 (u64_or (pt_fraction t) 0)
    @ be_bytes 8 (u64_or (pt_hertz t) 0)"

text \<open>After the length check the three eight-byte slices always convert.\<close>

definition pt_decode :: "u8 list \<Rightarrow> string + proxy_time" where
  "pt_decode buf =
    (if length buf \<noteq> 24 then Inl ''expected 24 bytes''
     else
       let seconds = from_be (take 8 buf);
           frac_u64 = from_be (take 8 (drop 8 buf));
           hz_u64 = from_be (take 8 (drop 16 buf))
       in
       if hz_u64 = 0 then Inl ''hertz must be > 0''
       else if hz_u64 \<le> frac_u64 then Inl ''fraction must be < hertz''
       else Inr \<lparr>pt_seconds = seconds, pt_fraction = frac_u64, pt_hertz = hz_u64\<rparr>)"

section \<open>Invariant and instants\<close>

text \<open>The documented invariant \<open>fraction < hertz\<close>, with the widths of the fields.\<close>

definition pt_ok :: "proxy_time \<Rightarrow> bool" where
  "pt_ok t \<longleftrightarrow> pt_fraction t < pt_hertz t \<and> pt_hertz t \<le> u64_max \<and> pt_seconds t \<le> u64_max"

definition instant :: "proxy_time \<Rightarrow> real" where
  "instant t = real (pt_seconds t) + real (pt_fraction t) / real (pt_hertz t)"

text \<open>The instant in proxy units since the epoch, at the clock's own rate.\<close>

definition units :: "proxy_time \<Rightarrow> nat" where
  "units t = pt_seconds t * pt_hertz t + pt_fraction t"

lemma u64_or_eq [simp]: "n \<le> u64_max \<Longrightarrow> u64_or n d = n"
  by (simp add: u64_or_def)

lemma u64_or_le: "d \<le> u64_max \<Longrightarrow> u64_or n d \<le> u64_max"
  by (simp add: u64_or_def)

lemma sat_add64_le [simp]: "sat_add64 a b \<le> u64_max"
  by (simp add: sat_add64_def)

lemma sat_add64_eq: "a + b \<le> u64_max \<Longrightarrow> sat_add64 a b = a + b"
  by (simp add: sat_add64_def)

lemma u64_max_less128: "a \<le> u64_max \<Longrightarrow> a < 2 ^ 64"
  by (simp add: u64_max_def)

lemma wrapping_add128_eq:
  "a \<le> u64_max \<Longrightarrow> b \<le> u64_max \<Longrightarrow> wrapping_add128 a b = a + b"
  by (simp add: wrapping_add128_def u64_max_def)

lemma wrapping_sub_eq:
  "b \<le> a \<Longrightarrow> a < 2 ^ 64 \<Longrightarrow> wrapping_sub64 a b = a - b"
  "b \<le> a \<Longrightarrow> a < 2 ^ 128 \<Longrightarrow> wrapping_sub128 a b = a - b"
proof -
  assume a: "b \<le> a" "a < 2 ^ 64"
  then have "a + 2 ^ 64 - b = (a - b) + 2 ^ 64" by simp
  then have "wrapping_sub64 a b = (a - b) mod 2 ^ 64"
    unfolding wrapping_sub64_def by (simp only: mod_add_self2)
  with a show "wrapping_sub64 a b = a - b" by simp
next
  assume a: "b \<le> a" "a < 2 ^ 128"
  then have "a + 2 ^ 128 - b = (a - b) + 2 ^ 128" by simp
  then have "wrapping_sub128 a b = (a - b) mod 2 ^ 128"
    unfolding wrapping_sub128_def by (simp only: mod_add_self2)
  with a show "wrapping_sub128 a b = a - b" by simp
qed

lemma pt_okD:
  assumes "pt_ok t"
  shows "0 < pt_hertz t" "pt_fraction t < pt_hertz t" "pt_fraction t \<le> u64_max"
    "pt_hertz t \<le> u64_max" "pt_seconds t \<le> u64_max"
  using assms by (auto simp: pt_ok_def)

lemma instant_units: "0 < pt_hertz t \<Longrightarrow> instant t = real (units t) / real (pt_hertz t)"
  by (simp add: instant_def units_def field_simps)

section \<open>The operations on instants\<close>

lemma sat_add64_u64_or: "sat_add64 a (u64_or n u64_max) = min (a + n) u64_max"
  by (auto simp: sat_add64_def u64_or_def)

lemma pt_tick_eq:
  assumes "pt_ok t" "d \<le> u64_max"
  shows "pt_tick d t = Some (t\<lparr>
    pt_seconds := min (pt_seconds t + (pt_fraction t + d) div pt_hertz t) u64_max,
    pt_fraction := (pt_fraction t + d) mod pt_hertz t\<rparr>)"
proof -
  note ok = pt_okD [OF assms(1)]
  have "(pt_fraction t + d) mod pt_hertz t < pt_hertz t" using ok(1) by (rule mod_less_divisor)
  with ok(4) have "(pt_fraction t + d) mod pt_hertz t \<le> u64_max" by linarith
  then show ?thesis
    using ok assms(2) by (simp add: pt_tick_def Let_def wrapping_add128_eq sat_add64_u64_or)
qed

lemma pt_tick_ok:
  assumes "pt_ok t" "d \<le> u64_max" "pt_tick d t = Some t'"
  shows "pt_ok t'" "pt_hertz t' = pt_hertz t"
    "pt_seconds t + (pt_fraction t + d) div pt_hertz t \<le> u64_max \<Longrightarrow> units t' = units t + d"
proof -
  note ok = pt_okD [OF assms(1)]
  note eq = assms(3) [unfolded pt_tick_eq [OF assms(1,2)]]
  show "pt_ok t'" "pt_hertz t' = pt_hertz t" using eq ok by (auto simp: pt_ok_def)
  assume le: "pt_seconds t + (pt_fraction t + d) div pt_hertz t \<le> u64_max"
  have "(pt_fraction t + d) div pt_hertz t * pt_hertz t + (pt_fraction t + d) mod pt_hertz t
    = pt_fraction t + d" by simp
  with eq le show "units t' = units t + d" by (auto simp: units_def algebra_simps)
qed

lemma pt_new_eq:
  assumes "0 < hz" "hz \<le> u64_max" "sec \<le> u64_max" "fr \<le> u64_max"
  shows "pt_new sec fr hz = Some \<lparr>pt_seconds = min (sec + fr div hz) u64_max,
    pt_fraction = fr mod hz, pt_hertz = hz\<rparr>"
proof -
  have "pt_ok \<lparr>pt_seconds = sec, pt_fraction = 0, pt_hertz = hz\<rparr>" using assms by (simp add: pt_ok_def)
  from pt_tick_eq [OF this assms(4)] show ?thesis using assms(1) by (simp add: pt_new_def)
qed

lemma units_less_iff:
  fixes hz :: nat
  assumes "f < hz" "g < hz"
  shows "s * hz + f < r * hz + g \<longleftrightarrow> (if r \<noteq> s then s < r else f < g)"
proof -
  have less: "a * hz + x < b * hz + y" if "a < b" "x < hz" for a b x y :: nat
  proof -
    have "a * hz + x < Suc a * hz" using that by simp
    also have "\<dots> \<le> b * hz" using that by (intro mult_le_mono1) simp
    finally show ?thesis by simp
  qed
  show ?thesis using less [of s r f g] less [of r s g f] assms
    by (cases r s rule: linorder_cases) auto
qed

lemma pt_fast_forward_to_unfold:
  assumes "pt_ok t"
  defines "to \<equiv> \<lambda>to0 tf0. min (to0 + tf0 div pt_hertz t) u64_max" and "tf \<equiv> \<lambda>tf0. tf0 mod pt_hertz t"
  shows "pt_fast_forward_to to0 tf0 t =
    (if \<not> pt_is_future t (to to0 tf0) (tf tf0)
     then Some (t, 0, \<lparr>fs_numerator = 0, fs_denominator = pt_hertz t\<rparr>)
     else if tf tf0 < pt_fraction t
     then Some (t\<lparr>pt_seconds := to to0 tf0, pt_fraction := tf tf0\<rparr>,
        wrapping_sub64 (wrapping_sub64 (to to0 tf0) (pt_seconds t)) 1,
        \<lparr>fs_numerator = u64_or (wrapping_sub128 (wrapping_add128 (pt_hertz t) (tf tf0)) (pt_fraction t)) 0,
         fs_denominator = pt_hertz t\<rparr>)
     else Some (t\<lparr>pt_seconds := to to0 tf0, pt_fraction := tf tf0\<rparr>,
        wrapping_sub64 (to to0 tf0) (pt_seconds t),
        \<lparr>fs_numerator = u64_or (wrapping_sub128 (tf tf0) (pt_fraction t)) 0,
         fs_denominator = pt_hertz t\<rparr>))"
proof -
  note ok = pt_okD [OF assms(1)]
  have "tf0 mod pt_hertz t < pt_hertz t" using ok(1) by (rule mod_less_divisor)
  with ok(4) have "tf0 mod pt_hertz t \<le> u64_max" by linarith
  then show ?thesis
    using ok(1) by (simp add: pt_fast_forward_to_def Let_def sat_add64_u64_or to_def tf_def)
qed

text \<open>
  Fast-forwarding: the clock ends at the later of the two instants, and the
  returned advance is exactly the difference.
\<close>

lemma pt_fast_forward_to_eq:
  assumes "pt_ok t" "to0 \<le> u64_max" "tf0 \<le> u64_max"
  defines "to \<equiv> min (to0 + tf0 div pt_hertz t) u64_max" and "tf \<equiv> tf0 mod pt_hertz t"
  obtains t' s n where "pt_fast_forward_to to0 tf0 t = Some (t', s, \<lparr>fs_numerator = n, fs_denominator = pt_hertz t\<rparr>)"
    "pt_ok t'" "pt_hertz t' = pt_hertz t" "n < pt_hertz t" "s \<le> u64_max"
    "units t' = units t + s * pt_hertz t + n" "units t' = max (units t) (to * pt_hertz t + tf)"
proof -
  note ok = pt_okD [OF assms(1)]
  have tf: "tf < pt_hertz t" unfolding tf_def using ok(1) by (rule mod_less_divisor)
  have b: "tf \<le> u64_max" "to \<le> u64_max" using tf ok(4) by (auto simp: to_def)
  have fut: "pt_is_future t to tf \<longleftrightarrow> units t < to * pt_hertz t + tf"
    unfolding units_def pt_is_future_def by (rule units_less_iff [symmetric, OF ok(2) tf])
  note unf = pt_fast_forward_to_unfold [OF assms(1), of to0 tf0, folded to_def tf_def]
  show ?thesis
  proof (cases "pt_is_future t to tf")
    case False
    then show ?thesis using that [of t 0 0] assms(1) ok(1) fut unf by simp
  next
    case True
    have w: "x \<le> u64_max \<Longrightarrow> x < 2 ^ 64" "x \<le> 2 * u64_max \<Longrightarrow> x < 2 ^ 128" for x :: nat
      by (simp_all add: u64_max_def)
    show ?thesis
    proof (cases "tf < pt_fraction t")
      case lt: True
      then have sec: "pt_seconds t < to" using True by (auto simp: pt_is_future_def split: if_splits)
      have 1: "wrapping_sub64 (wrapping_sub64 to (pt_seconds t)) 1 = to - pt_seconds t - 1"
        using sec b w by (simp add: wrapping_sub_eq)
      have 2: "wrapping_sub128 (wrapping_add128 (pt_hertz t) tf) (pt_fraction t) = pt_hertz t + tf - pt_fraction t"
        using b ok by (subst wrapping_add128_eq) (auto intro!: wrapping_sub_eq w)
      have 3: "pt_hertz t + tf - pt_fraction t < pt_hertz t" using lt ok by linarith
      have d: "(to - pt_seconds t - 1) * pt_hertz t + pt_hertz t = (to - pt_seconds t) * pt_hertz t"
        using sec by (cases "to - pt_seconds t") auto
      have "pt_seconds t * pt_hertz t + (to - pt_seconds t) * pt_hertz t = to * pt_hertz t"
        using sec by (metis add_mult_distrib le_add_diff_inverse less_imp_le)
      with d lt 3 ok have "units (t\<lparr>pt_seconds := to, pt_fraction := tf\<rparr>)
          = units t + (to - pt_seconds t - 1) * pt_hertz t + (pt_hertz t + tf - pt_fraction t)"
        by (simp add: units_def)
      then show ?thesis using that [of "t\<lparr>pt_seconds := to, pt_fraction := tf\<rparr>"
            "to - pt_seconds t - 1" "pt_hertz t + tf - pt_fraction t"]
          True lt 1 2 3 fut unf tf b ok by (simp add: pt_ok_def units_def)
    next
      case ge: False
      then have sec: "pt_seconds t \<le> to" using True by (auto simp: pt_is_future_def split: if_splits)
      have 1: "wrapping_sub64 to (pt_seconds t) = to - pt_seconds t"
        using sec b w by (simp add: wrapping_sub_eq)
      have 2: "wrapping_sub128 tf (pt_fraction t) = tf - pt_fraction t"
        using ge b ok w by (intro wrapping_sub_eq) auto
      have "pt_seconds t * pt_hertz t + (to - pt_seconds t) * pt_hertz t = to * pt_hertz t"
        using sec by (metis add_mult_distrib le_add_diff_inverse)
      with ge have "units (t\<lparr>pt_seconds := to, pt_fraction := tf\<rparr>)
          = units t + (to - pt_seconds t) * pt_hertz t + (tf - pt_fraction t)"
        by (simp add: units_def)
      then show ?thesis using that [of "t\<lparr>pt_seconds := to, pt_fraction := tf\<rparr>"
            "to - pt_seconds t" "tf - pt_fraction t"]
          True ge 1 2 fut unf tf b ok by (simp add: pt_ok_def units_def)
    qed
  qed
qed

text \<open>A change of rate keeps the instant, rounded up to the new unit.\<close>

lemma pt_set_rate_eq:
  assumes "pt_ok t" "0 < hz" "hz \<le> u64_max"
  obtains t' where "pt_set_rate hz t = Some t'" "pt_ok t'" "pt_hertz t' = hz"
    "pt_seconds t < u64_max \<Longrightarrow> units t' = div_ceil (units t * hz) (pt_hertz t)"
proof -
  note ok = pt_okD [OF assms(1)]
  let ?n = "div_ceil (pt_fraction t * hz) (pt_hertz t)"
  have le: "?n \<le> hz" using ok by (simp add: div_ceil_le_iff mult.commute)
  then have md: "mul_div_ceil (pt_fraction t) hz (pt_hertz t) = Some ?n"
    using ok assms(3) by (simp add: mul_div_ceil_eq)
  have u: "div_ceil (units t * hz) (pt_hertz t) = pt_seconds t * hz + ?n"
  proof -
    have "units t * hz = pt_fraction t * hz + pt_seconds t * hz * pt_hertz t"
      by (simp add: units_def algebra_simps)
    then have "(units t * hz + (pt_hertz t - 1)) = (pt_fraction t * hz + (pt_hertz t - 1)) + pt_seconds t * hz * pt_hertz t"
      by simp
    then have "(units t * hz + (pt_hertz t - 1)) div pt_hertz t
      = pt_seconds t * hz + (pt_fraction t * hz + (pt_hertz t - 1)) div pt_hertz t"
      using ok(1) by (simp only: div_mult_self1)
    then show ?thesis using ok(1) by (simp only: div_ceil_eq)
  qed
  show ?thesis
  proof (cases "?n = hz")
    case True
    have w: "wrapping_sub64 hz hz = 0" using assms(3) by (simp add: wrapping_sub_eq u64_max_def)
    have "units \<lparr>pt_seconds = pt_seconds t + 1, pt_fraction = 0, pt_hertz = hz\<rparr> = pt_seconds t * hz + ?n"
      using True by (simp add: units_def)
    then show ?thesis
      using that [of "\<lparr>pt_seconds = sat_add64 (pt_seconds t) 1, pt_fraction = 0, pt_hertz = hz\<rparr>"]
        assms md u w True by (simp add: pt_set_rate_def pt_ok_def sat_add64_eq)
  next
    case False
    then have "?n < hz" using le by simp
    moreover have "units \<lparr>pt_seconds = pt_seconds t, pt_fraction = ?n, pt_hertz = hz\<rparr> = pt_seconds t * hz + ?n"
      by (simp add: units_def)
    ultimately show ?thesis
      using that [of "\<lparr>pt_seconds = pt_seconds t, pt_fraction = ?n, pt_hertz = hz\<rparr>"]
        assms md u ok(5) by (simp add: pt_set_rate_def pt_ok_def sat_add64_eq)
  qed
qed

lemma div_ceil_bounds:
  assumes "0 < d"
  shows "real a / real d \<le> real (div_ceil a d)" "real (div_ceil a d) < real a / real d + 1"
proof -
  have "real a \<le> real (div_ceil a d * d)" using div_ceil_mult [OF assms] by (simp only: of_nat_le_iff)
  then show "real a / real d \<le> real (div_ceil a d)" using assms by (simp add: divide_le_eq)
  have "div_ceil a d * d \<le> a + (d - 1)" using assms by (simp add: div_ceil_eq)
  with assms have "div_ceil a d * d < a + d" by linarith
  then have "real (div_ceil a d) * real d < real a + real d"
    by (metis of_nat_add of_nat_less_iff of_nat_mult)
  then show "real (div_ceil a d) < real a / real d + 1" using assms by (simp add: field_simps)
qed

lemma pt_set_rate_instant:
  assumes "pt_ok t" "0 < hz" "hz \<le> u64_max" "pt_seconds t < u64_max" "pt_set_rate hz t = Some t'"
  shows "instant t \<le> instant t'" "instant t' < instant t + 1 / real hz"
proof -
  from pt_set_rate_eq [OF assms(1-3)] assms(4,5)
  have t': "pt_hertz t' = hz" "units t' = div_ceil (units t * hz) (pt_hertz t)" by auto
  note h = pt_okD(1) [OF assms(1)]
  have i: "instant t * real hz = real (units t * hz) / real (pt_hertz t)" using h by (simp add: instant_units)
  have i': "instant t' * real hz = real (units t')" using t' assms(2) by (simp add: instant_units)
  from div_ceil_bounds [OF h, of "units t * hz"] i i' t'(2)
  have "instant t * real hz \<le> instant t' * real hz" "instant t' * real hz < instant t * real hz + 1" by simp_all
  then show "instant t \<le> instant t'" "instant t' < instant t + 1 / real hz"
    using assms(2) by (simp_all add: field_simps)
qed

lemma pt_compare_instant:
  assumes "pt_ok t" "pt_ok u"
  shows "pt_compare t u =
    (if instant t < instant u then Less else if instant t = instant u then Equal else Greater)"
proof -
  note t = pt_okD [OF assms(1)] and u = pt_okD [OF assms(2)]
  have frac: "0 \<le> real (pt_fraction x) / real (pt_hertz x)" "real (pt_fraction x) / real (pt_hertz x) < 1"
    if "pt_ok x" for x using pt_okD [OF that] by (simp_all add: divide_less_eq)
  have sec: "instant x < instant y" if "pt_ok x" "pt_ok y" "pt_seconds x < pt_seconds y" for x y
  proof -
    have "real (pt_seconds x + 1) \<le> real (pt_seconds y)" unfolding of_nat_le_iff using that(3) by simp
    then have "real (pt_seconds x) + 1 \<le> real (pt_seconds y)" by simp
    then show ?thesis unfolding instant_def using frac(2) [OF that(1)] frac(1) [OF that(2)] by linarith
  qed
  show ?thesis
  proof (cases "pt_seconds t" "pt_seconds u" rule: linorder_cases)
    case equal
    have m: "wrapping_mul128 (pt_fraction t) (pt_hertz u) = pt_fraction t * pt_hertz u"
      "wrapping_mul128 (pt_fraction u) (pt_hertz t) = pt_fraction u * pt_hertz t"
      using t u by (simp_all add: u64_prod_exact)
    have "instant t < instant u \<longleftrightarrow> real (pt_fraction t * pt_hertz u) < real (pt_fraction u * pt_hertz t)"
      "instant t = instant u \<longleftrightarrow> real (pt_fraction t * pt_hertz u) = real (pt_fraction u * pt_hertz t)"
      using equal t(1) u(1) by (simp_all add: instant_def field_simps)
    then have "instant t < instant u \<longleftrightarrow> pt_fraction t * pt_hertz u < pt_fraction u * pt_hertz t"
      "instant t = instant u \<longleftrightarrow> pt_fraction t * pt_hertz u = pt_fraction u * pt_hertz t"
      by (simp_all only: of_nat_less_iff of_nat_eq_iff)
    with equal m show ?thesis by (simp add: pt_compare_def cmp_nat_def)
  qed (use sec [OF assms] sec [OF assms(2,1)] in \<open>auto simp: pt_compare_def cmp_nat_def\<close>)
qed

lemma compare_fractions_exact:
  assumes "n1 \<le> u64_max" "d1 \<le> u64_max" "n2 \<le> u64_max" "d2 \<le> u64_max" "0 < d1" "0 < d2"
  shows "compare_fractions n1 d1 n2 d2 = (if real n1 / real d1 < real n2 / real d2 then Less
    else if real n1 / real d1 = real n2 / real d2 then Equal else Greater)"
proof -
  have "real n1 / real d1 < real n2 / real d2 \<longleftrightarrow> real (n1 * d2) < real (n2 * d1)"
    "real n1 / real d1 = real n2 / real d2 \<longleftrightarrow> real (n1 * d2) = real (n2 * d1)"
    using assms(5,6) by (simp_all add: field_simps)
  then have "real n1 / real d1 < real n2 / real d2 \<longleftrightarrow> n1 * d2 < n2 * d1"
    "real n1 / real d1 = real n2 / real d2 \<longleftrightarrow> n1 * d2 = n2 * d1"
    by (simp_all only: of_nat_less_iff of_nat_eq_iff)
  with assms show ?thesis by (simp add: compare_fractions_def cmp_nat_def u64_prod_exact)
qed

section \<open>The byte encoding\<close>

lemma u64_less_256: "n \<le> u64_max \<longleftrightarrow> n < 256 ^ 8"
  by (simp add: u64_max_def less_Suc_eq_le [symmetric])

lemma pt_decode_encode:
  assumes "pt_ok t"
  shows "pt_decode (pt_encode t) = Inr t"
proof -
  note ok = pt_okD [OF assms]
  have "from_be (be_bytes 8 n) = n" if "n \<le> u64_max" for n
    using that by (intro from_be_bytes) (simp only: u64_less_256)
  with ok show ?thesis by (simp add: pt_decode_def pt_encode_def Let_def)
qed

lemma pt_encode_decode:
  assumes "pt_decode buf = Inr t"
  shows "pt_ok t" "pt_encode t = buf"
proof -
  from assms have len: "length buf = 24" by (auto simp: pt_decode_def split: if_splits)
  define a b c where abc: "a = take 8 buf" "b = take 8 (drop 8 buf)" "c = take 8 (drop 16 buf)"
  have l: "length a = 8" "length b = 8" "length c = 8" using len by (simp_all add: abc)
  have "drop 8 buf = b @ c" using append_take_drop_id [of 8 "drop 8 buf"] len by (simp add: abc)
  then have buf: "buf = a @ b @ c" using append_take_drop_id [of 8 buf] by (simp add: abc)
  have t: "t = \<lparr>pt_seconds = from_be a, pt_fraction = from_be b, pt_hertz = from_be c\<rparr>" "from_be b < from_be c"
    using assms len by (auto simp: pt_decode_def Let_def abc split: if_splits)
  have le: "from_be x \<le> u64_max" if "length x = 8" for x
    using from_be_less [of x] that by (simp only: u64_less_256)
  show "pt_ok t" using t le [OF l(1)] le [OF l(3)] by (simp add: pt_ok_def)
  show "pt_encode t = buf"
    using t(1) le [OF l(2)] le [OF l(3)] be_bytes_from [of a] be_bytes_from [of b] be_bytes_from [of c] l
    by (simp add: pt_encode_def buf)
qed

section \<open>Properties\<close>

text \<open>
  C35. Fast-forwarding the clock. \<^verbatim>\<open>fast_forward_to\<close> does not panic and keeps
  the invariant and the rate; the clock ends at the later of its own instant and
  the requested one, and the returned advance is exactly the difference in
  proxy units, with a fraction below one second.
\<close>

theorem proxy_clock_fast_forward:
  assumes "pt_ok t" "to \<le> u64_max" "tf \<le> u64_max"
  shows "\<exists>t' s n. pt_fast_forward_to to tf t = Some (t', s, \<lparr>fs_numerator = n, fs_denominator = pt_hertz t\<rparr>)
    \<and> pt_ok t' \<and> pt_hertz t' = pt_hertz t \<and> n < pt_hertz t
    \<and> units t' = units t + s * pt_hertz t + n
    \<and> units t' = max (units t) (min (to + tf div pt_hertz t) u64_max * pt_hertz t + tf mod pt_hertz t)"
  using pt_fast_forward_to_eq [OF assms] by blast

theorem proxy_clock_fast_forward_witness:
  "\<exists>t'. pt_fast_forward_to 12 1 \<lparr>pt_seconds = 10, pt_fraction = 3, pt_hertz = 4\<rparr>
    = Some (t', 1, \<lparr>fs_numerator = 2, fs_denominator = 4\<rparr>) \<and> units t' = 49"
proof -
  let ?t = "\<lparr>pt_seconds = 10, pt_fraction = 3, pt_hertz = 4\<rparr>"
  obtain t' s n where f: "pt_fast_forward_to 12 1 ?t = Some (t', s, \<lparr>fs_numerator = n, fs_denominator = 4\<rparr>)"
    "n < 4" "units t' = units ?t + s * 4 + n" "units t' = max (units ?t) 49"
    using proxy_clock_fast_forward [of ?t 12 1] by (auto simp: pt_ok_def u64_max_def)
  from f(2-4) have "s * 4 + n = 6" "n < 4" by (simp_all add: units_def)
  then have "s = 1" "n = 2" by presburger+
  with f show ?thesis by (auto simp: units_def)
qed

text \<open>
  C36. Changing the rate of the clock. \<^verbatim>\<open>set_rate\<close> does not panic on a
  consistent clock and a non-zero rate; before the seconds saturate the new
  instant is not earlier than the old one and less than one new proxy unit later,
  so the old clock never compares as later than the new one.
\<close>

theorem proxy_clock_set_rate:
  assumes "pt_ok t" "0 < hz" "hz \<le> u64_max" "pt_seconds t < u64_max"
  shows "\<exists>t'. pt_set_rate hz t = Some t' \<and> pt_ok t' \<and> pt_hertz t' = hz
    \<and> instant t \<le> instant t' \<and> instant t' < instant t + 1 / real hz
    \<and> pt_compare t t' \<noteq> Greater"
proof -
  obtain t' where t': "pt_set_rate hz t = Some t'" "pt_ok t'" "pt_hertz t' = hz"
    by (rule pt_set_rate_eq [OF assms(1-3)])
  note i = pt_set_rate_instant [OF assms t'(1)]
  from i(1) have "pt_compare t t' \<noteq> Greater" by (simp add: pt_compare_instant [OF assms(1) t'(2)])
  with i t' show ?thesis by blast
qed

theorem proxy_clock_set_rate_witness:
  "\<exists>t'. pt_set_rate 3 \<lparr>pt_seconds = 10, pt_fraction = 5, pt_hertz = 7\<rparr> = Some t' \<and> pt_ok t'
    \<and> pt_compare \<lparr>pt_seconds = 10, pt_fraction = 5, pt_hertz = 7\<rparr> t' \<noteq> Greater"
  using proxy_clock_set_rate [of "\<lparr>pt_seconds = 10, pt_fraction = 5, pt_hertz = 7\<rparr>" 3]
  by (auto simp: pt_ok_def u64_max_def)

text \<open>
  C37. The persisted form of the clock. \<^verbatim>\<open>decode\<close> accepts exactly the byte strings that
  \<^verbatim>\<open>encode\<close> produces from clocks satisfying the invariant, and returns that clock.
\<close>

theorem proxy_clock_encoding:
  "pt_decode buf = Inr t \<longleftrightarrow> pt_ok t \<and> buf = pt_encode t"
  using pt_decode_encode [of t] pt_encode_decode [of buf t] by blast

end
