(* ===== verification/Ava_Gastime.thy ===== *)
theory Ava_Gastime
  imports Ava_Proxytime
begin

text \<open>
  The gas clock of \<^verbatim>\<open>ava-saevm/gastime\<close>: a proxy clock whose rate is pinned to twice
  the gas target, with the ACP-176 excess that drives the price. A panic of the
  underlying clock is the value \<open>None\<close>. Numbers are \<^verbatim>\<open>u64\<close> unless said otherwise;
  \<^verbatim>\<open>U256\<close> values saturate at \<open>2 ^ 256 - 1\<close>.
\<close>

section \<open>Model\<close>

record gas_price_config =
  gc_min_price :: nat
  gc_target_to_excess_scaling :: nat
  gc_static_pricing :: bool

definition gc_new :: "nat \<Rightarrow> nat \<Rightarrow> bool \<Rightarrow> gas_price_config" where
  "gc_new mp sc st = \<lparr>gc_min_price = mp, gc_target_to_excess_scaling = sc, gc_static_pricing = st\<rparr>"

definition gc_default :: gas_price_config where
  "gc_default = \<lparr>gc_min_price = 1, gc_target_to_excess_scaling = 87, gc_static_pricing = False\<rparr>"

definition target_to_rate :: nat where
  "target_to_rate = 2"

definition min_target :: nat where
  "min_target = 1"

definition max_target :: nat where
  "max_target = u64_max div target_to_rate"

definition nanos_per_second :: nat where
  "nanos_per_second = 1000000000"

definition clamp_target :: "nat \<Rightarrow> nat" where
  "clamp_target target =
    (if target < min_target then min_target else if max_target < target then max_target else target)"

definition rate_of :: "nat \<Rightarrow> nat" where
  "rate_of target = bounded_multiply target target_to_rate u64_max"

definition excess_scaling_factor_of :: "nat \<Rightarrow> nat \<Rightarrow> nat" where
  "excess_scaling_factor_of scaling target = bounded_multiply scaling target u64_max"

definition calculate_price_xk :: "nat \<Rightarrow> nat \<Rightarrow> nat" where
  "calculate_price_xk x k = calculate_price 1 x k"

text \<open>
  The bisection of \<^verbatim>\<open>excess_for_price\<close>. Between \<open>lo < hi\<close> none of the wrapping
  operations of the source wraps.
\<close>

function excess_search :: "nat \<Rightarrow> nat \<Rightarrow> nat \<Rightarrow> nat \<Rightarrow> nat" where
  "excess_search p k lo hi =
    (if lo < hi then
       let half = (hi - lo) div 2; mid = lo + half in
       if p \<le> calculate_price_xk mid k then excess_search p k lo mid
       else excess_search p k (mid + 1) hi
     else lo)"
  by pat_completeness auto
termination by (relation "measure (\<lambda>(p, k, lo, hi). hi - lo)") auto

declare excess_search.simps [simp del]

definition excess_for_price :: "nat \<Rightarrow> nat \<Rightarrow> nat" where
  "excess_for_price p k =
    (if p \<le> 1 then 0
     else let lo = excess_search p k 1 u64_max in
       if p < calculate_price_xk lo k then lo - 1 else lo)"

definition sat256 :: "nat \<Rightarrow> nat" where
  "sat256 n = min n (2 ^ 256 - 1)"

definition scale_excess :: "nat \<Rightarrow> nat \<Rightarrow> nat \<Rightarrow> nat \<Rightarrow> nat \<Rightarrow> nat" where
  "scale_excess old_x new_target new_scaling old_target old_scaling =
    (let new_k = sat256 (new_target * new_scaling);
         old_k = sat256 (old_target * old_scaling)
     in
     if old_k = 0 then old_x
     else
       let x = sat256 (old_x * new_k);
           x' = sat256 (x + (old_k - 1));
           scaled = x' div old_k
       in u64_or scaled u64_max)"

record gas_time =
  gt_inner :: proxy_time
  gt_target :: nat
  gt_excess :: nat
  gt_config :: gas_price_config

definition gt_rate :: "gas_time \<Rightarrow> nat" where
  "gt_rate tm = pt_rate (gt_inner tm)"

definition gt_excess_scaling_factor :: "gas_time \<Rightarrow> nat" where
  "gt_excess_scaling_factor tm =
    excess_scaling_factor_of (gc_target_to_excess_scaling (gt_config tm)) (gt_target tm)"

definition gt_price :: "gas_time \<Rightarrow> nat" where
  "gt_price tm =
    (let k = excess_scaling_factor_of (gc_target_to_excess_scaling (gt_config tm)) (gt_target tm);
         p = calculate_price_xk (gt_excess tm) k
     in max p (gc_min_price (gt_config tm)))"

definition enforce_min_excess :: "gas_time \<Rightarrow> gas_time" where
  "enforce_min_excess tm =
    (let k = excess_scaling_factor_of (gc_target_to_excess_scaling (gt_config tm)) (gt_target tm) in
     if gc_min_price (gt_config tm) \<le> calculate_price_xk (gt_excess tm) k then tm
     else let min_excess = excess_for_price (gc_min_price (gt_config tm)) k in
       tm\<lparr>gt_excess := max (gt_excess tm) min_excess\<rparr>)"

definition gt_from_excess :: "nat \<Rightarrow> nat \<Rightarrow> nat \<Rightarrow> gas_price_config \<Rightarrow> gas_time option" where
  "gt_from_excess unix_seconds target0 starting_excess config =
    (let target = clamp_target target0; rate = rate_of target in
     case pt_new unix_seconds 0 rate of
       None \<Rightarrow> None
     | Some inner \<Rightarrow>
         let excess = (if gc_static_pricing config then 0 else starting_excess) in
         Some (enforce_min_excess
           \<lparr>gt_inner = inner, gt_target = target, gt_excess = excess, gt_config = config\<rparr>))"

definition gt_new :: "nat \<Rightarrow> nat \<Rightarrow> nat \<Rightarrow> gas_price_config \<Rightarrow> gas_time option" where
  "gt_new unix_seconds target0 starting_price config =
    (let target = clamp_target target0;
         k = excess_scaling_factor_of (gc_target_to_excess_scaling config) target;
         excess = excess_for_price starting_price k
     in gt_from_excess unix_seconds target excess config)"

definition gt_from_settled :: "nat \<Rightarrow> nat \<Rightarrow> nat \<Rightarrow> nat \<Rightarrow> gas_price_config \<Rightarrow> gas_time option" where
  "gt_from_settled gas_unix gas_numerator target0 excess0 config =
    (let rate = rate_of (clamp_target target0) in
     case pt_new gas_unix gas_numerator rate of
       None \<Rightarrow> None
     | Some inner \<Rightarrow>
         let target = rate div target_to_rate;
             excess = (if gc_static_pricing config then 0 else excess0)
         in Some (enforce_min_excess
           \<lparr>gt_inner = inner, gt_target = target, gt_excess = excess, gt_config = config\<rparr>))"

text \<open>\<open>nanos\<close> is a \<^verbatim>\<open>u32\<close>; the source expects it below \<open>10 ^ 9\<close> and handles every value.\<close>

definition gt_before_block :: "nat \<Rightarrow> nat \<Rightarrow> gas_time \<Rightarrow> gas_time option" where
  "gt_before_block unix_seconds nanos tm =
    (let rate = gt_rate tm;
         gas_frac = (case mul_div_ceil nanos rate nanos_per_second of None \<Rightarrow> rate | Some g \<Rightarrow> g)
     in case pt_fast_forward_to unix_seconds gas_frac (gt_inner tm) of
          None \<Rightarrow> None
        | Some (inner, sec, fr) \<Rightarrow>
            let tm1 = tm\<lparr>gt_inner := inner\<rparr> in
            if sec = 0 \<and> fs_numerator fr = 0 then Some tm1
            else
              let r = gt_rate tm1;
                  t = gt_target tm1;
                  s_t = bounded_multiply sec t u64_max;
                  tm2 = tm1\<lparr>gt_excess := bounded_sub (gt_excess tm1) s_t 0\<rparr>;
                  frac_decay = (case mul_div_floor (fs_numerator fr) t r of None \<Rightarrow> 0 | Some d \<Rightarrow> d);
                  tm3 = tm2\<lparr>gt_excess := bounded_sub (gt_excess tm2) frac_decay 0\<rparr>
              in Some (enforce_min_excess tm3))"

definition gt_tick :: "nat \<Rightarrow> gas_time \<Rightarrow> gas_time option" where
  "gt_tick used tm =
    (case pt_tick used (gt_inner tm) of
       None \<Rightarrow> None
     | Some inner \<Rightarrow>
         let tm1 = tm\<lparr>gt_inner := inner\<rparr> in
         if gc_static_pricing (gt_config tm1) then Some tm1
         else
           let r = gt_rate tm1;
               t = gt_target tm1;
               r_minus_t = r - t;
               quo = (case mul_div_floor used r_minus_t r of None \<Rightarrow> 0 | Some q \<Rightarrow> q)
           in Some (tm1\<lparr>gt_excess := bounded_add (gt_excess tm1) quo u64_max\<rparr>))"

definition gt_after_block :: "nat \<Rightarrow> nat \<Rightarrow> gas_price_config \<Rightarrow> gas_time \<Rightarrow> gas_time option" where
  "gt_after_block used new_target0 config tm =
    (let new_target = clamp_target new_target0 in
     case gt_tick used tm of
       None \<Rightarrow> None
     | Some tm1 \<Rightarrow>
         let tm2 = (if gc_static_pricing config then tm1\<lparr>gt_excess := 0\<rparr>
                    else tm1\<lparr>gt_excess := scale_excess (gt_excess tm1) new_target
                           (gc_target_to_excess_scaling config) (gt_target tm1)
                           (gc_target_to_excess_scaling (gt_config tm1))\<rparr>);
             tm3 = tm2\<lparr>gt_target := new_target\<rparr>
         in case pt_set_rate (rate_of new_target) (gt_inner tm3) of
              None \<Rightarrow> None
            | Some inner \<Rightarrow>
                Some (enforce_min_excess (tm3\<lparr>gt_inner := inner, gt_config := config\<rparr>)))"

definition gt_compare :: "gas_time \<Rightarrow> gas_time \<Rightarrow> ordering" where
  "gt_compare tm tm2 = pt_compare (gt_inner tm) (gt_inner tm2)"

section \<open>The inverse of the price\<close>

lemma price_xk_mono: "x \<le> y \<Longrightarrow> calculate_price_xk x k \<le> calculate_price_xk y k"
  by (simp add: calculate_price_xk_def calculate_price_mono)

lemma price_xk_zero: "calculate_price_xk 0 k = 1"
  by (simp add: calculate_price_xk_def calculate_price_zero u64_max_def)

lemma price_xk_ge: "1 \<le> calculate_price_xk x k"
  using price_xk_mono [of 0 x k] by (simp add: price_xk_zero)

lemma excess_search_correct:
  assumes "lo \<le> hi" "\<And>y. y < lo \<Longrightarrow> calculate_price_xk y k < p"
    and "hi = M \<or> p \<le> calculate_price_xk hi k"
  defines "r \<equiv> excess_search p k lo hi"
  shows "lo \<le> r \<and> r \<le> hi \<and> (\<forall>y < r. calculate_price_xk y k < p) \<and> (r = M \<or> p \<le> calculate_price_xk r k)"
  using assms(1,2,3) unfolding r_def
proof (induction p k lo hi rule: excess_search.induct)
  case (1 p k lo hi)
  define mid where "mid = lo + (hi - lo) div 2"
  show ?case
  proof (cases "lo < hi")
    case lt: True
    have mid: "lo \<le> mid" "mid < hi" using lt by (auto simp: mid_def)
    show ?thesis
    proof (cases "p \<le> calculate_price_xk mid k")
      case True
      have "excess_search p k lo hi = excess_search p k lo mid"
        using lt True by (subst excess_search.simps) (simp add: mid_def Let_def)
      moreover note 1(1) [OF lt refl mid_def True mid(1) 1(4)]
      ultimately show ?thesis using True mid by auto
    next
      case False
      have "excess_search p k lo hi = excess_search p k (mid + 1) hi"
        using lt False by (subst excess_search.simps) (simp add: mid_def Let_def)
      moreover have "calculate_price_xk y k < p" if "y < mid + 1" for y
        using price_xk_mono [of y mid k] False that by simp
      then have "mid + 1 \<le> excess_search p k (mid + 1) hi \<and> excess_search p k (mid + 1) hi \<le> hi
        \<and> (\<forall>y < excess_search p k (mid + 1) hi. calculate_price_xk y k < p)
        \<and> (excess_search p k (mid + 1) hi = M \<or> p \<le> calculate_price_xk (excess_search p k (mid + 1) hi) k)"
        using 1(2) [OF lt refl mid_def False _ _ 1(5)] mid by simp
      ultimately show ?thesis using mid by auto
    qed
  next
    case False
    then have "excess_search p k lo hi = lo" by (subst excess_search.simps) simp
    moreover have "lo = hi" using False 1(3) by simp
    ultimately show ?thesis using 1(4,5) by simp
  qed
qed

lemma excess_for_price_cases:
  assumes "1 < p"
  obtains (hit) "calculate_price_xk (excess_for_price p k) k = p"
      "\<forall>y < excess_for_price p k. calculate_price_xk y k < p" "excess_for_price p k \<le> u64_max"
  | (miss) "calculate_price_xk (excess_for_price p k) k < p" "excess_for_price p k \<le> u64_max"
      "\<forall>y. excess_for_price p k < y \<and> y \<le> u64_max \<longrightarrow> p < calculate_price_xk y k"
proof -
  define r where "r = excess_search p k 1 u64_max"
  have r: "1 \<le> r" "r \<le> u64_max" "\<forall>y < r. calculate_price_xk y k < p"
      "r = u64_max \<or> p \<le> calculate_price_xk r k"
    using excess_search_correct [of 1 u64_max k p u64_max] assms
    by (auto simp: r_def price_xk_zero u64_max_def)
  have e: "excess_for_price p k = (if p < calculate_price_xk r k then r - 1 else r)"
    using assms by (simp add: excess_for_price_def r_def Let_def)
  consider "p < calculate_price_xk r k" | "calculate_price_xk r k = p" | "calculate_price_xk r k < p" by linarith
  then show ?thesis
  proof cases
    case 1
    have "p < calculate_price_xk y k" if "r - 1 < y" for y
      using price_xk_mono [of r y k] 1 that r(1) by linarith
    then show ?thesis using miss 1 e r by simp
  next
    case 2
    then show ?thesis using hit e r by simp
  next
    case 3
    have "excess_for_price p k = r" unfolding e using 3 by simp
    moreover have "r = u64_max" using r(4) 3 by simp
    ultimately show ?thesis using 3 by (intro miss) simp_all
  qed
qed

section \<open>Invariants of the gas clock\<close>

definition gc_ok :: "gas_price_config \<Rightarrow> bool" where
  "gc_ok c \<longleftrightarrow> gc_min_price c \<le> u64_max \<and> gc_target_to_excess_scaling c \<le> u64_max"

text \<open>The field widths, the clamped target and the pinned rate \<open>R = 2 T\<close>.\<close>

definition gt_ok :: "gas_time \<Rightarrow> bool" where
  "gt_ok tm \<longleftrightarrow> pt_ok (gt_inner tm) \<and> pt_hertz (gt_inner tm) = 2 * gt_target tm
    \<and> min_target \<le> gt_target tm \<and> gt_target tm \<le> max_target
    \<and> gt_excess tm \<le> u64_max \<and> gc_ok (gt_config tm)"

definition gt_min_excess :: "gas_time \<Rightarrow> nat" where
  "gt_min_excess tm = excess_for_price (gc_min_price (gt_config tm)) (gt_excess_scaling_factor tm)"

text \<open>The excess never lies below the one of the minimum price, and is that one under static pricing.\<close>

definition gt_fee_ok :: "gas_time \<Rightarrow> bool" where
  "gt_fee_ok tm \<longleftrightarrow> gt_min_excess tm \<le> gt_excess tm
    \<and> (gc_static_pricing (gt_config tm) \<longrightarrow> gt_excess tm = gt_min_excess tm)"

lemma excess_for_price_le: "excess_for_price p k \<le> u64_max"
proof (cases "1 < p")
  case True
  then show ?thesis by (cases rule: excess_for_price_cases [of p k])
qed (simp add: excess_for_price_def)

lemma excess_for_price_price: "1 \<le> p \<Longrightarrow> calculate_price_xk (excess_for_price p k) k \<le> p"
proof (cases "1 < p")
  case True
  then show ?thesis by (cases rule: excess_for_price_cases [of p k]) auto
next
  case False
  assume "1 \<le> p"
  then show ?thesis using False by (simp add: excess_for_price_def price_xk_zero)
qed

lemma excess_for_price_least: "p \<le> calculate_price_xk x k \<Longrightarrow> excess_for_price p k \<le> x"
proof (cases "1 < p")
  case True
  assume x: "p \<le> calculate_price_xk x k"
  from True show ?thesis
  proof (cases rule: excess_for_price_cases [of p k])
    case hit
    then show ?thesis using x by (metis leD not_le_imp_less)
  next
    case miss
    then show ?thesis using x price_xk_mono [of x "excess_for_price p k" k] by linarith
  qed
qed (simp add: excess_for_price_def)

text \<open>
  The early return of \<^verbatim>\<open>enforce_min_excess\<close> only avoids the bisection: the result
  is always the maximum with the minimum excess.
\<close>

lemma enforce_min_excess_eq:
  "enforce_min_excess tm = tm\<lparr>gt_excess := max (gt_excess tm) (gt_min_excess tm)\<rparr>"
proof (cases "gc_min_price (gt_config tm) \<le> calculate_price_xk (gt_excess tm) (gt_excess_scaling_factor tm)")
  case True
  have "gt_min_excess tm \<le> gt_excess tm"
    unfolding gt_min_excess_def using True by (rule excess_for_price_least)
  then have "max (gt_excess tm) (gt_min_excess tm) = gt_excess tm" by simp
  then show ?thesis using True by (simp add: enforce_min_excess_def gt_excess_scaling_factor_def Let_def)
next
  case False
  then show ?thesis
    by (simp add: enforce_min_excess_def gt_excess_scaling_factor_def gt_min_excess_def Let_def)
qed

lemma gt_min_excess_update [simp]:
  "gt_min_excess (tm\<lparr>gt_excess := x\<rparr>) = gt_min_excess tm"
  "gt_min_excess (tm\<lparr>gt_inner := i\<rparr>) = gt_min_excess tm"
  by (simp_all add: gt_min_excess_def gt_excess_scaling_factor_def)

lemma enforce_min_excess_ok:
  assumes "gt_ok tm" "gc_static_pricing (gt_config tm) \<Longrightarrow> gt_excess tm \<le> gt_min_excess tm"
  shows "gt_ok (enforce_min_excess tm)" "gt_fee_ok (enforce_min_excess tm)"
  using assms excess_for_price_le
  by (auto simp: enforce_min_excess_eq gt_ok_def gt_fee_ok_def gt_min_excess_def gt_excess_scaling_factor_def)

lemma clamp_target_range: "min_target \<le> clamp_target t" "clamp_target t \<le> max_target"
  by (auto simp: clamp_target_def min_target_def max_target_def target_to_rate_def u64_max_def)

lemma clamp_target_id [simp]: "clamp_target (clamp_target t) = clamp_target t"
  using clamp_target_range [of t] by (simp add: clamp_target_def)

lemma rate_of_eq: "t \<le> max_target \<Longrightarrow> rate_of t = 2 * t" "t \<le> max_target \<Longrightarrow> 2 * t \<le> u64_max"
  by (auto simp: rate_of_def max_target_def target_to_rate_def bounded_multiply_def)

lemmas clamped_rate = rate_of_eq [OF clamp_target_range(2)]

lemma gt_okD:
  assumes "gt_ok tm"
  shows "pt_ok (gt_inner tm)" "pt_hertz (gt_inner tm) = 2 * gt_target tm" "0 < gt_target tm"
    "gt_target tm \<le> max_target" "2 * gt_target tm \<le> u64_max" "gt_target tm \<le> u64_max" "gt_excess tm \<le> u64_max"
  using assms rate_of_eq(2) [of "gt_target tm"] by (auto simp: gt_ok_def min_target_def)

subsection \<open>The operations\<close>

lemma gt_tick_eq:
  assumes "gt_ok tm" "used \<le> u64_max"
  obtains inner where "pt_tick used (gt_inner tm) = Some inner"
    "gt_tick used tm = Some (tm\<lparr>gt_inner := inner, gt_excess := (if gc_static_pricing (gt_config tm)
      then gt_excess tm else min (gt_excess tm + used div 2) u64_max)\<rparr>)"
proof -
  note ok = gt_okD [OF assms(1)]
  obtain inner where i: "pt_tick used (gt_inner tm) = Some inner"
    using pt_tick_eq [OF ok(1) assms(2)] by simp
  have hz: "pt_hertz inner = 2 * gt_target tm" using pt_tick_ok(2) [OF ok(1) assms(2) i] ok(2) by simp
  have "used * gt_target tm div (2 * gt_target tm) = used div 2" using ok(3) by simp
  moreover have "used div 2 \<le> u64_max" using assms(2) by simp
  ultimately have "mul_div_floor used (gt_target tm) (2 * gt_target tm) = Some (used div 2)"
    using ok(3,6) assms(2) by (simp add: mul_div_floor_eq)
  then show ?thesis using that [OF i] i hz
    by (simp add: gt_tick_def gt_rate_def pt_rate_def Let_def bounded_add_eq)
qed

lemma gt_before_block_eq:
  assumes "gt_ok tm" "gt_fee_ok tm" "unix \<le> u64_max" "nanos \<le> u32_max"
  obtains inner where
    "gt_before_block unix nanos tm = Some (tm\<lparr>gt_inner := inner,
      gt_excess := max (gt_excess tm - (units inner - units (gt_inner tm)) div 2) (gt_min_excess tm)\<rparr>)"
    "pt_ok inner" "pt_hertz inner = pt_hertz (gt_inner tm)" "units (gt_inner tm) \<le> units inner"
proof -
  note ok = gt_okD [OF assms(1)]
  let ?g = "case mul_div_ceil nanos (gt_rate tm) nanos_per_second of None \<Rightarrow> gt_rate tm | Some g \<Rightarrow> g"
  have n: "nanos \<le> u64_max" using assms(4) by (simp add: u32_max_def u64_max_def)
  have r: "gt_rate tm \<le> u64_max" using ok by (simp add: gt_rate_def pt_rate_def)
  have g: "?g \<le> u64_max" using mul_div_ceil_eq [OF n r, of nanos_per_second] r by simp
  obtain inner s f where ff:
    "pt_fast_forward_to unix ?g (gt_inner tm) = Some (inner, s, \<lparr>fs_numerator = f, fs_denominator = pt_hertz (gt_inner tm)\<rparr>)"
    "pt_ok inner" "pt_hertz inner = pt_hertz (gt_inner tm)" "f < pt_hertz (gt_inner tm)" "s \<le> u64_max"
    "units inner = units (gt_inner tm) + s * pt_hertz (gt_inner tm) + f"
    using pt_fast_forward_to_eq [OF ok(1) assms(3) g] by blast
  have half: "(units inner - units (gt_inner tm)) div 2 = s * gt_target tm + f div 2"
    using ff(6) ok(2) by simp
  have "f * gt_target tm div (2 * gt_target tm) = f div 2" using ok(3) by simp
  moreover have "f \<le> u64_max" using ff(4) ok by simp
  ultimately have fd: "mul_div_floor f (gt_target tm) (2 * gt_target tm) = Some (f div 2)"
    using ok(3,6) by (simp add: mul_div_floor_eq)
  have "gt_before_block unix nanos tm = Some (tm\<lparr>gt_inner := inner,
      gt_excess := max (gt_excess tm - (s * gt_target tm + f div 2)) (gt_min_excess tm)\<rparr>)"
  proof (cases "s = 0 \<and> f = 0")
    case True
    then have "max (gt_excess tm - (s * gt_target tm + f div 2)) (gt_min_excess tm) = gt_excess tm"
      using assms(2) by (simp add: gt_fee_ok_def)
    then show ?thesis using True ff(1) by (simp add: gt_before_block_def Let_def)
  next
    case False
    have "gt_excess tm - min (s * gt_target tm) u64_max - f div 2 = gt_excess tm - (s * gt_target tm + f div 2)"
      using ok(7) by simp
    then show ?thesis unfolding gt_before_block_def Let_def ff(1) using False ff(3) fd ok(2)
      by (auto simp: gt_rate_def pt_rate_def enforce_min_excess_eq bounded_multiply_eq bounded_sub_eq)
  qed
  then show ?thesis using that [of inner] ff half by simp
qed

lemma sat256_small: "n < 2 ^ 256 \<Longrightarrow> sat256 n = n"
  by (simp add: sat256_def)

lemma scale_excess_eq:
  assumes "x \<le> u64_max" "t' \<le> u64_max" "c' \<le> u64_max" "t \<le> u64_max" "c \<le> u64_max"
  shows "scale_excess x t' c' t c =
    (if t * c = 0 then x else min (div_ceil (x * (t' * c')) (t * c)) u64_max)"
proof -
  have k: "t' * c' \<le> u64_max * u64_max" "t * c \<le> u64_max * u64_max" using assms by (simp_all add: mult_le_mono)
  have x: "x * (t' * c') \<le> u64_max * (u64_max * u64_max)" using assms(1) k(1) by (rule mult_le_mono)
  have b: "u64_max * u64_max < 2 ^ 255" "u64_max * (u64_max * u64_max) < 2 ^ 255" "(2::nat) ^ 256 = 2 ^ 255 + 2 ^ 255"
    by (simp_all add: u64_max_def)
  have s: "sat256 (t' * c') = t' * c'" "sat256 (t * c) = t * c"
      "sat256 (x * (t' * c')) = x * (t' * c')"
      "sat256 (x * (t' * c') + (t * c - 1)) = x * (t' * c') + (t * c - 1)"
    by (rule sat256_small, use k x b in linarith)+
  show ?thesis
  proof (cases "t * c = 0")
    case True
    then show ?thesis unfolding scale_excess_def Let_def s by simp
  next
    case False
    then have "div_ceil (x * (t' * c')) (t * c) = (x * (t' * c') + (t * c - 1)) div (t * c)"
      by (intro div_ceil_eq) simp
    with False show ?thesis by (simp only: scale_excess_def Let_def s if_False u64_or_def) simp
  qed
qed

lemma gt_tick_ok:
  assumes "gt_ok tm" "gt_fee_ok tm" "used \<le> u64_max"
  obtains tm' where "gt_tick used tm = Some tm'" "gt_ok tm'" "gt_fee_ok tm'"
    "gt_target tm' = gt_target tm" "gt_config tm' = gt_config tm"
    "pt_tick used (gt_inner tm) = Some (gt_inner tm')"
    "gt_excess tm' = (if gc_static_pricing (gt_config tm) then gt_excess tm
       else min (gt_excess tm + used div 2) u64_max)"
proof -
  note ok = gt_okD [OF assms(1)]
  obtain inner where i: "pt_tick used (gt_inner tm) = Some inner"
    "gt_tick used tm = Some (tm\<lparr>gt_inner := inner, gt_excess := (if gc_static_pricing (gt_config tm)
      then gt_excess tm else min (gt_excess tm + used div 2) u64_max)\<rparr>)"
    by (rule gt_tick_eq [OF assms(1,3)])
  note t = pt_tick_ok(1,2) [OF ok(1) assms(3) i(1)]
  have "gt_min_excess tm \<le> u64_max" by (simp add: gt_min_excess_def excess_for_price_le)
  then show ?thesis using that [OF i(2)] t i(1) assms(1,2) by (auto simp: gt_ok_def gt_fee_ok_def)
qed

lemma gt_before_block_ok:
  assumes "gt_ok tm" "gt_fee_ok tm" "unix \<le> u64_max" "nanos \<le> u32_max"
  obtains tm' where "gt_before_block unix nanos tm = Some tm'" "gt_ok tm'" "gt_fee_ok tm'"
    "gt_target tm' = gt_target tm" "gt_config tm' = gt_config tm"
    "pt_hertz (gt_inner tm') = pt_hertz (gt_inner tm)" "units (gt_inner tm) \<le> units (gt_inner tm')"
    "gt_excess tm' = max (gt_excess tm - (units (gt_inner tm') - units (gt_inner tm)) div 2) (gt_min_excess tm)"
proof -
  obtain inner where i: "gt_before_block unix nanos tm = Some (tm\<lparr>gt_inner := inner,
      gt_excess := max (gt_excess tm - (units inner - units (gt_inner tm)) div 2) (gt_min_excess tm)\<rparr>)"
    "pt_ok inner" "pt_hertz inner = pt_hertz (gt_inner tm)" "units (gt_inner tm) \<le> units inner"
    by (rule gt_before_block_eq [OF assms])
  have "gt_min_excess tm \<le> u64_max" by (simp add: gt_min_excess_def excess_for_price_le)
  then show ?thesis using that [OF i(1)] i(2-4) assms(1,2) by (auto simp: gt_ok_def gt_fee_ok_def)
qed

lemma gt_after_block_ok:
  assumes "gt_ok tm" "gt_fee_ok tm" "used \<le> u64_max" "gc_ok cfg"
  obtains tm1 tm' where "gt_after_block used new_target cfg tm = Some tm'" "gt_ok tm'" "gt_fee_ok tm'"
    "gt_tick used tm = Some tm1" "pt_set_rate (2 * clamp_target new_target) (gt_inner tm1) = Some (gt_inner tm')"
    "gt_target tm' = clamp_target new_target" "gt_config tm' = cfg"
    "gt_excess tm' = max (gt_min_excess tm') (if gc_static_pricing cfg then 0
      else scale_excess (gt_excess tm1) (clamp_target new_target) (gc_target_to_excess_scaling cfg)
        (gt_target tm) (gc_target_to_excess_scaling (gt_config tm)))"
proof -
  obtain tm1 where t: "gt_tick used tm = Some tm1" "gt_ok tm1" "gt_fee_ok tm1"
    "gt_target tm1 = gt_target tm" "gt_config tm1 = gt_config tm"
    by (rule gt_tick_ok [OF assms(1-3)])
  note ok1 = gt_okD [OF t(2)]
  let ?T = "clamp_target new_target"
  have T: "0 < 2 * ?T" using clamp_target_range(1) [of new_target] by (simp add: min_target_def)
  obtain inner where i: "pt_set_rate (2 * ?T) (gt_inner tm1) = Some inner" "pt_ok inner" "pt_hertz inner = 2 * ?T"
    by (rule pt_set_rate_eq [OF ok1(1) T clamped_rate(2)])
  let ?x = "if gc_static_pricing cfg then 0
      else scale_excess (gt_excess tm1) ?T (gc_target_to_excess_scaling cfg)
        (gt_target tm) (gc_target_to_excess_scaling (gt_config tm))"
  let ?tm3 = "tm1\<lparr>gt_excess := ?x, gt_target := ?T, gt_inner := inner, gt_config := cfg\<rparr>"
  have "?x \<le> u64_max"
  proof -
    have "?T \<le> u64_max" using clamped_rate(2) [of new_target] by linarith
    moreover have "gt_target tm \<le> u64_max" using gt_okD(6) [OF assms(1)] .
    ultimately show ?thesis using assms(1,4) ok1(7)
      by (auto simp: scale_excess_eq gt_ok_def gc_ok_def)
  qed
  then have ok3: "gt_ok ?tm3" using i(2,3) assms(4) clamp_target_range [of new_target]
    by (simp add: gt_ok_def)
  have eq: "gt_after_block used new_target cfg tm = Some (enforce_min_excess ?tm3)"
    using t i(1) by (simp add: gt_after_block_def Let_def clamped_rate)
  have fee: "gt_excess ?tm3 \<le> gt_min_excess ?tm3" if "gc_static_pricing (gt_config ?tm3)"
    using that by simp
  have fields: "gt_inner (enforce_min_excess ?tm3) = inner" "gt_target (enforce_min_excess ?tm3) = ?T"
      "gt_config (enforce_min_excess ?tm3) = cfg"
      "gt_excess (enforce_min_excess ?tm3) = max (gt_min_excess (enforce_min_excess ?tm3)) ?x"
    by (simp_all add: enforce_min_excess_eq max.commute gt_min_excess_def gt_excess_scaling_factor_def)
  show ?thesis
    by (rule that [OF eq enforce_min_excess_ok [OF ok3 fee] t(1) _ fields(2-4)]) (simp_all add: fields(1) i(1))
qed

lemma gt_from_excess_ok:
  assumes "unix \<le> u64_max" "x \<le> u64_max" "gc_ok cfg"
  obtains tm where "gt_from_excess unix target x cfg = Some tm" "gt_ok tm" "gt_fee_ok tm"
proof -
  let ?T = "clamp_target target"
  have T: "0 < 2 * ?T" using clamp_target_range(1) [of target] by (simp add: min_target_def)
  let ?tm = "\<lparr>gt_inner = \<lparr>pt_seconds = unix, pt_fraction = 0, pt_hertz = 2 * ?T\<rparr>, gt_target = ?T,
    gt_excess = (if gc_static_pricing cfg then 0 else x), gt_config = cfg\<rparr>"
  have "gt_from_excess unix target x cfg = Some (enforce_min_excess ?tm)"
    using pt_new_eq [OF T clamped_rate(2) assms(1), of 0] assms(1)
    by (simp add: gt_from_excess_def Let_def clamped_rate)
  moreover have "gt_ok ?tm"
    using assms T clamped_rate(2) [of target] clamp_target_range [of target] by (simp add: gt_ok_def pt_ok_def)
  ultimately show ?thesis using enforce_min_excess_ok [of ?tm] that by simp
qed

lemma gt_from_settled_ok:
  assumes "unix \<le> u64_max" "n \<le> u64_max" "x \<le> u64_max" "gc_ok cfg"
  obtains tm where "gt_from_settled unix n target x cfg = Some tm" "gt_ok tm" "gt_fee_ok tm"
proof -
  let ?T = "clamp_target target"
  have T: "0 < 2 * ?T" using clamp_target_range(1) [of target] by (simp add: min_target_def)
  let ?tm = "\<lparr>gt_inner = \<lparr>pt_seconds = min (unix + n div (2 * ?T)) u64_max, pt_fraction = n mod (2 * ?T),
      pt_hertz = 2 * ?T\<rparr>, gt_target = ?T,
    gt_excess = (if gc_static_pricing cfg then 0 else x), gt_config = cfg\<rparr>"
  have "gt_from_settled unix n target x cfg = Some (enforce_min_excess ?tm)"
    using pt_new_eq [OF T clamped_rate(2) assms(1,2)]
    by (simp add: gt_from_settled_def Let_def clamped_rate target_to_rate_def)
  moreover have "gt_ok ?tm"
    using assms T clamped_rate(2) [of target] clamp_target_range [of target] by (simp add: gt_ok_def pt_ok_def)
  ultimately show ?thesis using enforce_min_excess_ok [of ?tm] that by simp
qed

lemma gt_new_ok:
  assumes "unix \<le> u64_max" "gc_ok cfg"
  obtains tm where "gt_new unix target p cfg = Some tm" "gt_ok tm" "gt_fee_ok tm"
  using gt_from_excess_ok [OF assms(1) excess_for_price_le assms(2), of "clamp_target target" p
      "excess_scaling_factor_of (gc_target_to_excess_scaling cfg) (clamp_target target)"]
  by (auto simp: gt_new_def Let_def)

section \<open>Runs of the gas clock\<close>

datatype clock_op = BeforeBlock nat nat | TickBy nat | AfterBlock nat nat gas_price_config

fun clock_op_ok :: "clock_op \<Rightarrow> bool" where
  "clock_op_ok (BeforeBlock unix nanos) \<longleftrightarrow> unix \<le> u64_max \<and> nanos \<le> u32_max"
| "clock_op_ok (TickBy used) \<longleftrightarrow> used \<le> u64_max"
| "clock_op_ok (AfterBlock used new_target cfg) \<longleftrightarrow> used \<le> u64_max \<and> gc_ok cfg"

fun clock_step :: "clock_op \<Rightarrow> gas_time \<Rightarrow> gas_time option" where
  "clock_step (BeforeBlock unix nanos) tm = gt_before_block unix nanos tm"
| "clock_step (TickBy used) tm = gt_tick used tm"
| "clock_step (AfterBlock used new_target cfg) tm = gt_after_block used new_target cfg tm"

fun clock_run :: "clock_op list \<Rightarrow> gas_time \<Rightarrow> gas_time option" where
  "clock_run [] tm = Some tm"
| "clock_run (a # as) tm = (case clock_step a tm of None \<Rightarrow> None | Some tm' \<Rightarrow> clock_run as tm')"

text \<open>Time does not run backwards, as long as the seconds counter has not saturated.\<close>

definition later :: "proxy_time \<Rightarrow> proxy_time \<Rightarrow> bool" where
  "later t t' \<longleftrightarrow> pt_seconds t \<le> pt_seconds t' \<and> (pt_seconds t' < u64_max \<longrightarrow> instant t \<le> instant t')"

lemma later_trans: "later a b \<Longrightarrow> later b c \<Longrightarrow> later a c"
  unfolding later_def by force

lemma instant_mono:
  assumes "pt_hertz t = pt_hertz t'" "units t \<le> units t'" "0 < pt_hertz t"
  shows "instant t \<le> instant t'"
  using assms by (simp add: instant_units divide_right_mono)

lemma pt_tick_later:
  assumes "pt_ok t" "d \<le> u64_max" "pt_tick d t = Some t'"
  shows "later t t'"
proof -
  note eq = assms(3) [unfolded pt_tick_eq [OF assms(1,2)]] and ok = pt_okD [OF assms(1)]
  have "instant t \<le> instant t'" if "pt_seconds t' < u64_max"
  proof -
    from that eq have "pt_seconds t + (pt_fraction t + d) div pt_hertz t \<le> u64_max" by auto
    from pt_tick_ok(2,3) [OF assms] this ok(1) show ?thesis by (intro instant_mono) simp_all
  qed
  then show ?thesis using eq ok(5) by (auto simp: later_def)
qed

lemma pt_set_rate_later:
  assumes "pt_ok t" "0 < hz" "hz \<le> u64_max" "pt_set_rate hz t = Some t'"
  shows "later t t'"
proof -
  have "pt_seconds t \<le> pt_seconds t'"
    using assms(4) pt_okD(5) [OF assms(1)]
    by (auto simp: pt_set_rate_def Let_def sat_add64_def split: option.splits if_splits)
  with pt_set_rate_instant(1) [OF assms(1-3) _ assms(4)] show ?thesis by (auto simp: later_def)
qed

lemma units_later:
  assumes "pt_ok t" "pt_ok t'" "pt_hertz t' = pt_hertz t" "units t \<le> units t'"
  shows "later t t'"
proof -
  have "units x div pt_hertz x = pt_seconds x" if "pt_ok x" for x
    using pt_okD [OF that] by (simp add: units_def)
  with assms have "pt_seconds t \<le> pt_seconds t'" by (metis div_le_mono)
  with instant_mono [of t t'] assms pt_okD(1) [OF assms(1)] show ?thesis by (simp add: later_def)
qed

lemma clock_step_ok:
  assumes "clock_op_ok a" "gt_ok tm" "gt_fee_ok tm"
  obtains tm' where "clock_step a tm = Some tm'" "gt_ok tm'" "gt_fee_ok tm'"
    "later (gt_inner tm) (gt_inner tm')"
proof (cases a)
  case (BeforeBlock unix nanos)
  with assms obtain tm' where t: "gt_before_block unix nanos tm = Some tm'" "gt_ok tm'" "gt_fee_ok tm'"
    "pt_hertz (gt_inner tm') = pt_hertz (gt_inner tm)" "units (gt_inner tm) \<le> units (gt_inner tm')"
    by (auto elim: gt_before_block_ok)
  with units_later gt_okD(1) [OF assms(2)] gt_okD(1) [OF t(2)] that BeforeBlock show ?thesis by simp
next
  case (TickBy used)
  with assms obtain tm' where t: "gt_tick used tm = Some tm'" "gt_ok tm'" "gt_fee_ok tm'"
    "pt_tick used (gt_inner tm) = Some (gt_inner tm')" by (auto elim: gt_tick_ok)
  with pt_tick_later [OF gt_okD(1) [OF assms(2)]] assms(1) that TickBy show ?thesis by simp
next
  case (AfterBlock used new_target cfg)
  with assms have u: "used \<le> u64_max" "gc_ok cfg" by simp_all
  let ?T = "clamp_target new_target"
  obtain tm1 tm' where t: "gt_after_block used new_target cfg tm = Some tm'" "gt_ok tm'" "gt_fee_ok tm'"
    "gt_tick used tm = Some tm1" "pt_set_rate (2 * ?T) (gt_inner tm1) = Some (gt_inner tm')"
    by (rule gt_after_block_ok [OF assms(2,3) u])
  from t(4) have t1: "gt_ok tm1" "pt_tick used (gt_inner tm) = Some (gt_inner tm1)"
    using gt_tick_ok [OF assms(2,3) u(1)] by (metis option.inject)+
  have T: "0 < 2 * ?T" using clamp_target_range(1) [of new_target] by (simp add: min_target_def)
  from pt_set_rate_later [OF gt_okD(1) [OF t1(1)] T clamped_rate(2) t(5)]
    pt_tick_later [OF gt_okD(1) [OF assms(2)] u(1) t1(2)]
  have "later (gt_inner tm) (gt_inner tm')" by (rule later_trans [rotated])
  with t(1-3) that AfterBlock show ?thesis by simp
qed

lemma later_refl: "later t t"
  by (simp add: later_def)

lemma clock_run_ok:
  assumes "list_all clock_op_ok as" "gt_ok tm" "gt_fee_ok tm"
  obtains tm' where "clock_run as tm = Some tm'" "gt_ok tm'" "gt_fee_ok tm'" "later (gt_inner tm) (gt_inner tm')"
  using assms
proof (induction as arbitrary: tm thesis)
  case Nil
  then show ?case using later_refl by simp
next
  case (Cons a as)
  obtain tm1 where 1: "clock_step a tm = Some tm1" "gt_ok tm1" "gt_fee_ok tm1" "later (gt_inner tm) (gt_inner tm1)"
    using clock_step_ok [of a tm] Cons.prems by auto
  obtain tm2 where 2: "clock_run as tm1 = Some tm2" "gt_ok tm2" "gt_fee_ok tm2" "later (gt_inner tm1) (gt_inner tm2)"
    using Cons.IH [of tm1] 1 Cons.prems by auto
  show ?case by (rule Cons.prems(1) [of tm2]) (use 1 2 later_trans in auto)
qed

lemma static_price:
  assumes "gt_fee_ok tm" "gc_static_pricing (gt_config tm)"
  shows "gt_price tm = max 1 (gc_min_price (gt_config tm))"
proof -
  let ?p = "gc_min_price (gt_config tm)" and ?k = "gt_excess_scaling_factor tm"
  have x: "gt_excess tm = excess_for_price ?p ?k" using assms by (simp add: gt_fee_ok_def gt_min_excess_def)
  have "gt_price tm = max (calculate_price_xk (gt_excess tm) ?k) ?p"
    by (simp add: gt_price_def gt_excess_scaling_factor_def Let_def)
  also have "\<dots> = max 1 ?p"
  proof (cases "1 \<le> ?p")
    case True
    from excess_for_price_price [OF True, of ?k] True show ?thesis unfolding x by simp
  next
    case False
    then have "excess_for_price ?p ?k = 0" by (simp add: excess_for_price_def)
    then show ?thesis unfolding x using False by (simp add: price_xk_zero)
  qed
  finally show ?thesis .
qed

section \<open>Properties\<close>

text \<open>
  C32. \<^verbatim>\<open>excess_for_price\<close> inverts the price. If some 64-bit excess has exactly the
  price \<open>p\<close>, the result is the least such excess; otherwise it is the largest
  excess whose price is below \<open>p\<close>.
\<close>

theorem excess_for_price_correct:
  assumes "1 < p"
  shows "excess_for_price p k \<le> u64_max \<and>
    (if \<exists>y \<le> u64_max. calculate_price_xk y k = p
     then calculate_price_xk (excess_for_price p k) k = p
       \<and> (\<forall>y < excess_for_price p k. calculate_price_xk y k < p)
     else calculate_price_xk (excess_for_price p k) k < p
       \<and> (\<forall>y. excess_for_price p k < y \<and> y \<le> u64_max \<longrightarrow> p < calculate_price_xk y k))"
  using assms
proof (cases rule: excess_for_price_cases [of p k])
  case hit
  then show ?thesis by auto
next
  case miss
  have "calculate_price_xk y k \<noteq> p" if "y \<le> u64_max" for y
  proof (cases "y \<le> excess_for_price p k")
    case True
    then show ?thesis using miss(1) price_xk_mono [of y "excess_for_price p k" k] by simp
  next
    case False
    then have "p < calculate_price_xk y k" using miss(3) that by simp
    then show ?thesis by simp
  qed
  then show ?thesis using miss by auto
qed

theorem excess_for_price_correct_witness: "excess_for_price 2 1 = 1"
proof -
  have p1: "calculate_price_xk 1 1 = 2"
    by (simp add: calculate_price_xk_def calculate_price_def price_loop_step price_loop_end u64_max_def
        del: One_nat_def)
  have ex: "\<exists>y \<le> u64_max. calculate_price_xk y 1 = 2" using p1 by (intro exI [of _ 1]) (simp add: u64_max_def)
  from excess_for_price_correct [of 2 1] ex
  have x: "calculate_price_xk (excess_for_price 2 1) 1 = 2"
    "\<forall>y < excess_for_price 2 1. calculate_price_xk y 1 < 2" by simp_all
  have "excess_for_price 2 1 \<le> 1" using x(2) p1 by (metis less_irrefl not_le)
  moreover have "excess_for_price 2 1 \<noteq> 0" using x(1) by (metis price_xk_zero one_eq_numeral_iff num.distinct(1))
  ultimately show ?thesis by simp
qed

text \<open>
  C33. The gas clock never panics and keeps its invariants. From every
  constructor and for every sequence of \<^verbatim>\<open>before_block\<close>, \<^verbatim>\<open>tick\<close> and \<^verbatim>\<open>after_block\<close>
  calls on values of their types, all calls return; the rate stays twice the
  clamped target and the fraction below the rate; time does not run backwards
  unless the seconds saturate; the price is at least the configured minimum, and
  under static pricing it is the configured minimum (or 1 if that is 0).
\<close>

theorem gas_clock_safe:
  assumes "unix \<le> u64_max" "n \<le> u64_max" "x \<le> u64_max" "gc_ok cfg" "list_all clock_op_ok ops"
  shows "\<forall>st \<in> {gt_new unix target p cfg, gt_from_excess unix target x cfg,
      gt_from_settled unix n target x cfg}. \<exists>tm tm'. st = Some tm \<and> clock_run ops tm = Some tm'
    \<and> gt_ok tm' \<and> later (gt_inner tm) (gt_inner tm')
    \<and> gc_min_price (gt_config tm') \<le> gt_price tm'
    \<and> (gc_static_pricing (gt_config tm') \<longrightarrow> gt_price tm' = max 1 (gc_min_price (gt_config tm')))"
proof
  fix st assume "st \<in> {gt_new unix target p cfg, gt_from_excess unix target x cfg,
      gt_from_settled unix n target x cfg}"
  then obtain tm where tm: "st = Some tm" "gt_ok tm" "gt_fee_ok tm"
    using gt_new_ok [OF assms(1,4)] gt_from_excess_ok [OF assms(1,3,4)] gt_from_settled_ok [OF assms(1-4)]
    by (metis empty_iff insert_iff)
  from clock_run_ok [OF assms(5) tm(2,3)] obtain tm' where
    tm': "clock_run ops tm = Some tm'" "gt_ok tm'" "gt_fee_ok tm'" "later (gt_inner tm) (gt_inner tm')" .
  have "gc_min_price (gt_config tm') \<le> gt_price tm'" by (simp add: gt_price_def Let_def)
  with tm(1) tm' static_price [OF tm'(3)]
  show "\<exists>tm tm'. st = Some tm \<and> clock_run ops tm = Some tm'
    \<and> gt_ok tm' \<and> later (gt_inner tm) (gt_inner tm') \<and> gc_min_price (gt_config tm') \<le> gt_price tm'
    \<and> (gc_static_pricing (gt_config tm') \<longrightarrow> gt_price tm' = max 1 (gc_min_price (gt_config tm')))" by blast
qed

theorem gas_clock_safe_witness:
  "\<exists>tm tm'. gt_from_settled 5 3 10 0 (gc_new 7 87 True) = Some tm
    \<and> clock_run [BeforeBlock 6 500000000, TickBy 30, AfterBlock 4 20 (gc_new 2 87 False)] tm = Some tm'
    \<and> gt_ok tm' \<and> gc_min_price (gt_config tm') \<le> gt_price tm'"
  using gas_clock_safe [of 5 3 0 "gc_new 7 87 True"
      "[BeforeBlock 6 500000000, TickBy 30, AfterBlock 4 20 (gc_new 2 87 False)]" 10 1]
  by (simp add: gc_ok_def gc_new_def u64_max_def u32_max_def) blast

text \<open>
  C34. Fees over one block. When a block is processed on a consistent gas clock
  with a non-zero scaling, \<^verbatim>\<open>before_block\<close> lowers the excess by half the gas time
  skipped, and \<^verbatim>\<open>after_block\<close> raises it by half the gas used (dynamic pricing),
  rescales it to the new \<open>K\<close> rounding up, both never below the minimum excess
  and never above the 64-bit maximum.
\<close>

theorem gas_clock_block:
  assumes "gt_ok tm" "gt_fee_ok tm" "unix \<le> u64_max" "nanos \<le> u32_max" "used \<le> u64_max" "gc_ok cfg"
    and "0 < gc_target_to_excess_scaling (gt_config tm)"
  shows "\<exists>tm1 tm2. gt_before_block unix nanos tm = Some tm1
    \<and> gt_after_block used new_target cfg tm1 = Some tm2
    \<and> gt_excess tm1 = max (gt_min_excess tm)
        (gt_excess tm - (units (gt_inner tm1) - units (gt_inner tm)) div 2)
    \<and> gt_excess tm2 = max (gt_min_excess tm2) (if gc_static_pricing cfg then 0 else
        min u64_max (div_ceil
          ((if gc_static_pricing (gt_config tm) then gt_excess tm1 else min (gt_excess tm1 + used div 2) u64_max)
            * (clamp_target new_target * gc_target_to_excess_scaling cfg))
          (gt_target tm * gc_target_to_excess_scaling (gt_config tm))))"
proof -
  obtain tm1 where 1: "gt_before_block unix nanos tm = Some tm1" "gt_ok tm1" "gt_fee_ok tm1"
    "gt_target tm1 = gt_target tm" "gt_config tm1 = gt_config tm"
    "gt_excess tm1 = max (gt_excess tm - (units (gt_inner tm1) - units (gt_inner tm)) div 2) (gt_min_excess tm)"
    by (rule gt_before_block_ok [OF assms(1-4)])
  obtain tmt tm2 where 2: "gt_after_block used new_target cfg tm1 = Some tm2" "gt_tick used tm1 = Some tmt"
    "gt_excess tm2 = max (gt_min_excess tm2) (if gc_static_pricing cfg then 0
      else scale_excess (gt_excess tmt) (clamp_target new_target) (gc_target_to_excess_scaling cfg)
        (gt_target tm1) (gc_target_to_excess_scaling (gt_config tm1)))"
    by (rule gt_after_block_ok [OF 1(2,3) assms(5,6)])
  obtain tmt' where 3: "gt_tick used tm1 = Some tmt'" "gt_ok tmt'"
    "gt_excess tmt' = (if gc_static_pricing (gt_config tm1) then gt_excess tm1
       else min (gt_excess tm1 + used div 2) u64_max)"
    by (rule gt_tick_ok [OF 1(2,3) assms(5)])
  have "tmt = tmt'" using 2(2) 3(1) by simp
  moreover have "clamp_target new_target \<le> u64_max" using clamped_rate(2) [of new_target] by linarith
  ultimately have sc: "scale_excess (gt_excess tmt) (clamp_target new_target) (gc_target_to_excess_scaling cfg)
      (gt_target tm1) (gc_target_to_excess_scaling (gt_config tm1))
    = min u64_max (div_ceil
        ((if gc_static_pricing (gt_config tm) then gt_excess tm1 else min (gt_excess tm1 + used div 2) u64_max)
          * (clamp_target new_target * gc_target_to_excess_scaling cfg))
        (gt_target tm * gc_target_to_excess_scaling (gt_config tm)))"
    using gt_okD [OF 3(2)] gt_okD [OF assms(1)] assms(1,6,7) 1(4,5) 3(3)
    by (simp add: scale_excess_eq gt_ok_def gc_ok_def min.commute)
  have x1: "gt_excess tm1 = max (gt_min_excess tm)
      (gt_excess tm - (units (gt_inner tm1) - units (gt_inner tm)) div 2)"
    by (subst max.commute) (rule 1(6))
  show ?thesis
    by (rule exI [of _ tm1], rule exI [of _ tm2]) (intro conjI 1(1) 2(1) x1 2(3) [unfolded sc])
qed

theorem gas_clock_block_witness:
  "\<exists>tm1 tm2. gt_before_block 2 0 \<lparr>gt_inner = \<lparr>pt_seconds = 1, pt_fraction = 0, pt_hertz = 20\<rparr>, gt_target = 10,
      gt_excess = 50, gt_config = gc_default\<rparr> = Some tm1
    \<and> gt_after_block 100 10 gc_default tm1 = Some tm2"
proof -
  let ?tm = "\<lparr>gt_inner = \<lparr>pt_seconds = 1, pt_fraction = 0, pt_hertz = 20\<rparr>, gt_target = 10,
      gt_excess = 50, gt_config = gc_default\<rparr>"
  have "gt_ok ?tm" "gt_fee_ok ?tm"
    by (simp_all add: gt_ok_def gt_fee_ok_def gt_min_excess_def gc_default_def excess_for_price_def pt_ok_def
        gc_ok_def min_target_def max_target_def target_to_rate_def u64_max_def)
  from gas_clock_block [OF this, of 2 0 100 gc_default 10] show ?thesis
    by (auto simp: gc_default_def gc_ok_def u64_max_def u32_max_def)
qed

end
