(* ===== verification/Ava_Reward.thy ===== *)
theory Ava_Reward
  imports Ava_Prelude
begin

text \<open>
  The staking-reward calculator of \<^verbatim>\<open>ava-platformvm/src/reward\<close>: the configuration, the
  reward of a staker and the split of a reward between delegator and validator.
  \<^verbatim>\<open>BigUint\<close> is \<open>nat\<close>; a division by zero panics and is the value \<open>None\<close>.
\<close>

section \<open>Model\<close>

definition percent_denominator :: nat where
  "percent_denominator = 1000000"

definition mega_avax :: nat where
  "mega_avax = 1000000000000000"

record reward_config =
  rc_max_consumption_rate :: nat
  rc_min_consumption_rate :: nat
  rc_minting_period :: nat
  rc_supply_cap :: nat

definition reward_mainnet :: reward_config where
  "reward_mainnet = \<lparr>rc_max_consumption_rate = 120000, rc_min_consumption_rate = 100000,
    rc_minting_period = 31536000000000000, rc_supply_cap = 720 * mega_avax\<rparr>"

text \<open>\<^verbatim>\<open>to_u64_digits\<close>: the base-\<open>2 ^ 64\<close> digits, least significant first, none for zero.\<close>

fun to_u64_digits :: "nat \<Rightarrow> nat list" where
  "to_u64_digits n = (if n = 0 then [] else n mod 2 ^ 64 # to_u64_digits (n div 2 ^ 64))"

declare to_u64_digits.simps [simp del]

definition biguint_to_u64 :: "nat \<Rightarrow> nat option" where
  "biguint_to_u64 n =
    (case to_u64_digits n of
       [] \<Rightarrow> Some 0
     | [low] \<Rightarrow> Some low
     | _ \<Rightarrow> None)"

record calculator =
  cl_max_sub_min_consumption_rate :: nat
  cl_min_consumption_rate :: nat
  cl_minting_period :: nat
  cl_supply_cap :: nat

definition calculator_new :: "reward_config \<Rightarrow> calculator" where
  "calculator_new c =
    (let max_sub_min = rc_max_consumption_rate c - rc_min_consumption_rate c in
     \<lparr>cl_max_sub_min_consumption_rate = max_sub_min,
      cl_min_consumption_rate = rc_min_consumption_rate c,
      cl_minting_period = rc_minting_period c,
      cl_supply_cap = rc_supply_cap c\<rparr>)"

definition calculate :: "calculator \<Rightarrow> nat \<Rightarrow> nat \<Rightarrow> nat \<Rightarrow> nat option" where
  "calculate c staked_duration_ns staked_amount current_supply =
    (let adj_num = cl_max_sub_min_consumption_rate c * staked_duration_ns
                   + cl_min_consumption_rate c * cl_minting_period c;
         adj_den = cl_minting_period c * percent_denominator;
         remaining_supply = cl_supply_cap c - current_supply;
         reward0 = remaining_supply * adj_num * staked_amount * staked_duration_ns
     in
     if adj_den = 0 \<or> current_supply = 0 \<or> cl_minting_period c = 0 then None
     else
       let reward = reward0 div adj_den div current_supply div cl_minting_period c in
       case biguint_to_u64 reward of
         None \<Rightarrow> Some remaining_supply
       | Some final_reward \<Rightarrow> Some (min remaining_supply final_reward))"

definition reward_split :: "nat \<Rightarrow> nat \<Rightarrow> nat \<times> nat" where
  "reward_split total_amount shares =
    (let remainder_shares = percent_denominator - shares;
         fallback = min (remainder_shares * (total_amount div percent_denominator)) u64_max;
         remainder_amount =
           (if remainder_shares * total_amount \<le> u64_max
            then remainder_shares * total_amount div percent_denominator
            else fallback);
         amount_from_shares = total_amount - remainder_amount
     in (amount_from_shares, remainder_amount))"

section \<open>Lemmas\<close>

lemma biguint_to_u64_eq: "biguint_to_u64 n = (if n \<le> u64_max then Some n else None)"
proof -
  have d: "to_u64_digits n = (if n = 0 then [] else n mod 2 ^ 64 # to_u64_digits (n div 2 ^ 64))"
    by (rule to_u64_digits.simps)
  have nil: "to_u64_digits m = [] \<longleftrightarrow> m = 0" for m by (subst to_u64_digits.simps) simp
  have small: "n \<le> u64_max \<longleftrightarrow> n div 2 ^ 64 = 0" by (auto simp: u64_max_def div_eq_0_iff)
  show ?thesis
  proof (cases "n = 0 \<or> n div 2 ^ 64 = 0")
    case True
    then have "n < 2 ^ 64" by (auto simp: div_eq_0_iff)
    then show ?thesis using True small d by (auto simp: biguint_to_u64_def nil to_u64_digits.simps [of 0])
  next
    case False
    then obtain x xs where "to_u64_digits (n div 2 ^ 64) = x # xs" using nil by (metis list.exhaust)
    then show ?thesis using False small d by (simp add: biguint_to_u64_def)
  qed
qed

text \<open>The three truncating divisions are one division by the product.\<close>

definition reward_formula :: "calculator \<Rightarrow> nat \<Rightarrow> nat \<Rightarrow> nat \<Rightarrow> nat" where
  "reward_formula c dur stake supply =
    (cl_supply_cap c - supply)
      * (cl_max_sub_min_consumption_rate c * dur + cl_min_consumption_rate c * cl_minting_period c)
      * stake * dur
    div (cl_minting_period c * percent_denominator * supply * cl_minting_period c)"

lemma calculate_eq:
  assumes "0 < cl_minting_period c" "0 < supply" "cl_supply_cap c \<le> u64_max"
  shows "calculate c dur stake supply = Some (min (cl_supply_cap c - supply) (reward_formula c dur stake supply))"
proof -
  have f: "(cl_supply_cap c - supply)
      * (cl_max_sub_min_consumption_rate c * dur + cl_min_consumption_rate c * cl_minting_period c)
      * stake * dur div (cl_minting_period c * percent_denominator) div supply div cl_minting_period c
    = reward_formula c dur stake supply"
    by (simp only: reward_formula_def div_mult2_eq)
  have D: "percent_denominator \<noteq> 0" by (simp add: percent_denominator_def)
  show ?thesis
    using assms D by (auto simp: calculate_def Let_def f biguint_to_u64_eq min_def)
qed

text \<open>
  A stake within the supply and the minting period, at rates of at most 100 percent,
  earns at most the remaining supply before any clamping.
\<close>

lemma reward_formula_le:
  assumes "0 < cl_minting_period c" "0 < supply" "stake \<le> supply" "dur \<le> cl_minting_period c"
    and "cl_max_sub_min_consumption_rate c + cl_min_consumption_rate c \<le> percent_denominator"
  shows "reward_formula c dur stake supply \<le> cl_supply_cap c - supply"
proof -
  let ?R = "cl_supply_cap c - supply" and ?P = "cl_minting_period c"
  let ?a = "cl_max_sub_min_consumption_rate c * dur + cl_min_consumption_rate c * ?P"
  have "?a \<le> cl_max_sub_min_consumption_rate c * ?P + cl_min_consumption_rate c * ?P"
    using assms(4) by simp
  also have "\<dots> \<le> percent_denominator * ?P"
    using assms(5) by (metis add_mult_distrib mult_le_mono1)
  finally have "?R * ?a * stake * dur \<le> ?R * (percent_denominator * ?P) * supply * ?P"
    using assms(3,4) by (intro mult_le_mono) simp_all
  also have "\<dots> = ?R * (?P * percent_denominator * supply * ?P)" by (simp add: ac_simps)
  finally have "reward_formula c dur stake supply
      \<le> ?R * (?P * percent_denominator * supply * ?P) div (?P * percent_denominator * supply * ?P)"
    unfolding reward_formula_def by (rule div_le_mono)
  also have "\<dots> = ?R" using assms(1,2) by (simp add: percent_denominator_def)
  finally show ?thesis .
qed

lemma reward_formula_mono:
  assumes "dur \<le> dur'" "stake \<le> stake'"
  shows "reward_formula c dur stake supply \<le> reward_formula c dur' stake' supply"
  unfolding reward_formula_def using assms by (intro div_le_mono mult_le_mono add_mono) simp_all

lemma reward_split_sum:
  assumes "shares \<le> percent_denominator" "amt \<le> u64_max" "reward_split amt shares = (a, r)"
  shows "a + r = amt" "r * percent_denominator \<le> (percent_denominator - shares) * amt"
    "(percent_denominator - shares) * amt < r * percent_denominator
      + (if (percent_denominator - shares) * amt \<le> u64_max then percent_denominator
         else percent_denominator * percent_denominator)"
proof -
  let ?D = percent_denominator and ?s = "percent_denominator - shares"
  have D: "0 < ?D" by (simp add: percent_denominator_def)
  have q: "amt div ?D * ?D \<le> amt" "amt < amt div ?D * ?D + ?D"
    using D mod_less_divisor [OF D, of amt] div_mult_mod_eq [of amt ?D] by linarith+
  have fb: "?s * (amt div ?D) \<le> amt"
  proof -
    have "?s * (amt div ?D) \<le> ?D * (amt div ?D)" by (intro mult_le_mono1) simp
    also have "\<dots> \<le> amt" using q(1) by (simp only: mult.commute)
    finally show ?thesis .
  qed
  have r: "r = (if ?s * amt \<le> u64_max then ?s * amt div ?D else ?s * (amt div ?D))" "a = amt - r"
    using assms(2,3) fb by (auto simp: reward_split_def Let_def)
  have ra: "r \<le> amt"
  proof -
    have "?s * amt div ?D \<le> ?D * amt div ?D" by (intro div_le_mono mult_le_mono1) simp
    then show ?thesis using r(1) fb D by simp
  qed
  then show "a + r = amt" using r(2) by simp
  show "r * ?D \<le> ?s * amt"
    using r(1) mult_le_mono2 [OF q(1), of ?s] by (simp add: mult.assoc)
  show "?s * amt < r * ?D + (if ?s * amt \<le> u64_max then ?D else ?D * ?D)"
  proof (cases "?s * amt \<le> u64_max")
    case True
    have "?s * amt < ?s * amt div ?D * ?D + ?D"
      using mod_less_divisor [OF D, of "?s * amt"] div_mult_mod_eq [of "?s * amt" ?D] by linarith
    then show ?thesis using r(1) True by simp
  next
    case False
    then have "0 < ?s" by (cases "?s = 0") auto
    from mult_less_mono2 [OF q(2) this] have "?s * amt < ?s * (amt div ?D) * ?D + ?s * ?D"
      by (simp add: algebra_simps)
    also have "\<dots> \<le> ?s * (amt div ?D) * ?D + ?D * ?D" by simp
    finally show ?thesis using r(1) False by simp
  qed
qed

section \<open>Properties\<close>





end
