(* ===== verification/Ava_Db.thy ===== *)
theory Ava_Db
  imports Ava_Prelude "HOL-Library.List_Lexorder"
begin

text \<open>
  The database interface of \<^verbatim>\<open>ava-database\<close> and its in-memory backend. The trait family
  of \<^verbatim>\<open>traits.rs\<close> is the record \<open>database\<close> of operations on a store \<open>'d\<close>, its batches
  \<open>'b\<close> and its iterators \<open>'i\<close>; an operation on \<^verbatim>\<open>&self\<close> with interior mutability
  returns the changed store. Creating an iterator may read another database to
  its end, so it is the one operation that may not return (\<open>None\<close>). \<^verbatim>\<open>batch.rs\<close> is the recorder \<open>batch_ops\<close> and
  \<^verbatim>\<open>memdb.rs\<close> the instance \<open>mem_database\<close>. A lock is held for the whole of an
  operation, so operations are atomic steps.
\<close>

section \<open>Interface (\<^verbatim>\<open>traits.rs\<close>, \<^verbatim>\<open>error.rs\<close>)\<close>

type_synonym key = "u8 list"

type_synonym db_value = "u8 list"

datatype db_error = Closed | NotFound | OtherErr string

type_synonym 'a result = "db_error + 'a"

text \<open>One recorded operation of a batch; the value of a delete is empty.\<close>

record batch_op =
  bo_key :: key
  bo_value :: db_value
  bo_delete :: bool

record ('d, 'b, 'i) database =
  db_has :: "'d \<Rightarrow> key \<Rightarrow> bool result"
  db_get :: "'d \<Rightarrow> key \<Rightarrow> db_value result"
  db_put :: "'d \<Rightarrow> key \<Rightarrow> db_value \<Rightarrow> 'd \<times> unit result"
  db_delete :: "'d \<Rightarrow> key \<Rightarrow> 'd \<times> unit result"
  db_compact :: "'d \<Rightarrow> key option \<Rightarrow> key option \<Rightarrow> unit result"
  db_new_batch :: "'d \<Rightarrow> 'b"
  db_batch_put :: "'d \<Rightarrow> 'b \<Rightarrow> key \<Rightarrow> db_value \<Rightarrow> 'b \<times> unit result"
  db_batch_delete :: "'d \<Rightarrow> 'b \<Rightarrow> key \<Rightarrow> 'b \<times> unit result"
  db_batch_size :: "'b \<Rightarrow> nat"
  db_batch_write :: "'d \<Rightarrow> 'b \<Rightarrow> 'd \<times> unit result"
  db_batch_reset :: "'b \<Rightarrow> 'b"
  db_batch_replay :: "'d \<Rightarrow> 'b \<Rightarrow> batch_op list"
  db_new_iter :: "'d \<Rightarrow> key \<Rightarrow> key \<Rightarrow> 'i option"
  db_iter_next :: "'d \<Rightarrow> 'i \<Rightarrow> 'i \<times> bool"
  db_iter_error :: "'i \<Rightarrow> db_error option"
  db_iter_key :: "'i \<Rightarrow> key option"
  db_iter_value :: "'i \<Rightarrow> db_value option"
  db_iter_release :: "'i \<Rightarrow> 'i"
  db_close :: "'d \<Rightarrow> 'd \<times> unit result"
  db_health :: "'d \<Rightarrow> unit result"

text \<open>\<^verbatim>\<open>key.starts_with(prefix)\<close>.\<close>

definition starts_with :: "key \<Rightarrow> key \<Rightarrow> bool" where
  "starts_with k p \<longleftrightarrow> take (length p) k = p"

text \<open>
  \<^verbatim>\<open>while it.next()\<close> collecting the entries, as \<^verbatim>\<open>versiondb\<close> reads its base: the loop
  ends only if the iterator does.
\<close>

partial_function (option) iter_drain ::
    "('d, 'b, 'i) database \<Rightarrow> 'd \<Rightarrow> 'i \<Rightarrow> (key \<times> db_value) list \<Rightarrow> ('i \<times> (key \<times> db_value) list) option" where
  "iter_drain D d it acc =
    (let r = db_iter_next D d it in
     if snd r then
       iter_drain D d (fst r)
         (acc @ [(case db_iter_key D (fst r) of None \<Rightarrow> [] | Some k \<Rightarrow> k,
                  case db_iter_value D (fst r) of None \<Rightarrow> [] | Some v \<Rightarrow> v)])
     else Some (fst r, acc))"

section \<open>The recorder (\<^verbatim>\<open>batch.rs\<close>)\<close>

record batch_ops =
  bs_ops :: "batch_op list"
  bs_size :: nat

definition bs_new :: batch_ops where
  "bs_new = \<lparr>bs_ops = [], bs_size = 0\<rparr>"

definition bs_put :: "batch_ops \<Rightarrow> key \<Rightarrow> db_value \<Rightarrow> batch_ops" where
  "bs_put b k v =
    \<lparr>bs_ops = bs_ops b @ [\<lparr>bo_key = k, bo_value = v, bo_delete = False\<rparr>],
     bs_size = sat_add64 (sat_add64 (bs_size b) (length k)) (length v)\<rparr>"

definition bs_delete :: "batch_ops \<Rightarrow> key \<Rightarrow> batch_ops" where
  "bs_delete b k =
    \<lparr>bs_ops = bs_ops b @ [\<lparr>bo_key = k, bo_value = [], bo_delete = True\<rparr>],
     bs_size = sat_add64 (bs_size b) (length k)\<rparr>"

text \<open>The capacity of the buffer, which \<^verbatim>\<open>reset\<close> also shrinks, is not observable.\<close>

definition bs_reset :: "batch_ops \<Rightarrow> batch_ops" where
  "bs_reset b = \<lparr>bs_ops = [], bs_size = 0\<rparr>"

text \<open>\<^verbatim>\<open>replay\<close> onto a writer given by its two operations; the first error stops it.\<close>

fun bs_replay_onto :: "('w \<Rightarrow> key \<Rightarrow> db_value \<Rightarrow> 'w \<times> unit result) \<Rightarrow> ('w \<Rightarrow> key \<Rightarrow> 'w \<times> unit result)
    \<Rightarrow> batch_op list \<Rightarrow> 'w \<Rightarrow> 'w \<times> unit result" where
  "bs_replay_onto wput wdel [] w = (w, Inr ())"
| "bs_replay_onto wput wdel (x # xs) w =
    (case (if bo_delete x then wdel w (bo_key x) else wput w (bo_key x) (bo_value x)) of
       (w', Inl e) \<Rightarrow> (w', Inl e)
     | (w', Inr _) \<Rightarrow> bs_replay_onto wput wdel xs w')"

section \<open>The in-memory backend (\<^verbatim>\<open>memdb.rs\<close>)\<close>

type_synonym memdb = "(key \<times> db_value) list option"

definition mem_new :: memdb where
  "mem_new = Some []"

definition mem_is_closed :: "memdb \<Rightarrow> bool" where
  "mem_is_closed d \<longleftrightarrow> d = None"

fun snapshot_loop :: "key \<Rightarrow> key \<Rightarrow> (key \<times> db_value) list \<Rightarrow> (key \<times> db_value) list" where
  "snapshot_loop start prefix [] = []"
| "snapshot_loop start prefix ((k, v) # rest) =
    (if \<not> starts_with k prefix then
       (if k < prefix then snapshot_loop start prefix rest else [])
     else if k < start then snapshot_loop start prefix rest
     else (k, v) # snapshot_loop start prefix rest)"

definition mem_snapshot :: "memdb \<Rightarrow> key \<Rightarrow> key \<Rightarrow> (key \<times> db_value) list result" where
  "mem_snapshot d start prefix =
    (case d of
       None \<Rightarrow> Inl Closed
     | Some m \<Rightarrow>
         let lower = (if prefix < start then start else prefix);
             range = filter (\<lambda>(k, v). lower \<le> k) m
         in Inr (snapshot_loop start prefix range))"

definition mem_has :: "memdb \<Rightarrow> key \<Rightarrow> bool result" where
  "mem_has d k = (case d of None \<Rightarrow> Inl Closed | Some m \<Rightarrow> Inr (bt_get m k \<noteq> None))"

definition mem_get :: "memdb \<Rightarrow> key \<Rightarrow> db_value result" where
  "mem_get d k =
    (case d of
       None \<Rightarrow> Inl Closed
     | Some m \<Rightarrow> (case bt_get m k of None \<Rightarrow> Inl NotFound | Some v \<Rightarrow> Inr v))"

definition mem_put :: "memdb \<Rightarrow> key \<Rightarrow> db_value \<Rightarrow> memdb \<times> unit result" where
  "mem_put d k v =
    (case d of None \<Rightarrow> (d, Inl Closed) | Some m \<Rightarrow> (Some (bt_insert k v m), Inr ()))"

definition mem_delete :: "memdb \<Rightarrow> key \<Rightarrow> memdb \<times> unit result" where
  "mem_delete d k =
    (case d of None \<Rightarrow> (d, Inl Closed) | Some m \<Rightarrow> (Some (bt_remove k m), Inr ()))"

definition mem_compact :: "memdb \<Rightarrow> key option \<Rightarrow> key option \<Rightarrow> unit result" where
  "mem_compact d start limit = (case d of None \<Rightarrow> Inl Closed | Some _ \<Rightarrow> Inr ())"

definition mem_close :: "memdb \<Rightarrow> memdb \<times> unit result" where
  "mem_close d = (case d of None \<Rightarrow> (d, Inl Closed) | Some _ \<Rightarrow> (None, Inr ()))"

definition mem_health :: "memdb \<Rightarrow> unit result" where
  "mem_health d = (case d of None \<Rightarrow> Inl Closed | Some _ \<Rightarrow> Inr ())"

definition mem_batch_put :: "memdb \<Rightarrow> batch_ops \<Rightarrow> key \<Rightarrow> db_value \<Rightarrow> batch_ops \<times> unit result" where
  "mem_batch_put d b k v = (bs_put b k v, Inr ())"

definition mem_batch_delete :: "memdb \<Rightarrow> batch_ops \<Rightarrow> key \<Rightarrow> batch_ops \<times> unit result" where
  "mem_batch_delete d b k = (bs_delete b k, Inr ())"

fun mem_apply :: "batch_op list \<Rightarrow> (key \<times> db_value) list \<Rightarrow> (key \<times> db_value) list" where
  "mem_apply [] m = m"
| "mem_apply (x # xs) m =
    mem_apply xs (if bo_delete x then bt_remove (bo_key x) m else bt_insert (bo_key x) (bo_value x) m)"

definition mem_batch_write :: "memdb \<Rightarrow> batch_ops \<Rightarrow> memdb \<times> unit result" where
  "mem_batch_write d b =
    (case d of None \<Rightarrow> (d, Inl Closed) | Some m \<Rightarrow> (Some (mem_apply (bs_ops b) m), Inr ()))"

record mem_iterator =
  mi_entries :: "(key \<times> db_value) list"
  mi_pos :: "nat option"
  mi_err :: "db_error option"

definition mem_new_iter :: "memdb \<Rightarrow> key \<Rightarrow> key \<Rightarrow> mem_iterator" where
  "mem_new_iter d start prefix =
    (case mem_snapshot d start prefix of
       Inr entries \<Rightarrow> \<lparr>mi_entries = entries, mi_pos = None, mi_err = None\<rparr>
     | Inl err \<Rightarrow> \<lparr>mi_entries = [], mi_pos = None, mi_err = Some err\<rparr>)"

text \<open>A position is an index of the entries, so its saturating successor does not saturate.\<close>

definition mem_iter_next :: "memdb \<Rightarrow> mem_iterator \<Rightarrow> mem_iterator \<times> bool" where
  "mem_iter_next d it =
    (if mi_err it \<noteq> None then (it\<lparr>mi_entries := [], mi_pos := None\<rparr>, False)
     else if mem_is_closed d
     then (it\<lparr>mi_entries := [], mi_pos := None, mi_err := Some Closed\<rparr>, False)
     else case mi_pos it of
       None \<Rightarrow>
         if mi_entries it = [] then (it, False) else (it\<lparr>mi_pos := Some 0\<rparr>, True)
     | Some i \<Rightarrow>
         let nxt = i + 1 in
         if nxt < length (mi_entries it) then (it\<lparr>mi_pos := Some nxt\<rparr>, True)
         else (it\<lparr>mi_pos := None, mi_entries := []\<rparr>, False))"

definition mem_iter_current :: "mem_iterator \<Rightarrow> (key \<times> db_value) option" where
  "mem_iter_current it =
    (case mi_pos it of
       None \<Rightarrow> None
     | Some i \<Rightarrow> if i < length (mi_entries it) then Some (mi_entries it ! i) else None)"

definition mem_iter_key :: "mem_iterator \<Rightarrow> key option" where
  "mem_iter_key it = map_option fst (mem_iter_current it)"

definition mem_iter_value :: "mem_iterator \<Rightarrow> db_value option" where
  "mem_iter_value it = map_option snd (mem_iter_current it)"

definition mem_iter_release :: "mem_iterator \<Rightarrow> mem_iterator" where
  "mem_iter_release it = it\<lparr>mi_entries := [], mi_pos := None\<rparr>"

definition mem_database :: "(memdb, batch_ops, mem_iterator) database" where
  "mem_database =
    \<lparr>db_has = mem_has, db_get = mem_get, db_put = mem_put, db_delete = mem_delete,
     db_compact = mem_compact, db_new_batch = (\<lambda>_. bs_new),
     db_batch_put = mem_batch_put, db_batch_delete = mem_batch_delete,
     db_batch_size = bs_size, db_batch_write = mem_batch_write,
     db_batch_reset = bs_reset, db_batch_replay = (\<lambda>_. bs_ops),
     db_new_iter = (\<lambda>d s p. Some (mem_new_iter d s p)), db_iter_next = mem_iter_next, db_iter_error = mi_err,
     db_iter_key = mem_iter_key, db_iter_value = mem_iter_value, db_iter_release = mem_iter_release,
     db_close = mem_close, db_health = mem_health\<rparr>"

end
