(* ===== verification/Ava_Db_Spec.thy ===== *)
theory Ava_Db_Spec
  imports Ava_Db
begin

text \<open>
  The contract of a database as the locale \<open>kv_store\<close>: the store is read as a
  partial map from keys to values, absent once closed, batches as the sequence of
  their operations, iterators as the sorted entries they still deliver. The
  in-memory backend satisfies it. Every database that does is observationally a
  sorted map: \<open>run_refines\<close> is proved once in the locale.
\<close>

section \<open>Abstract store\<close>

type_synonym kv_map = "key \<rightharpoonup> db_value"

definition kv_done :: "kv_map option \<Rightarrow> unit result" where
  "kv_done c = (case c of None \<Rightarrow> Inl Closed | Some _ \<Rightarrow> Inr ())"

definition kv_get :: "kv_map option \<Rightarrow> key \<Rightarrow> db_value result" where
  "kv_get c k =
    (case c of None \<Rightarrow> Inl Closed
     | Some m \<Rightarrow> (case m k of None \<Rightarrow> Inl NotFound | Some v \<Rightarrow> Inr v))"

definition kv_has :: "kv_map option \<Rightarrow> key \<Rightarrow> bool result" where
  "kv_has c k = (case c of None \<Rightarrow> Inl Closed | Some m \<Rightarrow> Inr (m k \<noteq> None))"

fun kv_apply :: "batch_op list \<Rightarrow> kv_map \<Rightarrow> kv_map" where
  "kv_apply [] m = m"
| "kv_apply (x # xs) m = kv_apply xs (m(bo_key x := (if bo_delete x then None else Some (bo_value x))))"

abbreviation in_scan :: "key \<Rightarrow> key \<Rightarrow> key \<Rightarrow> bool" where
  "in_scan start prefix k \<equiv> starts_with k prefix \<and> start \<le> k"

definition kv_scan :: "kv_map \<Rightarrow> key \<Rightarrow> key \<Rightarrow> (key \<times> db_value) list" where
  "kv_scan m start prefix =
    map (\<lambda>k. (k, the (m k))) (sorted_list_of_set {k \<in> dom m. in_scan start prefix k})"

text \<open>The entries of a scan are determined by being sorted and having the right lookups.\<close>

definition lists_map :: "(key \<times> db_value) list \<Rightarrow> kv_map \<Rightarrow> bool" where
  "lists_map es m \<longleftrightarrow> bt_wf es \<and> map_of es = m"

definition scan_map :: "kv_map \<Rightarrow> key \<Rightarrow> key \<Rightarrow> kv_map" where
  "scan_map m start prefix k = (if in_scan start prefix k then m k else None)"

lemma lists_map_entries:
  assumes "lists_map es m"
  shows "es = map (\<lambda>k. (k, the (m k))) (sorted_list_of_set (dom m))"
proof -
  have wf: "bt_wf es" and m: "m = map_of es" using assms by (auto simp: lists_map_def)
  have "sorted_list_of_set (dom m) = map fst es"
    using wf unfolding m dom_map_of_conv_image_fst bt_wf_def
    by (metis list.set_map sorted_list_of_set.idem_if_sorted_distinct strict_sorted_iff)
  moreover have "map (\<lambda>k. (k, the (m k))) (map fst es) = es"
    using bt_wf_distinct [OF wf] by (auto simp: m intro: map_idI)
  ultimately show ?thesis by simp
qed

lemma lists_map_scan: "lists_map es (scan_map m start prefix) \<Longrightarrow> es = kv_scan m start prefix"
proof -
  assume es: "lists_map es (scan_map m start prefix)"
  have d: "dom (scan_map m start prefix) = {k \<in> dom m. in_scan start prefix k}"
    by (auto simp: scan_map_def split: if_splits)
  have "finite (dom (scan_map m start prefix))"
    using es finite_dom_map_of [of es] by (auto simp: lists_map_def)
  then have "k \<in> set (sorted_list_of_set (dom (scan_map m start prefix))) \<Longrightarrow> scan_map m start prefix k = m k" for k
    by (auto simp: scan_map_def split: if_splits)
  then show ?thesis
    using lists_map_entries [OF es] unfolding kv_scan_def d [symmetric] by (auto intro: map_cong)
qed

lemma kv_apply_norm:
  "kv_apply (map (\<lambda>x. if bo_delete x then \<lparr>bo_key = bo_key x, bo_value = [], bo_delete = True\<rparr>
      else \<lparr>bo_key = bo_key x, bo_value = bo_value x, bo_delete = False\<rparr>) ops) m = kv_apply ops m"
  by (induction ops arbitrary: m) auto

section \<open>The contract\<close>

locale kv_store =
  fixes D :: "('d, 'b, 'i) database"
    and inv :: "'d \<Rightarrow> bool"
    and content :: "'d \<Rightarrow> kv_map option"
    and bok :: "'d \<Rightarrow> 'b \<Rightarrow> bool"
    and bops :: "'d \<Rightarrow> 'b \<Rightarrow> batch_op list"
    and rest :: "'d \<Rightarrow> 'i \<Rightarrow> (key \<times> db_value) list"
    and iok :: "'d \<Rightarrow> 'i \<Rightarrow> bool"
  assumes get: "inv d \<Longrightarrow> db_get D d k = kv_get (content d) k"
    and has: "inv d \<Longrightarrow> db_has D d k = kv_has (content d) k"
    and put: "inv d \<Longrightarrow> db_put D d k v = (d', r) \<Longrightarrow>
      inv d' \<and> content d' = map_option (\<lambda>m. m(k \<mapsto> v)) (content d) \<and> r = kv_done (content d)"
    and delete: "inv d \<Longrightarrow> db_delete D d k = (d', r) \<Longrightarrow>
      inv d' \<and> content d' = map_option (\<lambda>m. m(k := None)) (content d) \<and> r = kv_done (content d)"
    and close: "inv d \<Longrightarrow> db_close D d = (d', r) \<Longrightarrow>
      inv d' \<and> content d' = None \<and> r = kv_done (content d)"
    and health: "inv d \<Longrightarrow> db_health D d = kv_done (content d)"
    and compact: "inv d \<Longrightarrow> db_compact D d lo hi = kv_done (content d)"
    and new_batch: "inv d \<Longrightarrow> bok d (db_new_batch D d) \<and> bops d (db_new_batch D d) = []"
    and batch_put: "inv d \<Longrightarrow> bok d b \<Longrightarrow> db_batch_put D d b k v = (b', r) \<Longrightarrow>
      bok d b' \<and> bops d b' = bops d b @ [\<lparr>bo_key = k, bo_value = v, bo_delete = False\<rparr>] \<and> r = Inr ()"
    and batch_delete: "inv d \<Longrightarrow> bok d b \<Longrightarrow> db_batch_delete D d b k = (b', r) \<Longrightarrow>
      bok d b' \<and> bops d b' = bops d b @ [\<lparr>bo_key = k, bo_value = [], bo_delete = True\<rparr>] \<and> r = Inr ()"
    and batch_write: "inv d \<Longrightarrow> bok d b \<Longrightarrow> db_batch_write D d b = (d', r) \<Longrightarrow>
      inv d' \<and> content d' = map_option (kv_apply (bops d b)) (content d) \<and> r = kv_done (content d)"
    and batch_reset: "inv d \<Longrightarrow> bok d b \<Longrightarrow> bok d (db_batch_reset D b) \<and> bops d (db_batch_reset D b) = []"
    and new_iter: "inv d \<Longrightarrow> \<exists>it. db_new_iter D d s p = Some it \<and> iok d it \<and>
      (case content d of
         None \<Rightarrow> db_iter_error D it = Some Closed
       | Some m \<Rightarrow> db_iter_error D it = None \<and> lists_map (rest d it) (scan_map m s p))"
    and iter_end: "inv d \<Longrightarrow> iok d it \<Longrightarrow> rest d it = [] \<or> content d = None \<Longrightarrow>
      db_iter_next D d it = (it', nx) \<Longrightarrow>
      \<not> nx \<and> iok d it' \<and> rest d it' = [] \<and>
      db_iter_error D it' = (if content d = None then Some Closed else db_iter_error D it)"
    and iter_step: "inv d \<Longrightarrow> iok d it \<Longrightarrow> content d \<noteq> None \<Longrightarrow> rest d it = (k, v) # xs \<Longrightarrow>
      db_iter_next D d it = (it', nx) \<Longrightarrow>
      nx \<and> iok d it' \<and> rest d it' = xs \<and> db_iter_key D it' = Some k \<and> db_iter_value D it' = Some v
        \<and> db_iter_error D it' = db_iter_error D it"
begin

lemma drain:
  assumes "inv d" "content d \<noteq> None" "iok d it"
  shows "\<exists>it'. iter_drain D d it acc = Some (it', acc @ rest d it) \<and> db_iter_error D it' = db_iter_error D it"
  using assms(3)
proof (induction "rest d it" arbitrary: it acc)
  case Nil
  obtain it' nx where n: "db_iter_next D d it = (it', nx)" by fastforce
  from iter_end [OF assms(1) Nil(2) _ n] Nil(1) assms(2) n show ?case
    by (subst iter_drain.simps) auto
next
  case (Cons e xs)
  obtain k v where e: "e = (k, v)" by fastforce
  obtain it' nx where n: "db_iter_next D d it = (it', nx)" by fastforce
  note st = iter_step [OF assms(1) Cons(3) assms(2) _ n, of k v xs]
  have st': "nx" "iok d it'" "rest d it' = xs" "db_iter_key D it' = Some k" "db_iter_value D it' = Some v"
      "db_iter_error D it' = db_iter_error D it"
    using st Cons(2) e by auto
  from Cons(1) [of it' "acc @ [(k, v)]"] st' Cons(2) e show ?case
    by (subst iter_drain.simps) (auto simp: n)
qed

lemma drain_closed:
  assumes "inv d" "content d = None" "iok d it"
  shows "\<exists>it'. iter_drain D d it acc = Some (it', acc) \<and> db_iter_error D it' = Some Closed"
proof -
  obtain it' nx where n: "db_iter_next D d it = (it', nx)" by fastforce
  from iter_end [OF assms(1,3) _ n] assms(2) n show ?thesis by (subst iter_drain.simps) auto
qed

lemma fill_batch:
  assumes "inv d" "bok d b"
  shows "\<exists>b'. bs_replay_onto (db_batch_put D d) (db_batch_delete D d) ops b = (b', Inr ()) \<and> bok d b'
    \<and> bops d b' = bops d b @ map (\<lambda>x. if bo_delete x then \<lparr>bo_key = bo_key x, bo_value = [], bo_delete = True\<rparr>
        else \<lparr>bo_key = bo_key x, bo_value = bo_value x, bo_delete = False\<rparr>) ops"
  using assms(2)
proof (induction ops arbitrary: b)
  case (Cons x ops)
  obtain b1 r where b1: "(if bo_delete x then db_batch_delete D d b (bo_key x)
      else db_batch_put D d b (bo_key x) (bo_value x)) = (b1, r)" by fastforce
  from b1 batch_put [OF assms(1) Cons.prems, of "bo_key x" "bo_value x" b1 r]
    batch_delete [OF assms(1) Cons.prems, of "bo_key x" b1 r]
  have r: "r = Inr ()" "bok d b1" "bops d b1 = bops d b @ [if bo_delete x
        then \<lparr>bo_key = bo_key x, bo_value = [], bo_delete = True\<rparr>
        else \<lparr>bo_key = bo_key x, bo_value = bo_value x, bo_delete = False\<rparr>]"
    by (auto split: if_splits)
  from Cons.IH [OF r(2)] b1 r show ?case by auto
qed simp

text \<open>Recording operations in a fresh batch and writing it applies them in order.\<close>

lemma write_ops:
  assumes "inv d"
  obtains b d' r where
    "bs_replay_onto (db_batch_put D d) (db_batch_delete D d) ops (db_new_batch D d) = (b, Inr ())"
    "db_batch_write D d b = (d', r)" "inv d'" "content d' = map_option (kv_apply ops) (content d)"
    "r = kv_done (content d)"
proof -
  from new_batch [OF assms] have n: "bok d (db_new_batch D d)" "bops d (db_new_batch D d) = []" by auto
  from fill_batch [OF assms n(1), of ops]
  obtain b where b: "bs_replay_onto (db_batch_put D d) (db_batch_delete D d) ops (db_new_batch D d) = (b, Inr ())"
    "bok d b"
    and ops: "bops d b = map (\<lambda>x. if bo_delete x then \<lparr>bo_key = bo_key x, bo_value = [], bo_delete = True\<rparr>
        else \<lparr>bo_key = bo_key x, bo_value = bo_value x, bo_delete = False\<rparr>) ops"
    unfolding n(2) by auto
  have "kv_apply (bops d b) = kv_apply ops" unfolding ops by (rule ext) (rule kv_apply_norm)
  moreover obtain d' r where "db_batch_write D d b = (d', r)" by fastforce
  ultimately show ?thesis using that [OF b(1)] batch_write [OF assms b(2)] by simp
qed

end

section \<open>Observational refinement\<close>

datatype kv_op = OpHas key | OpGet key | OpPut key db_value | OpDelete key | OpBatch "batch_op list"
  | OpScan key key | OpClose

datatype kv_obs = ObBool "bool result" | ObValue "db_value result" | ObDone "unit result"
  | ObEntries "(key \<times> db_value) list" "db_error option"

text \<open>One client operation on a database; a batch is recorded and written, a scan runs to the end.\<close>

fun db_do :: "('d, 'b, 'i) database \<Rightarrow> kv_op \<Rightarrow> 'd \<Rightarrow> ('d \<times> kv_obs) option" where
  "db_do D (OpHas k) d = Some (d, ObBool (db_has D d k))"
| "db_do D (OpGet k) d = Some (d, ObValue (db_get D d k))"
| "db_do D (OpPut k v) d = (let (d', r) = db_put D d k v in Some (d', ObDone r))"
| "db_do D (OpDelete k) d = (let (d', r) = db_delete D d k in Some (d', ObDone r))"
| "db_do D (OpBatch ops) d =
    (case bs_replay_onto (db_batch_put D d) (db_batch_delete D d) ops (db_new_batch D d) of
       (b, Inl e) \<Rightarrow> Some (d, ObDone (Inl e))
     | (b, Inr _) \<Rightarrow> (let (d', r) = db_batch_write D d b in Some (d', ObDone r)))"
| "db_do D (OpScan s p) d =
    (case db_new_iter D d s p of
       None \<Rightarrow> None
     | Some it \<Rightarrow>
         (case iter_drain D d it [] of
            None \<Rightarrow> None
          | Some (it', es) \<Rightarrow> Some (d, ObEntries es (db_iter_error D it'))))"
| "db_do D OpClose d = (let (d', r) = db_close D d in Some (d', ObDone r))"

fun map_do :: "kv_op \<Rightarrow> kv_map option \<Rightarrow> kv_map option \<times> kv_obs" where
  "map_do (OpHas k) c = (c, ObBool (kv_has c k))"
| "map_do (OpGet k) c = (c, ObValue (kv_get c k))"
| "map_do (OpPut k v) c = (map_option (\<lambda>m. m(k \<mapsto> v)) c, ObDone (kv_done c))"
| "map_do (OpDelete k) c = (map_option (\<lambda>m. m(k := None)) c, ObDone (kv_done c))"
| "map_do (OpBatch ops) c = (map_option (kv_apply ops) c, ObDone (kv_done c))"
| "map_do (OpScan s p) c =
    (c, (case c of None \<Rightarrow> ObEntries [] (Some Closed) | Some m \<Rightarrow> ObEntries (kv_scan m s p) None))"
| "map_do OpClose c = (None, ObDone (kv_done c))"

fun db_run :: "('d, 'b, 'i) database \<Rightarrow> kv_op list \<Rightarrow> 'd \<Rightarrow> ('d \<times> kv_obs list) option" where
  "db_run D [] d = Some (d, [])"
| "db_run D (a # as) d =
    (case db_do D a d of
       None \<Rightarrow> None
     | Some (d', r) \<Rightarrow>
         (case db_run D as d' of None \<Rightarrow> None | Some (d'', rs) \<Rightarrow> Some (d'', r # rs)))"

fun map_run :: "kv_op list \<Rightarrow> kv_map option \<Rightarrow> kv_map option \<times> kv_obs list" where
  "map_run [] c = (c, [])"
| "map_run (a # as) c = (let (c', r) = map_do a c; (c'', rs) = map_run as c' in (c'', r # rs))"

context kv_store
begin

lemma do_refines:
  assumes "inv d"
  shows "\<exists>d' r. db_do D a d = Some (d', r) \<and> inv d' \<and> map_do a (content d) = (content d', r)"
proof (cases a)
  case (OpPut k v)
  then show ?thesis using put [OF assms, of k v] by (cases "db_put D d k v") auto
next
  case (OpDelete k)
  then show ?thesis using delete [OF assms, of k] by (cases "db_delete D d k") auto
next
  case (OpBatch ops)
  show ?thesis
  proof (rule write_ops [OF assms, of ops])
    fix b d' r
    assume b: "bs_replay_onto (db_batch_put D d) (db_batch_delete D d) ops (db_new_batch D d) = (b, Inr ())"
      "db_batch_write D d b = (d', r)" "inv d'" "content d' = map_option (kv_apply ops) (content d)"
      "r = kv_done (content d)"
    then have "db_do D a d = Some (d', ObDone r)" using OpBatch by simp
    with b(3-5) OpBatch show ?thesis by simp
  qed
next
  case (OpScan s p)
  obtain it where it: "db_new_iter D d s p = Some it" "iok d it"
    "case content d of None \<Rightarrow> db_iter_error D it = Some Closed
       | Some m \<Rightarrow> db_iter_error D it = None \<and> lists_map (rest d it) (scan_map m s p)"
    using new_iter [OF assms] by blast
  show ?thesis
  proof (cases "content d")
    case None
    then show ?thesis using drain_closed [OF assms None it(2), of "[]"] OpScan it(1) assms by auto
  next
    case (Some m)
    with it(3) have "rest d it = kv_scan m s p" "db_iter_error D it = None" by (auto intro: lists_map_scan)
    then show ?thesis using drain [OF assms _ it(2), of "[]"] OpScan it(1) assms Some by auto
  qed
next
  case OpClose
  then show ?thesis using close [OF assms] by (cases "db_close D d") auto
qed (use assms get has in auto)

lemma run_refines:
  assumes "inv d"
  shows "\<exists>d' rs. db_run D as d = Some (d', rs) \<and> inv d' \<and> map_run as (content d) = (content d', rs)"
  using assms
proof (induction as arbitrary: d)
  case (Cons a as)
  obtain d1 r where 1: "db_do D a d = Some (d1, r)" "inv d1" "map_do a (content d) = (content d1, r)"
    using do_refines [OF Cons.prems] by blast
  from Cons.IH [OF 1(2)] obtain d2 rs where
    "db_run D as d1 = Some (d2, rs)" "inv d2" "map_run as (content d1) = (content d2, rs)" by blast
  with 1 show ?case by simp
qed simp

end

section \<open>Keys and prefixes\<close>

lemma starts_with_Nil [simp]: "starts_with k []"
  by (simp add: starts_with_def)

lemma starts_with_Cons: "starts_with k (a # p) \<longleftrightarrow> (\<exists>k'. k = a # k' \<and> starts_with k' p)"
  by (cases k) (auto simp: starts_with_def)

lemma starts_with_append: "starts_with k p \<longleftrightarrow> (\<exists>s. k = p @ s)"
  by (induction p arbitrary: k) (auto simp: starts_with_Cons)

lemma starts_with_le: "starts_with k p \<Longrightarrow> p \<le> k"
  by (induction p arbitrary: k) (auto simp: starts_with_Cons)

text \<open>The keys with a given prefix are contiguous in the key order.\<close>

lemma prefix_block: "p \<le> k \<Longrightarrow> k \<le> k' \<Longrightarrow> starts_with k' p \<Longrightarrow> starts_with k p"
proof (induction p arbitrary: k k')
  case (Cons a p)
  then obtain s' where k': "k' = a # s'" "starts_with s' p" by (auto simp: starts_with_Cons)
  from Cons.prems(1) obtain b s where k: "k = b # s" by (cases k) auto
  from Cons.prems k k' have "a = b" "p \<le> s" "s \<le> s'" by auto
  with Cons.IH [of s s'] k k' show ?case by (auto simp: starts_with_Cons)
qed simp

lemma prefix_append_mono: "p @ s \<le> p @ s' \<longleftrightarrow> s \<le> (s' :: key)"
  by (induction p) auto

section \<open>The in-memory backend satisfies the contract\<close>

lemma snapshot_loop_none:
  assumes "\<And>k v. (k, v) \<in> set m \<Longrightarrow> \<not> starts_with k prefix"
  shows "filter (\<lambda>(k, v). in_scan start prefix k) m = []"
  using assms by (auto simp: filter_empty_conv)

lemma snapshot_loop_eq:
  assumes "bt_wf m"
  shows "snapshot_loop start prefix m = filter (\<lambda>(k, v). in_scan start prefix k) m"
  using assms
proof (induction start prefix m rule: snapshot_loop.induct)
  case (2 start prefix k v m)
  show ?case
  proof (cases "\<not> starts_with k prefix \<and> \<not> k < prefix")
    case True
    have "\<not> starts_with k' prefix" if "(k', v') \<in> set m" for k' v'
    proof
      assume "starts_with k' prefix"
      moreover from that 2(4) have "k \<le> k'" by force
      ultimately show False using prefix_block [of prefix k k'] True by (simp add: not_less)
    qed
    then have "filter (\<lambda>(k, v). in_scan start prefix k) m = []" by (rule snapshot_loop_none)
    with True show ?thesis by simp
  next
    case False
    with 2 show ?thesis by auto
  qed
qed simp

lemma mem_snapshot_eq:
  assumes "bt_wf m"
  shows "mem_snapshot (Some m) start prefix = Inr (filter (\<lambda>(k, v). in_scan start prefix k) m)"
proof -
  let ?l = "if prefix < start then start else prefix"
  have wf: "bt_wf (filter (\<lambda>(k, v). ?l \<le> k) m)"
    using assms by (induction m) (auto simp: split_beta)
  have "filter (\<lambda>(k, v). in_scan start prefix k) (filter (\<lambda>(k, v). ?l \<le> k) m)
    = filter (\<lambda>(k, v). in_scan start prefix k) m"
    unfolding filter_filter by (rule filter_cong) (auto dest: starts_with_le)
  with snapshot_loop_eq [OF wf, of start prefix] show ?thesis by (simp add: mem_snapshot_def Let_def)
qed

lemma bt_wf_filter: "bt_wf m \<Longrightarrow> bt_wf (filter P m)"
  unfolding bt_wf_def by (induction m) auto

lemma map_of_filter_keys:
  "distinct (map fst m) \<Longrightarrow> map_of (filter (\<lambda>(k, v). P k) m) k = (if P k then map_of m k else None)"
  by (induction m) (auto simp: map_of_eq_None_iff [symmetric] image_iff)

definition mem_inv :: "memdb \<Rightarrow> bool" where
  "mem_inv d \<longleftrightarrow> (case d of None \<Rightarrow> True | Some m \<Rightarrow> bt_wf m)"

definition mem_content :: "memdb \<Rightarrow> kv_map option" where
  "mem_content d = map_option map_of d"

definition mem_rest :: "memdb \<Rightarrow> mem_iterator \<Rightarrow> (key \<times> db_value) list" where
  "mem_rest d it =
    (if mi_err it \<noteq> None then []
     else case mi_pos it of None \<Rightarrow> mi_entries it | Some i \<Rightarrow> drop (i + 1) (mi_entries it))"

definition mem_iok :: "memdb \<Rightarrow> mem_iterator \<Rightarrow> bool" where
  "mem_iok d it \<longleftrightarrow> mi_err it \<in> {None, Some Closed}
    \<and> (case mi_pos it of None \<Rightarrow> True | Some i \<Rightarrow> i < length (mi_entries it))"

lemma mem_apply_ok:
  "bt_wf m \<Longrightarrow> bt_wf (mem_apply ops m) \<and> map_of (mem_apply ops m) = kv_apply ops (map_of m)"
  by (induction ops arbitrary: m) (auto simp: map_simps)

lemma mem_iter_end:
  assumes "mem_iok d it" "mem_rest d it = [] \<or> d = None" "mem_iter_next d it = (it', nx)"
  shows "\<not> nx \<and> mem_iok d it' \<and> mem_rest d it' = [] \<and> mi_err it' = (if d = None then Some Closed else mi_err it)"
  using assms
  by (auto simp: mem_iter_next_def mem_iok_def mem_rest_def mem_is_closed_def Let_def
      split: if_splits option.splits)

lemma mem_iter_step:
  assumes "mem_iok d it" "d \<noteq> None" "mem_rest d it = (k, v) # xs" "mem_iter_next d it = (it', nx)"
  shows "nx \<and> mem_iok d it' \<and> mem_rest d it' = xs \<and> mem_iter_key it' = Some k \<and> mem_iter_value it' = Some v
    \<and> mi_err it' = mi_err it"
proof -
  have err: "mi_err it = None" using assms(3) by (auto simp: mem_rest_def split: if_splits)
  show ?thesis
  proof (cases "mi_pos it")
    case None
    then show ?thesis using assms err
      by (auto simp: mem_iter_next_def mem_rest_def mem_iok_def mem_is_closed_def mem_iter_key_def
          mem_iter_value_def mem_iter_current_def)
  next
    case (Some i)
    from assms(3) Some err have d: "drop (Suc i) (mi_entries it) = (k, v) # xs" by (simp add: mem_rest_def)
    then have "Suc i < length (mi_entries it)" "mi_entries it ! Suc i = (k, v)" "drop (Suc (Suc i)) (mi_entries it) = xs"
      by (metis drop_eq_Nil2 linorder_not_less list.distinct(1), metis nth_via_drop,
          metis Cons_nth_drop_Suc drop_eq_Nil linorder_not_less list.distinct(1) list.inject)
    then show ?thesis using assms err Some
      by (auto simp: mem_iter_next_def mem_rest_def mem_iok_def mem_is_closed_def mem_iter_key_def
          mem_iter_value_def mem_iter_current_def)
  qed
qed

lemma mem_new_iter_ok:
  assumes "mem_inv d"
  shows "mem_iok d (mem_new_iter d s p) \<and>
    (case mem_content d of
       None \<Rightarrow> mi_err (mem_new_iter d s p) = Some Closed
     | Some m \<Rightarrow> mi_err (mem_new_iter d s p) = None
         \<and> lists_map (mem_rest d (mem_new_iter d s p)) (scan_map m s p))"
proof (cases d)
  case (Some m)
  then have wf: "bt_wf m" using assms by (simp add: mem_inv_def)
  from bt_wf_filter [OF wf] map_of_filter_keys [OF bt_wf_distinct [OF wf]] Some mem_snapshot_eq [OF wf]
  show ?thesis by (auto simp: mem_new_iter_def mem_iok_def mem_content_def mem_rest_def lists_map_def scan_map_def)
qed (simp add: mem_new_iter_def mem_snapshot_def mem_iok_def mem_content_def)

interpretation memkv: kv_store mem_database mem_inv mem_content "\<lambda>_ _. True" "\<lambda>_. bs_ops" mem_rest mem_iok
proof unfold_locales
  fix d s p assume "mem_inv d"
  from mem_new_iter_ok [OF this, of s p]
  show "\<exists>it. db_new_iter mem_database d s p = Some it \<and> mem_iok d it \<and>
    (case mem_content d of None \<Rightarrow> db_iter_error mem_database it = Some Closed
     | Some m \<Rightarrow> db_iter_error mem_database it = None \<and> lists_map (mem_rest d it) (scan_map m s p))"
    by (simp add: mem_database_def split: option.splits)
next
  fix d it it' nx
  assume "mem_iok d it" "mem_rest d it = [] \<or> mem_content d = None" "db_iter_next mem_database d it = (it', nx)"
  then show "\<not> nx \<and> mem_iok d it' \<and> mem_rest d it' = [] \<and>
      db_iter_error mem_database it' = (if mem_content d = None then Some Closed else db_iter_error mem_database it)"
    using mem_iter_end [of d it it' nx] by (simp add: mem_database_def mem_content_def)
next
  fix d it k v xs it' nx
  assume "mem_iok d it" "mem_content d \<noteq> None" "mem_rest d it = (k, v) # xs"
    "db_iter_next mem_database d it = (it', nx)"
  then show "nx \<and> mem_iok d it' \<and> mem_rest d it' = xs \<and> db_iter_key mem_database it' = Some k \<and>
      db_iter_value mem_database it' = Some v \<and> db_iter_error mem_database it' = db_iter_error mem_database it"
    using mem_iter_step [of d it k v xs it' nx] by (simp add: mem_database_def mem_content_def)
qed (auto simp: mem_database_def mem_inv_def mem_content_def kv_get_def kv_has_def kv_done_def mem_get_def mem_has_def
    mem_put_def mem_delete_def mem_close_def mem_health_def mem_compact_def mem_batch_put_def mem_batch_delete_def
    mem_batch_write_def bs_put_def bs_delete_def bs_new_def bs_reset_def map_simps mem_apply_ok split: option.splits)

end
