(* ===== verification/Ava_Versiondb.thy ===== *)
theory Ava_Versiondb
  imports Ava_Db_Spec
begin

text \<open>
  The overlay database of \<^verbatim>\<open>ava-database/src/versiondb.rs\<close>, over any base database
  \<open>D\<close>. The overlay is a \<^verbatim>\<open>HashMap\<close>, an association list with distinct keys in arbitrary
  order. Over a base that satisfies the contract \<open>kv_store\<close> it satisfies the
  contract again, its content being the base under the overlay.
\<close>

section \<open>Model\<close>

record vod =
  vo_value :: db_value
  vo_delete :: bool

type_synonym overlay = "(key \<times> vod) list"

record 'd vinner =
  vi_mem :: overlay
  vi_db :: 'd

type_synonym 'd versiondb = "'d vinner option"

definition vdb_new :: "'d \<Rightarrow> 'd versiondb" where
  "vdb_new d = Some \<lparr>vi_mem = [], vi_db = d\<rparr>"

definition vdb_set_database :: "'d versiondb \<Rightarrow> 'd \<Rightarrow> 'd versiondb \<times> unit result" where
  "vdb_set_database v d =
    (case v of None \<Rightarrow> (v, Inl Closed) | Some inner \<Rightarrow> (Some (inner\<lparr>vi_db := d\<rparr>), Inr ()))"

definition vdb_get_database :: "'d versiondb \<Rightarrow> 'd result" where
  "vdb_get_database v = (case v of None \<Rightarrow> Inl Closed | Some inner \<Rightarrow> Inr (vi_db inner))"

text \<open>The operations that \<^verbatim>\<open>commit\<close> and \<^verbatim>\<open>commit_batch\<close> record, in the order of the map.\<close>

definition overlay_ops :: "overlay \<Rightarrow> batch_op list" where
  "overlay_ops mem = map (\<lambda>(k, vd). \<lparr>bo_key = k, bo_value = vo_value vd, bo_delete = vo_delete vd\<rparr>) mem"

definition vdb_commit :: "('d, 'b, 'i) database \<Rightarrow> 'd versiondb \<Rightarrow> 'd versiondb \<times> unit result" where
  "vdb_commit D v =
    (case v of
       None \<Rightarrow> (v, Inl Closed)
     | Some inner \<Rightarrow>
         let db = vi_db inner in
         (case bs_replay_onto (db_batch_put D db) (db_batch_delete D db) (overlay_ops (vi_mem inner)) (db_new_batch D db) of
            (batch, Inl e) \<Rightarrow> (v, Inl e)
          | (batch, Inr _) \<Rightarrow>
              (case db_batch_write D db batch of
                 (db', Inl e) \<Rightarrow> (Some (inner\<lparr>vi_db := db'\<rparr>), Inl e)
               | (db', Inr _) \<Rightarrow> (Some (inner\<lparr>vi_db := db', vi_mem := []\<rparr>), Inr ()))))"

definition vdb_abort :: "'d versiondb \<Rightarrow> 'd versiondb" where
  "vdb_abort v = map_option (\<lambda>inner. inner\<lparr>vi_mem := []\<rparr>) v"

definition vdb_commit_batch :: "'d versiondb \<Rightarrow> batch_ops result" where
  "vdb_commit_batch v =
    (case v of
       None \<Rightarrow> Inl Closed
     | Some inner \<Rightarrow>
         Inr (foldl (\<lambda>ops (k, vd). if vo_delete vd then bs_delete ops k else bs_put ops k (vo_value vd))
                bs_new (vi_mem inner)))"

text \<open>
  \<^verbatim>\<open>VersionCommitBatch::write\<close>: the batch shares the base with the overlay database,
  so the base is an argument and is returned.
\<close>

definition vcb_write :: "('d, 'b, 'i) database \<Rightarrow> 'd \<Rightarrow> batch_ops \<Rightarrow> 'd \<times> unit result" where
  "vcb_write D db b =
    (case bs_replay_onto (db_batch_put D db) (db_batch_delete D db) (bs_ops b) (db_new_batch D db) of
       (batch, Inl e) \<Rightarrow> (db, Inl e)
     | (batch, Inr _) \<Rightarrow> db_batch_write D db batch)"

definition vdb_has :: "('d, 'b, 'i) database \<Rightarrow> 'd versiondb \<Rightarrow> key \<Rightarrow> bool result" where
  "vdb_has D v k =
    (case v of
       None \<Rightarrow> Inl Closed
     | Some inner \<Rightarrow>
         (case map_of (vi_mem inner) k of
            Some vd \<Rightarrow> Inr (\<not> vo_delete vd)
          | None \<Rightarrow> db_has D (vi_db inner) k))"

definition vdb_get :: "('d, 'b, 'i) database \<Rightarrow> 'd versiondb \<Rightarrow> key \<Rightarrow> db_value result" where
  "vdb_get D v k =
    (case v of
       None \<Rightarrow> Inl Closed
     | Some inner \<Rightarrow>
         (case map_of (vi_mem inner) k of
            Some vd \<Rightarrow> if vo_delete vd then Inl NotFound else Inr (vo_value vd)
          | None \<Rightarrow> db_get D (vi_db inner) k))"

definition vdb_put :: "'d versiondb \<Rightarrow> key \<Rightarrow> db_value \<Rightarrow> 'd versiondb \<times> unit result" where
  "vdb_put v k val =
    (case v of
       None \<Rightarrow> (v, Inl Closed)
     | Some inner \<Rightarrow>
         (Some (inner\<lparr>vi_mem := AList.update k \<lparr>vo_value = val, vo_delete = False\<rparr> (vi_mem inner)\<rparr>), Inr ()))"

definition vdb_delete :: "'d versiondb \<Rightarrow> key \<Rightarrow> 'd versiondb \<times> unit result" where
  "vdb_delete v k =
    (case v of
       None \<Rightarrow> (v, Inl Closed)
     | Some inner \<Rightarrow>
         (Some (inner\<lparr>vi_mem := AList.update k \<lparr>vo_value = [], vo_delete = True\<rparr> (vi_mem inner)\<rparr>), Inr ()))"

definition vdb_compact :: "('d, 'b, 'i) database \<Rightarrow> 'd versiondb \<Rightarrow> key option \<Rightarrow> key option \<Rightarrow> unit result" where
  "vdb_compact D v start limit =
    (case v of None \<Rightarrow> Inl Closed | Some inner \<Rightarrow> db_compact D (vi_db inner) start limit)"

definition vdb_close :: "'d versiondb \<Rightarrow> 'd versiondb \<times> unit result" where
  "vdb_close v = (case v of None \<Rightarrow> (v, Inl Closed) | Some _ \<Rightarrow> (None, Inr ()))"

definition vdb_health :: "('d, 'b, 'i) database \<Rightarrow> 'd versiondb \<Rightarrow> unit result" where
  "vdb_health D v = (case v of None \<Rightarrow> Inl Closed | Some inner \<Rightarrow> db_health D (vi_db inner))"

definition vdb_batch_write :: "'d versiondb \<Rightarrow> batch_ops \<Rightarrow> 'd versiondb \<times> unit result" where
  "vdb_batch_write v b =
    (case v of
       None \<Rightarrow> (v, Inl Closed)
     | Some inner \<Rightarrow>
         (Some (inner\<lparr>vi_mem := foldl (\<lambda>mem x. AList.update (bo_key x)
              \<lparr>vo_value = bo_value x, vo_delete = bo_delete x\<rparr> mem) (vi_mem inner) (bs_ops b)\<rparr>), Inr ()))"

subsection \<open>The merge iterator\<close>

record v_iterator =
  ve_entries :: "(key \<times> vod) list"
  ve_head :: nat
  ve_base_entries :: "(key \<times> db_value) list"
  ve_base_head :: nat
  ve_base_err :: "db_error option"
  ve_key :: "key option"
  ve_value :: "db_value option"
  ve_err :: "db_error option"

definition vdb_new_iter :: "('d, 'b, 'i) database \<Rightarrow> 'd versiondb \<Rightarrow> key \<Rightarrow> key \<Rightarrow> v_iterator option" where
  "vdb_new_iter D v start prefix =
    (case v of
       None \<Rightarrow> Some \<lparr>ve_entries = [], ve_head = 0, ve_base_entries = [], ve_base_head = 0,
                      ve_base_err = None, ve_key = None, ve_value = None, ve_err = Some Closed\<rparr>
     | Some inner \<Rightarrow>
         let entries = sort_key fst (filter (\<lambda>(k, vd). starts_with k prefix \<and> start \<le> k) (vi_mem inner)) in
         (case db_new_iter D (vi_db inner) start prefix of
            None \<Rightarrow> None
          | Some base_it \<Rightarrow>
              (case iter_drain D (vi_db inner) base_it [] of
                 None \<Rightarrow> None
               | Some (base_it', base_entries) \<Rightarrow>
                   Some \<lparr>ve_entries = entries, ve_head = 0, ve_base_entries = base_entries, ve_base_head = 0,
                         ve_base_err = db_iter_error D base_it', ve_key = None, ve_value = None,
                         ve_err = None\<rparr>)))"

definition ve_mem_len :: "v_iterator \<Rightarrow> nat" where
  "ve_mem_len it = length (ve_entries it) - ve_head it"

definition ve_base_exhausted :: "v_iterator \<Rightarrow> bool" where
  "ve_base_exhausted it \<longleftrightarrow> length (ve_base_entries it) \<le> ve_base_head it"

definition ve_deliver :: "key \<Rightarrow> db_value \<Rightarrow> v_iterator \<Rightarrow> v_iterator" where
  "ve_deliver k v it = it\<lparr>ve_key := Some k, ve_value := Some v\<rparr>"

text \<open>
  The loop of \<^verbatim>\<open>next\<close>. Where the source pops the overlay its length has just been
  tested, so the head entry exists; indices stay below the lengths, so their
  saturating successors do not saturate.
\<close>

function ve_loop :: "v_iterator \<Rightarrow> v_iterator \<times> bool" where
  "ve_loop it =
    (if ve_base_exhausted it \<and> ve_mem_len it = 0
     then (it\<lparr>ve_key := None, ve_value := None\<rparr>, False)
     else if ve_base_exhausted it then
       let (k, vd) = ve_entries it ! ve_head it;
           it1 = it\<lparr>ve_head := ve_head it + 1\<rparr>
       in if \<not> vo_delete vd then (ve_deliver k (vo_value vd) it1, True) else ve_loop it1
     else if ve_mem_len it = 0 then
       let (k, v) = ve_base_entries it ! ve_base_head it
       in ((ve_deliver k v it)\<lparr>ve_base_head := ve_base_head it + 1\<rparr>, True)
     else
       let (mem_key, vd) = ve_entries it ! ve_head it;
           (db_key, bv) = ve_base_entries it ! ve_base_head it;
           it1 = it\<lparr>ve_head := ve_head it + 1\<rparr>
       in if mem_key < db_key then
            (if \<not> vo_delete vd then (ve_deliver mem_key (vo_value vd) it1, True) else ve_loop it1)
          else if db_key < mem_key then
            ((ve_deliver db_key bv it)\<lparr>ve_base_head := ve_base_head it + 1\<rparr>, True)
          else
            let it2 = it1\<lparr>ve_base_head := ve_base_head it + 1\<rparr> in
            (if \<not> vo_delete vd then (ve_deliver mem_key (vo_value vd) it2, True) else ve_loop it2))"
  by pat_completeness auto
termination
  by (relation "measure (\<lambda>it. length (ve_entries it) - ve_head it + (length (ve_base_entries it) - ve_base_head it))")
    (auto simp: ve_mem_len_def ve_base_exhausted_def)

declare ve_loop.simps [simp del]

definition vdb_iter_next :: "'d versiondb \<Rightarrow> v_iterator \<Rightarrow> v_iterator \<times> bool" where
  "vdb_iter_next v it =
    (if v = None then (it\<lparr>ve_key := None, ve_value := None, ve_err := Some Closed\<rparr>, False) else ve_loop it)"

definition vdb_iter_error :: "v_iterator \<Rightarrow> db_error option" where
  "vdb_iter_error it = (case ve_err it of Some e \<Rightarrow> Some e | None \<Rightarrow> ve_base_err it)"

definition vdb_iter_release :: "v_iterator \<Rightarrow> v_iterator" where
  "vdb_iter_release it =
    it\<lparr>ve_key := None, ve_value := None, ve_entries := [], ve_head := 0, ve_base_entries := [], ve_base_head := 0\<rparr>"

definition version_database :: "('d, 'b, 'i) database \<Rightarrow> ('d versiondb, batch_ops, v_iterator) database" where
  "version_database D =
    \<lparr>db_has = vdb_has D, db_get = vdb_get D, db_put = vdb_put, db_delete = vdb_delete,
     db_compact = vdb_compact D, db_new_batch = (\<lambda>_. bs_new),
     db_batch_put = (\<lambda>_ b k v. (bs_put b k v, Inr ())), db_batch_delete = (\<lambda>_ b k. (bs_delete b k, Inr ())),
     db_batch_size = bs_size, db_batch_write = vdb_batch_write,
     db_batch_reset = bs_reset, db_batch_replay = (\<lambda>_. bs_ops),
     db_new_iter = vdb_new_iter D, db_iter_next = vdb_iter_next, db_iter_error = vdb_iter_error,
     db_iter_key = ve_key, db_iter_value = ve_value, db_iter_release = vdb_iter_release,
     db_close = vdb_close, db_health = vdb_health D\<rparr>"

section \<open>The overlay as a map\<close>

definition overlaid :: "overlay \<Rightarrow> kv_map \<Rightarrow> kv_map" where
  "overlaid mem b k =
    (case map_of mem k of None \<Rightarrow> b k | Some vd \<Rightarrow> if vo_delete vd then None else Some (vo_value vd))"

lemma overlaid_update:
  "overlaid (AList.update k vd mem) b = (overlaid mem b)(k := (if vo_delete vd then None else Some (vo_value vd)))"
  by (auto simp: overlaid_def fun_eq_iff update_conv)

lemma overlaid_Nil [simp]: "overlaid [] b = b"
  by (simp add: overlaid_def fun_eq_iff)

lemma overlaid_batch:
  "distinct (map fst mem) \<Longrightarrow>
    distinct (map fst (foldl (\<lambda>mem x. AList.update (bo_key x)
      \<lparr>vo_value = bo_value x, vo_delete = bo_delete x\<rparr> mem) mem ops)) \<and>
    overlaid (foldl (\<lambda>mem x. AList.update (bo_key x)
      \<lparr>vo_value = bo_value x, vo_delete = bo_delete x\<rparr> mem) mem ops) b = kv_apply ops (overlaid mem b)"
proof (induction ops arbitrary: mem)
  case (Cons x ops)
  let ?m = "AList.update (bo_key x) \<lparr>vo_value = bo_value x, vo_delete = bo_delete x\<rparr> mem"
  have "overlaid ?m b = (overlaid mem b)(bo_key x := (if bo_delete x then None else Some (bo_value x)))"
    unfolding overlaid_update by simp
  then have "kv_apply (x # ops) (overlaid mem b) = kv_apply ops (overlaid ?m b)" by (simp only: kv_apply.simps)
  then show ?case unfolding foldl_Cons using Cons.IH [OF distinct_update [OF Cons.prems]] by (simp only:)
qed simp

text \<open>Writing the overlay's operations in any order of its distinct keys gives the map under the overlay.\<close>

lemma kv_apply_overlay:
  "distinct (map fst mem) \<Longrightarrow> kv_apply (overlay_ops mem) b = overlaid mem b"
proof (induction mem arbitrary: b)
  case (Cons e mem)
  obtain k vd where e: "e = (k, vd)" by fastforce
  from Cons.prems e have k: "map_of mem k = None" by (simp add: map_of_eq_None_iff)
  from Cons e show ?case
    by (auto simp: overlay_ops_def overlaid_def fun_eq_iff k split: option.splits)
qed (simp add: overlay_ops_def)

section \<open>The merge\<close>

fun vmerge :: "(key \<times> vod) list \<Rightarrow> (key \<times> db_value) list \<Rightarrow> (key \<times> db_value) list" where
  "vmerge [] bs = bs"
| "vmerge ((k, vd) # ms) [] = (if vo_delete vd then [] else [(k, vo_value vd)]) @ vmerge ms []"
| "vmerge ((k, vd) # ms) ((k', v) # bs) =
    (if k < k' then (if vo_delete vd then [] else [(k, vo_value vd)]) @ vmerge ms ((k', v) # bs)
     else if k' < k then (k', v) # vmerge ((k, vd) # ms) bs
     else (if vo_delete vd then [] else [(k, vo_value vd)]) @ vmerge ms bs)"

lemma vmerge_keys: "x \<in> set (vmerge ms bs) \<Longrightarrow> fst x \<in> fst ` set ms \<or> fst x \<in> fst ` set bs"
proof (induction ms bs rule: vmerge.induct)
  case (3 k vd ms k' v bs)
  then show ?case by (cases k k' rule: linorder_cases) (auto split: if_splits)
qed (auto split: if_splits)

lemma bt_wf_lower: "bt_wf m \<Longrightarrow> (\<And>x. x \<in> set m \<Longrightarrow> k < fst x) \<Longrightarrow> bt_wf ((k, v) # m)"
  by auto

lemma vmerge_wf: "bt_wf ms \<Longrightarrow> bt_wf bs \<Longrightarrow> bt_wf (vmerge ms bs)"
proof (induction ms bs rule: vmerge.induct)
  case (2 k vd ms)
  have "k < fst x" if "x \<in> set (vmerge ms [])" for x using vmerge_keys [OF that] 2(2) by auto
  with bt_wf_lower [of "vmerge ms []" k "vo_value vd"] 2 show ?case by simp
next
  case (3 k vd ms k' v bs)
  show ?case
  proof (cases k k' rule: linorder_cases)
    case less
    have "k < fst x" if "x \<in> set (vmerge ms ((k', v) # bs))" for x
      using vmerge_keys [OF that] 3(4,5) less by fastforce
    with bt_wf_lower [of "vmerge ms ((k', v) # bs)" k "vo_value vd"] 3 less show ?thesis by simp
  next
    case equal
    have "k < fst x" if "x \<in> set (vmerge ms bs)" for x
      using vmerge_keys [OF that] 3(4,5) equal by fastforce
    with bt_wf_lower [of "vmerge ms bs" k "vo_value vd"] 3 equal show ?thesis by simp
  next
    case greater
    note n = less_not_sym [OF greater]
    have "k' < fst x" if "x \<in> set (vmerge ((k, vd) # ms) bs)" for x
      using vmerge_keys [OF that] 3(4,5) greater by fastforce
    with bt_wf_lower [of "vmerge ((k, vd) # ms) bs" k' v] 3(2,4,5) greater n show ?thesis by simp
  qed
qed simp

lemma vmerge_get: "bt_wf ms \<Longrightarrow> bt_wf bs \<Longrightarrow> map_of (vmerge ms bs) k = overlaid ms (map_of bs) k"
proof (induction ms bs rule: vmerge.induct)
  case (2 j vd ms)
  then have "map_of ms j = None" by (auto simp: map_of_eq_None_iff)
  then show ?case using 2 by (auto simp: overlaid_def split: option.splits)
next
  case (3 j vd ms j' v bs)
  have a: "map_of ms j = None" using 3(4) by (auto simp: map_of_eq_None_iff)
  have b: "map_of bs j' = None" using 3(5) by (auto simp: map_of_eq_None_iff)
  show ?case
  proof (cases j j' rule: linorder_cases)
    case less
    then have "map_of ((j', v) # bs) j = None" using 3(5) by (force simp: map_of_eq_None_iff)
    then show ?thesis using less 3 a by (auto simp: overlaid_def split: option.splits)
  next
    case equal
    then show ?thesis using 3 a b by (auto simp: overlaid_def split: option.splits)
  next
    case greater
    then have "map_of ((j, vd) # ms) j' = None" using 3(4) by (force simp: map_of_eq_None_iff)
    then show ?thesis using greater 3 by (auto simp: overlaid_def split: option.splits)
  qed
qed (simp add: overlaid_def)

abbreviation ve_ms :: "v_iterator \<Rightarrow> (key \<times> vod) list" where
  "ve_ms it \<equiv> drop (ve_head it) (ve_entries it)"

abbreviation ve_bs :: "v_iterator \<Rightarrow> (key \<times> db_value) list" where
  "ve_bs it \<equiv> drop (ve_base_head it) (ve_base_entries it)"

definition ve_rest :: "v_iterator \<Rightarrow> (key \<times> db_value) list" where
  "ve_rest it = vmerge (ve_ms it) (ve_bs it)"

lemma drop_ConsD:
  assumes "drop i xs = y # ys"
  shows "i < length xs" "xs ! i = y" "drop (Suc i) xs = ys"
proof -
  show "i < length xs" using assms by (metis drop_eq_Nil list.distinct(1) not_le)
  then show "xs ! i = y" "drop (Suc i) xs = ys" using assms Cons_nth_drop_Suc [of i xs] by simp_all
qed

lemma ve_ms_facts:
  "ve_ms it = [] \<Longrightarrow> ve_mem_len it = 0"
  "ve_ms it = e # ms \<Longrightarrow> ve_mem_len it \<noteq> 0 \<and> ve_entries it ! ve_head it = e \<and> drop (Suc (ve_head it)) (ve_entries it) = ms"
  using drop_ConsD [of "ve_head it" "ve_entries it" e ms] by (auto simp: ve_mem_len_def)

lemma ve_bs_facts:
  "ve_bs it = [] \<Longrightarrow> ve_base_exhausted it"
  "ve_bs it = f # bs \<Longrightarrow> \<not> ve_base_exhausted it \<and> ve_base_entries it ! ve_base_head it = f
    \<and> drop (Suc (ve_base_head it)) (ve_base_entries it) = bs"
  using drop_ConsD [of "ve_base_head it" "ve_base_entries it" f bs] by (auto simp: ve_base_exhausted_def)

definition ve_post :: "v_iterator \<Rightarrow> (key \<times> db_value) list \<Rightarrow> v_iterator \<times> bool \<Rightarrow> bool" where
  "ve_post it es r \<longleftrightarrow> ve_err (fst r) = ve_err it \<and> ve_base_err (fst r) = ve_base_err it \<and>
    (case es of
       [] \<Rightarrow> \<not> snd r \<and> ve_rest (fst r) = []
     | (k, v) # xs \<Rightarrow> snd r \<and> ve_key (fst r) = Some k \<and> ve_value (fst r) = Some v \<and> ve_rest (fst r) = xs)"

lemma ve_loop_spec:
  "ve_ms it = ms \<Longrightarrow> ve_bs it = bs \<Longrightarrow> ve_post it (vmerge ms bs) (ve_loop it)"
proof (induction ms bs arbitrary: it rule: vmerge.induct)
  case (1 bs)
  show ?case
  proof (cases bs)
    case Nil
    then show ?thesis using 1 ve_ms_facts(1) [of it] ve_bs_facts(1) [of it]
      by (subst ve_loop.simps) (simp add: ve_post_def ve_rest_def)
  next
    case (Cons f bs')
    then show ?thesis using 1 ve_ms_facts(1) [of it] ve_bs_facts(2) [of it f bs']
      by (subst ve_loop.simps) (auto simp: ve_post_def ve_rest_def ve_deliver_def split: prod.splits)
  qed
next
  case (2 k vd ms)
  let ?it = "it\<lparr>ve_head := Suc (ve_head it)\<rparr>"
  note f = ve_ms_facts(2) [OF 2(2)] ve_bs_facts(1) [OF 2(3)]
  show ?case
  proof (cases "vo_delete vd")
    case True
    have "ve_loop it = ve_loop ?it" using f True by (subst ve_loop.simps) simp
    with 2(1) [of ?it] f 2(3) True show ?thesis by (simp add: ve_post_def)
  next
    case False
    then show ?thesis using f 2(3) by (subst ve_loop.simps) (simp add: ve_post_def ve_rest_def ve_deliver_def)
  qed
next
  case (3 k vd ms k' v bs)
  let ?it = "it\<lparr>ve_head := Suc (ve_head it)\<rparr>"
  let ?it2 = "it\<lparr>ve_head := Suc (ve_head it), ve_base_head := Suc (ve_base_head it)\<rparr>"
  note f = ve_ms_facts(2) [OF 3(4)] ve_bs_facts(2) [OF 3(5)]
  show ?case
  proof (cases k k' rule: linorder_cases)
    case less
    show ?thesis
    proof (cases "vo_delete vd")
      case True
      have "ve_loop it = ve_loop ?it" using f True less by (subst ve_loop.simps) simp
      with 3(1) [of ?it] f 3(5) True less show ?thesis by (simp add: ve_post_def)
    next
      case False
      then show ?thesis using f 3(5) less by (subst ve_loop.simps) (simp add: ve_post_def ve_rest_def ve_deliver_def)
    qed
  next
    case equal
    show ?thesis
    proof (cases "vo_delete vd")
      case True
      have "ve_loop it = ve_loop ?it2" using f True equal by (subst ve_loop.simps) simp
      with 3(3) [of ?it2] f True equal show ?thesis by (simp add: ve_post_def)
    next
      case False
      then show ?thesis using f equal by (subst ve_loop.simps) (simp add: ve_post_def ve_rest_def ve_deliver_def)
    qed
  next
    case greater
    then show ?thesis using f 3(4) less_not_sym [OF greater]
      by (subst ve_loop.simps) (simp add: ve_post_def ve_rest_def ve_deliver_def)
  qed
qed

section \<open>The overlay database satisfies the contract\<close>

text \<open>
  The base must be open while the overlay is: the overlay never closes it, and a
  base closed from outside would answer some reads and not others.
\<close>

definition vdb_inv :: "('d \<Rightarrow> bool) \<Rightarrow> ('d \<Rightarrow> kv_map option) \<Rightarrow> 'd versiondb \<Rightarrow> bool" where
  "vdb_inv base_ok content v \<longleftrightarrow>
    (case v of
       None \<Rightarrow> True
     | Some inner \<Rightarrow> base_ok (vi_db inner) \<and> content (vi_db inner) \<noteq> None \<and> distinct (map fst (vi_mem inner)))"

definition vdb_content :: "('d \<Rightarrow> kv_map option) \<Rightarrow> 'd versiondb \<Rightarrow> kv_map option" where
  "vdb_content content v = map_option (\<lambda>inner. overlaid (vi_mem inner) (the (content (vi_db inner)))) v"

definition vdb_rest :: "'d versiondb \<Rightarrow> v_iterator \<Rightarrow> (key \<times> db_value) list" where
  "vdb_rest v it = (if ve_err it \<noteq> None then [] else ve_rest it)"

definition vdb_iok :: "'d versiondb \<Rightarrow> v_iterator \<Rightarrow> bool" where
  "vdb_iok v it \<longleftrightarrow> (ve_err it = None \<and> ve_base_err it = None) \<or>
    (ve_err it = Some Closed \<and> (v = None \<or> (ve_ms it = [] \<and> ve_bs it = [])))"

lemmas vdb_abs = vdb_inv_def vdb_content_def

lemma vdb_iter_end:
  assumes "vdb_iok v it" "vdb_rest v it = [] \<or> v = None" "vdb_iter_next v it = (it', nx)"
  shows "\<not> nx \<and> vdb_iok v it' \<and> vdb_rest v it' = []
    \<and> vdb_iter_error it' = (if v = None then Some Closed else vdb_iter_error it)"
proof (cases "v = None")
  case True
  then show ?thesis using assms by (auto simp: vdb_iter_next_def vdb_iok_def vdb_rest_def vdb_iter_error_def)
next
  case opn: False
  then have n: "ve_loop it = (it', nx)" using assms(3) by (auto simp: vdb_iter_next_def)
  show ?thesis
  proof (cases "ve_err it = None")
    case True
    with assms(2) opn have "vmerge (ve_ms it) (ve_bs it) = []" by (simp add: vdb_rest_def ve_rest_def)
    with ve_loop_spec [of it, OF refl refl] n True assms(1) opn show ?thesis
      by (auto simp: ve_post_def vdb_iok_def vdb_rest_def vdb_iter_error_def)
  next
    case False
    with assms(1) opn have "ve_ms it = []" "ve_bs it = []" by (auto simp: vdb_iok_def)
    with n have "it' = it\<lparr>ve_key := None, ve_value := None\<rparr>" "\<not> nx"
      using ve_ms_facts(1) [of it] ve_bs_facts(1) [of it] by (auto simp: ve_loop.simps [of it])
    with False assms(1) opn show ?thesis by (auto simp: vdb_iok_def vdb_rest_def vdb_iter_error_def)
  qed
qed

lemma vdb_iter_step:
  assumes "vdb_iok v it" "v \<noteq> None" "vdb_rest v it = (k, x) # xs" "vdb_iter_next v it = (it', nx)"
  shows "nx \<and> vdb_iok v it' \<and> vdb_rest v it' = xs \<and> ve_key it' = Some k \<and> ve_value it' = Some x
    \<and> vdb_iter_error it' = vdb_iter_error it"
proof -
  have err: "ve_err it = None" "vmerge (ve_ms it) (ve_bs it) = (k, x) # xs"
    using assms(3) by (auto simp: vdb_rest_def ve_rest_def split: if_splits)
  from ve_loop_spec [of it, OF refl refl] err assms show ?thesis
    by (auto simp: ve_post_def vdb_iok_def vdb_rest_def vdb_iter_error_def vdb_iter_next_def)
qed

lemma map_of_sort_key:
  assumes "distinct (map fst xs)"
  shows "bt_wf (sort_key fst xs)" "map_of (sort_key fst xs) = map_of xs"
proof -
  have d: "distinct (map fst (sort_key fst xs))"
    using assms unfolding distinct_map by simp
  then show "bt_wf (sort_key fst xs)" unfolding bt_wf_def strict_sorted_iff by simp
  show "map_of (sort_key fst xs) = map_of xs" using d assms by (subst map_of_inject_set) simp_all
qed

lemma overlaid_scan:
  fixes start prefix :: key
  assumes "distinct (map fst mem)"
  defines "es \<equiv> sort_key fst (filter (\<lambda>(k, vd). in_scan start prefix k) mem)"
  shows "bt_wf es" "overlaid es (scan_map b start prefix) = scan_map (overlaid mem b) start prefix"
proof -
  have "distinct (map fst (filter (\<lambda>(k, vd). in_scan start prefix k) mem))"
    using assms(1) by (rule distinct_map_filter)
  note s = map_of_sort_key [OF this]
  show "bt_wf es" unfolding es_def by (rule s)
  have "map_of es k = (if in_scan start prefix k then map_of mem k else None)" for k
    unfolding es_def s(2) by (rule map_of_filter_keys [OF assms(1)])
  then show "overlaid es (scan_map b start prefix) = scan_map (overlaid mem b) start prefix"
    by (auto simp: overlaid_def scan_map_def fun_eq_iff split: option.splits)
qed

context kv_store
begin

lemma version_new_iter:
  assumes "vdb_inv inv content v"
  shows "\<exists>it. vdb_new_iter D v s p = Some it \<and> vdb_iok v it \<and>
    (case vdb_content content v of
       None \<Rightarrow> vdb_iter_error it = Some Closed
     | Some m \<Rightarrow> vdb_iter_error it = None \<and> lists_map (vdb_rest v it) (scan_map m s p))"
proof (cases v)
  case None
  then show ?thesis by (simp add: vdb_new_iter_def vdb_iok_def vdb_content_def vdb_iter_error_def)
next
  case (Some inner)
  let ?d = "vi_db inner"
  have inv: "inv ?d" "distinct (map fst (vi_mem inner))" and "content ?d \<noteq> None"
    using assms Some by (auto simp: vdb_inv_def)
  then obtain b where b: "content ?d = Some b" by auto
  from new_iter [OF inv(1), of s p] b obtain bit where
    bit: "db_new_iter D ?d s p = Some bit" "iok ?d bit" "db_iter_error D bit = None"
      "lists_map (rest ?d bit) (scan_map b s p)" by auto
  from drain [OF inv(1) _ bit(2), of "[]"] b bit(3) obtain bit' where
    dr: "iter_drain D ?d bit [] = Some (bit', rest ?d bit)" "db_iter_error D bit' = None" by auto
  let ?es = "sort_key fst (filter (\<lambda>(k, vd). in_scan s p k) (vi_mem inner))"
  note sc = overlaid_scan [OF inv(2), where start = s and prefix = p]
  have wf: "bt_wf (rest ?d bit)" "map_of (rest ?d bit) = scan_map b s p" using bit(4) by (auto simp: lists_map_def)
  have "lists_map (vmerge ?es (rest ?d bit)) (scan_map (overlaid (vi_mem inner) b) s p)"
    unfolding lists_map_def sc(2) [symmetric]
    using vmerge_wf [OF sc(1) wf(1)] vmerge_get [OF sc(1) wf(1)] wf(2) by (auto simp: fun_eq_iff)
  then show ?thesis using Some bit(1) dr b
    by (auto simp: vdb_new_iter_def vdb_iok_def vdb_content_def vdb_iter_error_def vdb_rest_def ve_rest_def Let_def)
qed

lemma version_store:
  "kv_store (version_database D) (vdb_inv inv content) (vdb_content content) (\<lambda>_ _. True) (\<lambda>_. bs_ops) vdb_rest vdb_iok"
proof unfold_locales
  fix v s p assume "vdb_inv inv content v"
  from version_new_iter [OF this, of s p]
  show "\<exists>it. db_new_iter (version_database D) v s p = Some it \<and> vdb_iok v it \<and>
    (case vdb_content content v of None \<Rightarrow> db_iter_error (version_database D) it = Some Closed
     | Some m \<Rightarrow> db_iter_error (version_database D) it = None \<and> lists_map (vdb_rest v it) (scan_map m s p))"
    unfolding version_database_def by (simp only: database.simps)
next
  fix v :: "'d versiondb" and it it' nx
  assume "vdb_iok v it" "vdb_rest v it = [] \<or> vdb_content content v = None"
    "db_iter_next (version_database D) v it = (it', nx)"
  then show "\<not> nx \<and> vdb_iok v it' \<and> vdb_rest v it' = [] \<and> db_iter_error (version_database D) it' =
      (if vdb_content content v = None then Some Closed else db_iter_error (version_database D) it)"
    using vdb_iter_end [of v it it' nx] by (simp add: version_database_def vdb_content_def)
next
  fix v :: "'d versiondb" and it k x xs it' nx
  assume "vdb_iok v it" "vdb_content content v \<noteq> None" "vdb_rest v it = (k, x) # xs"
    "db_iter_next (version_database D) v it = (it', nx)"
  then show "nx \<and> vdb_iok v it' \<and> vdb_rest v it' = xs \<and> db_iter_key (version_database D) it' = Some k \<and>
      db_iter_value (version_database D) it' = Some x \<and>
      db_iter_error (version_database D) it' = db_iter_error (version_database D) it"
    using vdb_iter_step [of v it k x xs it' nx] by (simp add: version_database_def vdb_content_def)
next
  fix v k assume "vdb_inv inv content v"
  then show "db_get (version_database D) v k = kv_get (vdb_content content v) k"
    by (auto simp: version_database_def vdb_abs vdb_get_def kv_get_def get overlaid_def split: option.splits)
next
  fix v k assume "vdb_inv inv content v"
  then show "db_has (version_database D) v k = kv_has (vdb_content content v) k"
    by (auto simp: version_database_def vdb_abs vdb_has_def kv_has_def has overlaid_def split: option.splits)
next
  fix v b v' r
  assume "vdb_inv inv content v" "db_batch_write (version_database D) v b = (v', r)"
  then show "vdb_inv inv content v' \<and> vdb_content content v' = map_option (kv_apply (bs_ops b)) (vdb_content content v)
      \<and> r = kv_done (vdb_content content v)"
    using overlaid_batch
    by (auto simp: version_database_def vdb_abs vdb_batch_write_def kv_done_def split: option.splits)
qed (auto simp: version_database_def vdb_abs kv_done_def vdb_put_def vdb_delete_def vdb_close_def vdb_health_def health
    vdb_compact_def compact bs_put_def bs_delete_def bs_new_def bs_reset_def overlaid_update distinct_update
    split: option.splits)

text \<open>Committing keeps what the overlay database shows and moves it to the base.\<close>

lemma version_commit:
  assumes "vdb_inv inv content (Some inner)" "vdb_commit D (Some inner) = (v', r)"
  shows "r = Inr ()" "\<exists>d'. v' = Some \<lparr>vi_mem = [], vi_db = d'\<rparr> \<and> inv d'
      \<and> content d' = Some (overlaid (vi_mem inner) (the (content (vi_db inner))))"
proof -
  let ?d = "vi_db inner"
  have inv: "inv ?d" "distinct (map fst (vi_mem inner))" and "content ?d \<noteq> None"
    using assms(1) by (auto simp: vdb_inv_def)
  then obtain c where c: "content ?d = Some c" by auto
  obtain b d' r' where w: "bs_replay_onto (db_batch_put D ?d) (db_batch_delete D ?d) (overlay_ops (vi_mem inner))
      (db_new_batch D ?d) = (b, Inr ())" "db_batch_write D ?d b = (d', r')" "inv d'"
      "content d' = map_option (kv_apply (overlay_ops (vi_mem inner))) (content ?d)" "r' = kv_done (content ?d)"
    by (rule write_ops [OF inv(1)])
  have d': "content d' = Some (overlaid (vi_mem inner) c)" "r' = Inr ()"
    using w(4,5) c kv_apply_overlay [OF inv(2)] by (simp_all add: kv_done_def)
  have "vdb_commit D (Some inner) = (Some \<lparr>vi_mem = [], vi_db = d'\<rparr>, Inr ())"
    using w(1,2) d'(2) by (simp add: vdb_commit_def Let_def)
  with assms(2) w(3) d' c show "r = Inr ()" "\<exists>d'. v' = Some \<lparr>vi_mem = [], vi_db = d'\<rparr> \<and> inv d'
      \<and> content d' = Some (overlaid (vi_mem inner) (the (content (vi_db inner))))" by auto
qed

end

lemma commit_batch_ops:
  "bs_ops (foldl (\<lambda>ops (k, vd). if vo_delete vd then bs_delete ops k else bs_put ops k (vo_value vd)) b mem)
    = bs_ops b @ map (\<lambda>x. if bo_delete x then \<lparr>bo_key = bo_key x, bo_value = [], bo_delete = True\<rparr>
        else \<lparr>bo_key = bo_key x, bo_value = bo_value x, bo_delete = False\<rparr>) (overlay_ops mem)"
  by (induction mem arbitrary: b) (auto simp: overlay_ops_def bs_put_def bs_delete_def)

context kv_store
begin

text \<open>The batch handed out by \<^verbatim>\<open>commit_batch\<close> writes the same content to the shared base.\<close>

lemma version_commit_batch:
  assumes "vdb_inv inv content (Some inner)" "vdb_commit_batch (Some inner) = Inr b"
    "vcb_write D (vi_db inner) b = (d', r)"
  shows "r = Inr () \<and> inv d' \<and> content d' = Some (overlaid (vi_mem inner) (the (content (vi_db inner))))"
proof -
  let ?d = "vi_db inner"
  have inv: "inv ?d" "distinct (map fst (vi_mem inner))" and "content ?d \<noteq> None"
    using assms(1) by (auto simp: vdb_inv_def)
  then obtain c where c: "content ?d = Some c" by auto
  have ops: "bs_ops b = map (\<lambda>x. if bo_delete x then \<lparr>bo_key = bo_key x, bo_value = [], bo_delete = True\<rparr>
        else \<lparr>bo_key = bo_key x, bo_value = bo_value x, bo_delete = False\<rparr>) (overlay_ops (vi_mem inner))"
    using assms(2) commit_batch_ops [of bs_new "vi_mem inner"] by (auto simp: vdb_commit_batch_def bs_new_def)
  obtain b' d1 r1 where w: "bs_replay_onto (db_batch_put D ?d) (db_batch_delete D ?d) (bs_ops b)
      (db_new_batch D ?d) = (b', Inr ())" "db_batch_write D ?d b' = (d1, r1)" "inv d1"
      "content d1 = map_option (kv_apply (bs_ops b)) (content ?d)" "r1 = kv_done (content ?d)"
    by (rule write_ops [OF inv(1)])
  have "kv_apply (bs_ops b) c = overlaid (vi_mem inner) c"
    unfolding ops kv_apply_norm by (rule kv_apply_overlay [OF inv(2)])
  with w assms(3) c show ?thesis by (auto simp: vcb_write_def kv_done_def)
qed

end

interpretation verkv: kv_store "version_database mem_database" "vdb_inv mem_inv mem_content"
    "vdb_content mem_content" "\<lambda>_ _. True" "\<lambda>_. bs_ops" vdb_rest vdb_iok
  by (rule memkv.version_store)

end
