(* ===== verification/Ava_Prefixdb.thy ===== *)
theory Ava_Prefixdb
  imports Ava_Versiondb
begin

text \<open>
  Key namespacing of \<^verbatim>\<open>ava-database/src/prefixdb.rs\<close>, over any base database \<open>D\<close>.
  SHA-256 is the parameter \<open>sha\<close>. The buffer pool only recycles allocations and is
  not part of the state; a view holds its base, and views that share a base are
  related through \<open>pd_db\<close>. Over a base that satisfies \<open>kv_store\<close> a view satisfies it
  again: its content is the part of the base under the prefix.
\<close>

section \<open>Model\<close>

definition make_prefix :: "(u8 list \<Rightarrow> u8 list) \<Rightarrow> key \<Rightarrow> key" where
  "make_prefix sha prefix = sha prefix"

definition join_prefixes :: "(u8 list \<Rightarrow> u8 list) \<Rightarrow> key \<Rightarrow> key \<Rightarrow> key" where
  "join_prefixes sha first second = sha (first @ second)"

text \<open>The loop over the reversed bytes: add one, stop unless the byte wrapped to zero.\<close>

fun increment_rev :: "u8 list \<Rightarrow> u8 list" where
  "increment_rev [] = []"
| "increment_rev (b # bs) = (let b' = b + 1 in if b' \<noteq> 0 then b' # bs else b' # increment_rev bs)"

definition increment_byte_slice :: "u8 list \<Rightarrow> u8 list" where
  "increment_byte_slice orig = rev (increment_rev (rev orig))"

record 'd prefixdb =
  pd_prefix :: key
  pd_limit :: key
  pd_closed :: bool
  pd_db :: 'd

definition pdb_new_with :: "key \<Rightarrow> 'd \<Rightarrow> 'd prefixdb" where
  "pdb_new_with db_prefix db =
    \<lparr>pd_prefix = db_prefix, pd_limit = increment_byte_slice db_prefix, pd_closed = False, pd_db = db\<rparr>"

definition pdb_new :: "(u8 list \<Rightarrow> u8 list) \<Rightarrow> key \<Rightarrow> 'd \<Rightarrow> 'd prefixdb" where
  "pdb_new sha prefix db = pdb_new_with (make_prefix sha prefix) db"

definition pdb_new_nested :: "(u8 list \<Rightarrow> u8 list) \<Rightarrow> key \<Rightarrow> 'd \<Rightarrow> 'd prefixdb" where
  "pdb_new_nested sha prefix db = pdb_new_with (make_prefix sha prefix) db"

definition pdb_join :: "(u8 list \<Rightarrow> u8 list) \<Rightarrow> 'd prefixdb \<Rightarrow> key \<Rightarrow> 'd prefixdb" where
  "pdb_join sha p prefix = pdb_new_with (join_prefixes sha (pd_prefix p) prefix) (pd_db p)"

definition prefixed :: "'d prefixdb \<Rightarrow> key \<Rightarrow> key" where
  "prefixed p k = pd_prefix p @ k"

definition pdb_has :: "('d, 'b, 'i) database \<Rightarrow> 'd prefixdb \<Rightarrow> key \<Rightarrow> bool result" where
  "pdb_has D p k = (if pd_closed p then Inl Closed else db_has D (pd_db p) (prefixed p k))"

definition pdb_get :: "('d, 'b, 'i) database \<Rightarrow> 'd prefixdb \<Rightarrow> key \<Rightarrow> db_value result" where
  "pdb_get D p k = (if pd_closed p then Inl Closed else db_get D (pd_db p) (prefixed p k))"

definition pdb_put :: "('d, 'b, 'i) database \<Rightarrow> 'd prefixdb \<Rightarrow> key \<Rightarrow> db_value \<Rightarrow> 'd prefixdb \<times> unit result" where
  "pdb_put D p k v =
    (if pd_closed p then (p, Inl Closed)
     else let (db', r) = db_put D (pd_db p) (prefixed p k) v in (p\<lparr>pd_db := db'\<rparr>, r))"

definition pdb_delete :: "('d, 'b, 'i) database \<Rightarrow> 'd prefixdb \<Rightarrow> key \<Rightarrow> 'd prefixdb \<times> unit result" where
  "pdb_delete D p k =
    (if pd_closed p then (p, Inl Closed)
     else let (db', r) = db_delete D (pd_db p) (prefixed p k) in (p\<lparr>pd_db := db'\<rparr>, r))"

definition pdb_compact :: "('d, 'b, 'i) database \<Rightarrow> 'd prefixdb \<Rightarrow> key option \<Rightarrow> key option \<Rightarrow> unit result" where
  "pdb_compact D p start limit =
    (if pd_closed p then Inl Closed
     else
       let prefixed_start = prefixed p (case start of None \<Rightarrow> [] | Some s \<Rightarrow> s) in
       case limit of
         None \<Rightarrow> db_compact D (pd_db p) (Some prefixed_start) (Some (pd_limit p))
       | Some l \<Rightarrow> db_compact D (pd_db p) (Some prefixed_start) (Some (prefixed p l)))"

definition pdb_close :: "'d prefixdb \<Rightarrow> 'd prefixdb \<times> unit result" where
  "pdb_close p = (if pd_closed p then (p, Inl Closed) else (p\<lparr>pd_closed := True\<rparr>, Inr ()))"

definition pdb_health :: "('d, 'b, 'i) database \<Rightarrow> 'd prefixdb \<Rightarrow> unit result" where
  "pdb_health D p = (if pd_closed p then Inl Closed else db_health D (pd_db p))"

record 'b prefix_batch =
  pb_inner :: 'b
  pb_ops :: batch_ops

definition pdb_new_batch :: "('d, 'b, 'i) database \<Rightarrow> 'd prefixdb \<Rightarrow> 'b prefix_batch" where
  "pdb_new_batch D p = \<lparr>pb_inner = db_new_batch D (pd_db p), pb_ops = bs_new\<rparr>"

definition pdb_batch_put ::
    "('d, 'b, 'i) database \<Rightarrow> 'd prefixdb \<Rightarrow> 'b prefix_batch \<Rightarrow> key \<Rightarrow> db_value \<Rightarrow> 'b prefix_batch \<times> unit result" where
  "pdb_batch_put D p b k v =
    (let pk = prefixed p k;
         (inner, r) = db_batch_put D (pd_db p) (pb_inner b) pk v
     in (\<lparr>pb_inner = inner, pb_ops = bs_put (pb_ops b) pk v\<rparr>, r))"

definition pdb_batch_delete ::
    "('d, 'b, 'i) database \<Rightarrow> 'd prefixdb \<Rightarrow> 'b prefix_batch \<Rightarrow> key \<Rightarrow> 'b prefix_batch \<times> unit result" where
  "pdb_batch_delete D p b k =
    (let pk = prefixed p k;
         (inner, r) = db_batch_delete D (pd_db p) (pb_inner b) pk
     in (\<lparr>pb_inner = inner, pb_ops = bs_delete (pb_ops b) pk\<rparr>, r))"

definition pdb_batch_write :: "('d, 'b, 'i) database \<Rightarrow> 'd prefixdb \<Rightarrow> 'b prefix_batch \<Rightarrow> 'd prefixdb \<times> unit result" where
  "pdb_batch_write D p b =
    (if pd_closed p then (p, Inl Closed)
     else let (db', r) = db_batch_write D (pd_db p) (pb_inner b) in (p\<lparr>pd_db := db'\<rparr>, r))"

definition pdb_batch_reset :: "('d, 'b, 'i) database \<Rightarrow> 'b prefix_batch \<Rightarrow> 'b prefix_batch" where
  "pdb_batch_reset D b = \<lparr>pb_inner = db_batch_reset D (pb_inner b), pb_ops = bs_reset (pb_ops b)\<rparr>"

text \<open>The calls \<^verbatim>\<open>replay\<close> makes on its target: the recorded operations with the prefix cut off.\<close>

definition pdb_batch_replay :: "'d prefixdb \<Rightarrow> 'b prefix_batch \<Rightarrow> batch_op list" where
  "pdb_batch_replay p b = map (\<lambda>x. x\<lparr>bo_key := drop (length (pd_prefix p)) (bo_key x)\<rparr>) (bs_ops (pb_ops b))"

text \<open>
  An iterator holds the base iterator, absent when the view was closed at its
  creation (\<^verbatim>\<open>IteratorError\<close>).
\<close>

record 'i p_iterator =
  pi_inner :: "'i option"
  pi_key :: "key option"
  pi_value :: "db_value option"
  pi_err :: "db_error option"

definition pdb_new_iter :: "('d, 'b, 'i) database \<Rightarrow> 'd prefixdb \<Rightarrow> key \<Rightarrow> key \<Rightarrow> 'i p_iterator option" where
  "pdb_new_iter D p start prefix =
    (if pd_closed p
     then Some \<lparr>pi_inner = None, pi_key = None, pi_value = None, pi_err = Some Closed\<rparr>
     else
       (case db_new_iter D (pd_db p) (prefixed p start) (prefixed p prefix) of
          None \<Rightarrow> None
        | Some inner \<Rightarrow> Some \<lparr>pi_inner = Some inner, pi_key = None, pi_value = None, pi_err = None\<rparr>))"

definition strip_prefix :: "nat \<Rightarrow> key \<Rightarrow> key" where
  "strip_prefix plen k = (if plen \<le> length k then drop plen k else k)"

definition pdb_iter_next :: "('d, 'b, 'i) database \<Rightarrow> 'd prefixdb \<Rightarrow> 'i p_iterator \<Rightarrow> 'i p_iterator \<times> bool" where
  "pdb_iter_next D p it =
    (if pd_closed p then (it\<lparr>pi_key := None, pi_value := None, pi_err := Some Closed\<rparr>, False)
     else
       (case pi_inner it of
          None \<Rightarrow> (it\<lparr>pi_key := None, pi_value := None\<rparr>, False)
        | Some inner \<Rightarrow>
            let (inner', has_next) = db_iter_next D (pd_db p) inner in
            if has_next then
              let k = (case db_iter_key D inner' of None \<Rightarrow> [] | Some k \<Rightarrow> k);
                  v = (case db_iter_value D inner' of None \<Rightarrow> [] | Some v \<Rightarrow> v)
              in (it\<lparr>pi_inner := Some inner', pi_key := Some (strip_prefix (length (pd_prefix p)) k),
                     pi_value := Some v\<rparr>, True)
            else (it\<lparr>pi_inner := Some inner', pi_key := None, pi_value := None\<rparr>, False)))"

definition pdb_iter_error :: "('d, 'b, 'i) database \<Rightarrow> 'i p_iterator \<Rightarrow> db_error option" where
  "pdb_iter_error D it =
    (case pi_err it of
       Some e \<Rightarrow> Some e
     | None \<Rightarrow> (case pi_inner it of None \<Rightarrow> Some Closed | Some inner \<Rightarrow> db_iter_error D inner))"

definition pdb_iter_release :: "('d, 'b, 'i) database \<Rightarrow> 'i p_iterator \<Rightarrow> 'i p_iterator" where
  "pdb_iter_release D it =
    it\<lparr>pi_key := None, pi_value := None, pi_inner := map_option (db_iter_release D) (pi_inner it)\<rparr>"

definition prefix_database :: "('d, 'b, 'i) database \<Rightarrow> ('d prefixdb, 'b prefix_batch, 'i p_iterator) database" where
  "prefix_database D =
    \<lparr>db_has = pdb_has D, db_get = pdb_get D, db_put = pdb_put D, db_delete = pdb_delete D,
     db_compact = pdb_compact D, db_new_batch = pdb_new_batch D,
     db_batch_put = pdb_batch_put D, db_batch_delete = pdb_batch_delete D,
     db_batch_size = (\<lambda>b. db_batch_size D (pb_inner b)), db_batch_write = pdb_batch_write D,
     db_batch_reset = pdb_batch_reset D, db_batch_replay = pdb_batch_replay,
     db_new_iter = pdb_new_iter D, db_iter_next = pdb_iter_next D, db_iter_error = pdb_iter_error D,
     db_iter_key = pi_key, db_iter_value = pi_value, db_iter_release = pdb_iter_release D,
     db_close = pdb_close, db_health = pdb_health D\<rparr>"

section \<open>A view satisfies the contract\<close>

definition pdb_inv :: "('d \<Rightarrow> bool) \<Rightarrow> ('d \<Rightarrow> kv_map option) \<Rightarrow> 'd prefixdb \<Rightarrow> bool" where
  "pdb_inv base_ok content p \<longleftrightarrow> base_ok (pd_db p) \<and> (\<not> pd_closed p \<longrightarrow> content (pd_db p) \<noteq> None)"

definition pdb_content :: "('d \<Rightarrow> kv_map option) \<Rightarrow> 'd prefixdb \<Rightarrow> kv_map option" where
  "pdb_content content p =
    (if pd_closed p then None else map_option (\<lambda>m k. m (pd_prefix p @ k)) (content (pd_db p)))"

definition pdb_bok :: "('d \<Rightarrow> 'b \<Rightarrow> bool) \<Rightarrow> ('d \<Rightarrow> 'b \<Rightarrow> batch_op list) \<Rightarrow> 'd prefixdb \<Rightarrow> 'b prefix_batch \<Rightarrow> bool" where
  "pdb_bok bok bops p b \<longleftrightarrow> bok (pd_db p) (pb_inner b)
    \<and> list_all (\<lambda>x. starts_with (bo_key x) (pd_prefix p)) (bops (pd_db p) (pb_inner b))"

definition pdb_bops :: "('d \<Rightarrow> 'b \<Rightarrow> batch_op list) \<Rightarrow> 'd prefixdb \<Rightarrow> 'b prefix_batch \<Rightarrow> batch_op list" where
  "pdb_bops bops p b =
    map (\<lambda>x. x\<lparr>bo_key := drop (length (pd_prefix p)) (bo_key x)\<rparr>) (bops (pd_db p) (pb_inner b))"

definition pdb_rest :: "('d \<Rightarrow> 'i \<Rightarrow> (key \<times> db_value) list) \<Rightarrow> 'd prefixdb \<Rightarrow> 'i p_iterator \<Rightarrow> (key \<times> db_value) list" where
  "pdb_rest rst p it =
    (case pi_inner it of
       None \<Rightarrow> []
     | Some i \<Rightarrow> if pi_err it \<noteq> None then []
         else map (\<lambda>(k, v). (drop (length (pd_prefix p)) k, v)) (rst (pd_db p) i))"

definition pdb_iok :: "('d \<Rightarrow> 'i \<Rightarrow> (key \<times> db_value) list) \<Rightarrow> ('d \<Rightarrow> 'i \<Rightarrow> bool) \<Rightarrow> 'd prefixdb \<Rightarrow> 'i p_iterator \<Rightarrow> bool" where
  "pdb_iok rst iok p it \<longleftrightarrow>
    (case pi_err it of
       None \<Rightarrow> (case pi_inner it of None \<Rightarrow> False
         | Some i \<Rightarrow> iok (pd_db p) i \<and> list_all (\<lambda>(k, v). starts_with k (pd_prefix p)) (rst (pd_db p) i))
     | Some e \<Rightarrow> e = Closed \<and> (pd_closed p \<or> pi_inner it = None))"

lemmas pdb_abs = pdb_inv_def pdb_content_def

lemma kv_apply_prefixed:
  assumes "list_all (\<lambda>x. starts_with (bo_key x) pre) ops"
  shows "(\<lambda>k. kv_apply ops m (pre @ k))
    = kv_apply (map (\<lambda>x. x\<lparr>bo_key := drop (length pre) (bo_key x)\<rparr>) ops) (\<lambda>k. m (pre @ k))"
  using assms
proof (induction ops arbitrary: m)
  case (Cons x ops)
  then obtain j where j: "bo_key x = pre @ j" by (auto simp: starts_with_append)
  define v where "v = (if bo_delete x then None else Some (bo_value x))"
  let ?strip = "\<lambda>x. x\<lparr>bo_key := drop (length pre) (bo_key x)\<rparr>"
  have 1: "kv_apply (x # ops) m = kv_apply ops (m(bo_key x := v))" by (simp only: kv_apply.simps v_def)
  have 2: "kv_apply (map ?strip (x # ops)) n = kv_apply (map ?strip ops) (n(j := v))" for n
    by (simp add: v_def j)
  have 3: "(\<lambda>k. m (pre @ k))(j := v) = (\<lambda>k. (m(bo_key x := v)) (pre @ k))" by (auto simp: j fun_eq_iff)
  show ?case unfolding 1 2 3 by (rule Cons.IH) (use Cons.prems in simp)
qed simp

lemma map_of_stripped:
  assumes "list_all (\<lambda>(k, v). starts_with k pre) es"
  shows "map_of (map (\<lambda>(k, v). (drop (length pre) k, v)) es) k = map_of es (pre @ k)"
  using assms by (induction es) (auto simp: starts_with_append)

lemma bt_wf_stripped:
  assumes "list_all (\<lambda>(k, v). starts_with k pre) es" "bt_wf es"
  shows "bt_wf (map (\<lambda>(k, v). (drop (length pre) k, v)) es)"
  using assms
proof (induction es)
  case (Cons e es)
  obtain k v where e: "e = (k, v)" by fastforce
  with Cons.prems obtain j where j: "k = pre @ j" by (auto simp: starts_with_append)
  have "j < j'" if "(pre @ j', v') \<in> set es" for j' v'
    using that Cons.prems e j prefix_append_mono [of pre j' j] by (force simp: not_le [symmetric])
  with Cons e j show ?case by (auto simp: list_all_iff starts_with_append)
qed simp

lemma starts_with_prefixed: "starts_with (pre @ k) (pre @ p) \<longleftrightarrow> starts_with k p"
  by (auto simp: starts_with_append)

lemma lists_map_stripped:
  assumes "lists_map es (scan_map m (pre @ s) (pre @ p))"
  shows "list_all (\<lambda>(k, v). starts_with k pre) es"
    "lists_map (map (\<lambda>(k, v). (drop (length pre) k, v)) es) (scan_map (\<lambda>k. m (pre @ k)) s p)"
proof -
  have wf: "bt_wf es" and mo: "map_of es = scan_map m (pre @ s) (pre @ p)" using assms by (auto simp: lists_map_def)
  show pre: "list_all (\<lambda>(k, v). starts_with k pre) es"
  proof (clarsimp simp: list_all_iff)
    fix k v assume "(k, v) \<in> set es"
    then have "map_of es k = Some v" using bt_wf_distinct [OF wf] by simp
    with mo have "starts_with k (pre @ p)" by (auto simp: scan_map_def split: if_splits)
    then show "starts_with k pre" by (auto simp: starts_with_append)
  qed
  show "lists_map (map (\<lambda>(k, v). (drop (length pre) k, v)) es) (scan_map (\<lambda>k. m (pre @ k)) s p)"
    unfolding lists_map_def
    using bt_wf_stripped [OF pre wf] map_of_stripped [OF pre] mo
    by (auto simp: fun_eq_iff scan_map_def starts_with_prefixed prefix_append_mono)
qed

context kv_store
begin

lemma prefix_iter_end:
  assumes "pdb_inv inv content p" "pdb_iok rest iok p it" "pdb_rest rest p it = [] \<or> pdb_content content p = None"
    "pdb_iter_next D p it = (it', nx)"
  shows "\<not> nx \<and> pdb_iok rest iok p it' \<and> pdb_rest rest p it' = []
    \<and> pdb_iter_error D it' = (if pdb_content content p = None then Some Closed else pdb_iter_error D it)"
proof (cases "pd_closed p")
  case True
  then show ?thesis using assms
    by (auto simp: pdb_iter_next_def pdb_iok_def pdb_rest_def pdb_iter_error_def pdb_content_def split: option.splits)
next
  case False
  then have c: "inv (pd_db p)" "content (pd_db p) \<noteq> None" "pdb_content content p \<noteq> None"
    using assms(1) by (auto simp: pdb_abs)
  show ?thesis
  proof (cases "pi_err it")
    case None
    then obtain i where i: "pi_inner it = Some i" "iok (pd_db p) i"
      using assms(2) by (auto simp: pdb_iok_def split: option.splits)
    then have r: "rest (pd_db p) i = []" using assms(3) c None by (auto simp: pdb_rest_def)
    obtain i' n where n: "db_iter_next D (pd_db p) i = (i', n)" by fastforce
    from iter_end [OF c(1) i(2) _ n] r c(2)
    have "\<not> n" "iok (pd_db p) i'" "rest (pd_db p) i' = []" "db_iter_error D i' = db_iter_error D i" by auto
    with assms(4) i(1) n False None c(3) show ?thesis
      by (auto simp: pdb_iter_next_def pdb_iok_def pdb_rest_def pdb_iter_error_def)
  next
    case (Some e)
    then show ?thesis using assms False c
      by (auto simp: pdb_iter_next_def pdb_iok_def pdb_rest_def pdb_iter_error_def)
  qed
qed

lemma prefix_iter_step:
  assumes "pdb_inv inv content p" "pdb_iok rest iok p it" "pdb_content content p \<noteq> None"
    "pdb_rest rest p it = (k, v) # xs" "pdb_iter_next D p it = (it', nx)"
  shows "nx \<and> pdb_iok rest iok p it' \<and> pdb_rest rest p it' = xs \<and> pi_key it' = Some k \<and> pi_value it' = Some v
    \<and> pdb_iter_error D it' = pdb_iter_error D it"
proof -
  from assms(1,3) have c: "inv (pd_db p)" "content (pd_db p) \<noteq> None" "\<not> pd_closed p"
    by (auto simp: pdb_abs split: if_splits)
  let ?strip = "\<lambda>(k, v). (drop (length (pd_prefix p)) k, v)"
  from assms(4) obtain i where i: "pi_inner it = Some i" "pi_err it = None" "map ?strip (rest (pd_db p) i) = (k, v) # xs"
    by (auto simp: pdb_rest_def split: option.splits if_splits)
  with assms(2) have ok: "iok (pd_db p) i" "list_all (\<lambda>(k, v). starts_with k (pd_prefix p)) (rest (pd_db p) i)"
    by (auto simp: pdb_iok_def)
  from i(3) ok(2) obtain ys where ys: "rest (pd_db p) i = (pd_prefix p @ k, v) # ys" "map ?strip ys = xs"
    by (auto simp: starts_with_append split: prod.splits)
  obtain i' n where n: "db_iter_next D (pd_db p) i = (i', n)" by fastforce
  from iter_step [OF c(1) ok(1) c(2) ys(1) n] have "n" "iok (pd_db p) i'" "rest (pd_db p) i' = ys"
    "db_iter_key D i' = Some (pd_prefix p @ k)" "db_iter_value D i' = Some v" "db_iter_error D i' = db_iter_error D i"
    by auto
  with assms(5) i n c ok ys show ?thesis
    by (auto simp: pdb_iter_next_def pdb_iok_def pdb_rest_def pdb_iter_error_def strip_prefix_def)
qed

lemma prefix_new_iter:
  assumes "pdb_inv inv content p"
  shows "\<exists>it. pdb_new_iter D p s pre = Some it \<and> pdb_iok rest iok p it \<and>
    (case pdb_content content p of
       None \<Rightarrow> pdb_iter_error D it = Some Closed
     | Some m \<Rightarrow> pdb_iter_error D it = None \<and> lists_map (pdb_rest rest p it) (scan_map m s pre))"
proof (cases "pd_closed p")
  case True
  then show ?thesis by (simp add: pdb_new_iter_def pdb_iok_def pdb_content_def pdb_iter_error_def)
next
  case False
  then obtain m where c: "inv (pd_db p)" "content (pd_db p) = Some m" using assms by (auto simp: pdb_inv_def)
  from new_iter [OF c(1), of "pd_prefix p @ s" "pd_prefix p @ pre"] c(2)
  obtain i where i: "db_new_iter D (pd_db p) (pd_prefix p @ s) (pd_prefix p @ pre) = Some i" "iok (pd_db p) i"
    "db_iter_error D i = None" "lists_map (rest (pd_db p) i) (scan_map m (pd_prefix p @ s) (pd_prefix p @ pre))"
    by auto
  from lists_map_stripped [OF i(4)] i(1-3) c False show ?thesis
    by (auto simp: pdb_new_iter_def pdb_iok_def pdb_content_def pdb_iter_error_def pdb_rest_def prefixed_def)
qed

lemma prefix_batch_laws:
  assumes "pdb_inv inv content p" "pdb_bok bok bops p b"
  shows "pdb_batch_put D p b k v = (b', r) \<Longrightarrow> pdb_bok bok bops p b' \<and>
      pdb_bops bops p b' = pdb_bops bops p b @ [\<lparr>bo_key = k, bo_value = v, bo_delete = False\<rparr>] \<and> r = Inr ()"
    and "pdb_batch_delete D p b k = (b', r) \<Longrightarrow> pdb_bok bok bops p b' \<and>
      pdb_bops bops p b' = pdb_bops bops p b @ [\<lparr>bo_key = k, bo_value = [], bo_delete = True\<rparr>] \<and> r = Inr ()"
    and "pdb_batch_write D p b = (p', r) \<Longrightarrow> pdb_inv inv content p' \<and>
      pdb_content content p' = map_option (kv_apply (pdb_bops bops p b)) (pdb_content content p) \<and>
      r = kv_done (pdb_content content p)"
proof -
  have b: "inv (pd_db p)" "bok (pd_db p) (pb_inner b)"
    and pre: "list_all (\<lambda>x. starts_with (bo_key x) (pd_prefix p)) (bops (pd_db p) (pb_inner b))"
    using assms by (auto simp: pdb_inv_def pdb_bok_def)
  have sw: "starts_with (pd_prefix p @ j) (pd_prefix p)" for j by (simp add: starts_with_append)
  show "pdb_batch_put D p b k v = (b', r) \<Longrightarrow> pdb_bok bok bops p b' \<and>
      pdb_bops bops p b' = pdb_bops bops p b @ [\<lparr>bo_key = k, bo_value = v, bo_delete = False\<rparr>] \<and> r = Inr ()"
    using batch_put [OF b, of "prefixed p k" v] pre sw
    by (auto simp: pdb_batch_put_def pdb_bok_def pdb_bops_def prefixed_def Let_def split: prod.splits)
  show "pdb_batch_delete D p b k = (b', r) \<Longrightarrow> pdb_bok bok bops p b' \<and>
      pdb_bops bops p b' = pdb_bops bops p b @ [\<lparr>bo_key = k, bo_value = [], bo_delete = True\<rparr>] \<and> r = Inr ()"
    using batch_delete [OF b, of "prefixed p k"] pre sw
    by (auto simp: pdb_batch_delete_def pdb_bok_def pdb_bops_def prefixed_def Let_def split: prod.splits)
  show "pdb_batch_write D p b = (p', r) \<Longrightarrow> pdb_inv inv content p' \<and>
      pdb_content content p' = map_option (kv_apply (pdb_bops bops p b)) (pdb_content content p) \<and>
      r = kv_done (pdb_content content p)"
    using batch_write [OF b] assms(1) kv_apply_prefixed [OF pre]
    by (auto simp: pdb_batch_write_def pdb_abs pdb_bops_def kv_done_def split: if_splits prod.splits option.splits)
qed

lemma prefix_store:
  "kv_store (prefix_database D) (pdb_inv inv content) (pdb_content content) (pdb_bok bok bops) (pdb_bops bops)
    (pdb_rest rest) (pdb_iok rest iok)"
proof unfold_locales
  fix p s pre assume "pdb_inv inv content p"
  from prefix_new_iter [OF this, of s pre]
  show "\<exists>it. db_new_iter (prefix_database D) p s pre = Some it \<and> pdb_iok rest iok p it \<and>
    (case pdb_content content p of None \<Rightarrow> db_iter_error (prefix_database D) it = Some Closed
     | Some m \<Rightarrow> db_iter_error (prefix_database D) it = None \<and> lists_map (pdb_rest rest p it) (scan_map m s pre))"
    unfolding prefix_database_def by (simp only: database.simps)
next
  fix p it it' nx
  assume "pdb_inv inv content p" "pdb_iok rest iok p it" "pdb_rest rest p it = [] \<or> pdb_content content p = None"
    "db_iter_next (prefix_database D) p it = (it', nx)"
  then show "\<not> nx \<and> pdb_iok rest iok p it' \<and> pdb_rest rest p it' = [] \<and> db_iter_error (prefix_database D) it' =
      (if pdb_content content p = None then Some Closed else db_iter_error (prefix_database D) it)"
    using prefix_iter_end [of p it it' nx] by (simp add: prefix_database_def)
next
  fix p it k v xs it' nx
  assume "pdb_inv inv content p" "pdb_iok rest iok p it" "pdb_content content p \<noteq> None"
    "pdb_rest rest p it = (k, v) # xs" "db_iter_next (prefix_database D) p it = (it', nx)"
  then show "nx \<and> pdb_iok rest iok p it' \<and> pdb_rest rest p it' = xs \<and> db_iter_key (prefix_database D) it' = Some k \<and>
      db_iter_value (prefix_database D) it' = Some v \<and>
      db_iter_error (prefix_database D) it' = db_iter_error (prefix_database D) it"
    using prefix_iter_step [of p it k v xs it' nx] by (simp add: prefix_database_def)
next
  fix p k v p' r assume "pdb_inv inv content p" "db_put (prefix_database D) p k v = (p', r)"
  then show "pdb_inv inv content p' \<and> pdb_content content p' = map_option (\<lambda>m. m(k \<mapsto> v)) (pdb_content content p)
      \<and> r = kv_done (pdb_content content p)"
    using put [of "pd_db p" "prefixed p k" v]
    by (auto simp: prefix_database_def pdb_put_def pdb_abs kv_done_def prefixed_def intro!: ext
        split: if_splits prod.splits option.splits)
next
  fix p k p' r assume "pdb_inv inv content p" "db_delete (prefix_database D) p k = (p', r)"
  then show "pdb_inv inv content p' \<and> pdb_content content p' = map_option (\<lambda>m. m(k := None)) (pdb_content content p)
      \<and> r = kv_done (pdb_content content p)"
    using delete [of "pd_db p" "prefixed p k"]
    by (auto simp: prefix_database_def pdb_delete_def pdb_abs kv_done_def prefixed_def intro!: ext
        split: if_splits prod.splits option.splits)
next
  fix p b k v b' r
  assume "pdb_inv inv content p" "pdb_bok bok bops p b" "db_batch_put (prefix_database D) p b k v = (b', r)"
  then show "pdb_bok bok bops p b' \<and>
      pdb_bops bops p b' = pdb_bops bops p b @ [\<lparr>bo_key = k, bo_value = v, bo_delete = False\<rparr>] \<and> r = Inr ()"
    using prefix_batch_laws(1) by (simp add: prefix_database_def)
next
  fix p b k b' r
  assume "pdb_inv inv content p" "pdb_bok bok bops p b" "db_batch_delete (prefix_database D) p b k = (b', r)"
  then show "pdb_bok bok bops p b' \<and>
      pdb_bops bops p b' = pdb_bops bops p b @ [\<lparr>bo_key = k, bo_value = [], bo_delete = True\<rparr>] \<and> r = Inr ()"
    using prefix_batch_laws(2) by (simp add: prefix_database_def)
next
  fix p b p' r
  assume "pdb_inv inv content p" "pdb_bok bok bops p b" "db_batch_write (prefix_database D) p b = (p', r)"
  then show "pdb_inv inv content p' \<and>
      pdb_content content p' = map_option (kv_apply (pdb_bops bops p b)) (pdb_content content p) \<and>
      r = kv_done (pdb_content content p)"
    using prefix_batch_laws(3) by (simp add: prefix_database_def)
next
  fix p lo hi assume "pdb_inv inv content p"
  then show "db_compact (prefix_database D) p lo hi = kv_done (pdb_content content p)"
    by (auto simp: prefix_database_def pdb_compact_def pdb_abs compact kv_done_def Let_def split: option.splits)
next
  fix p k assume "pdb_inv inv content p"
  then show "db_get (prefix_database D) p k = kv_get (pdb_content content p) k"
    and "db_has (prefix_database D) p k = kv_has (pdb_content content p) k"
    by (auto simp: prefix_database_def pdb_get_def pdb_has_def pdb_abs get has kv_get_def kv_has_def prefixed_def
        split: option.splits)
qed (auto simp: prefix_database_def pdb_abs kv_done_def pdb_close_def pdb_health_def health pdb_bok_def pdb_bops_def
    pdb_new_batch_def new_batch pdb_batch_reset_def batch_reset split: option.splits if_splits)

end

section \<open>Views leave the rest of the base alone\<close>

definition frame :: "key \<Rightarrow> kv_map option \<Rightarrow> kv_map option \<Rightarrow> bool" where
  "frame pre c c' \<longleftrightarrow> (\<forall>m. c = Some m \<longrightarrow> (\<exists>m'. c' = Some m' \<and> (\<forall>k. \<not> starts_with k pre \<longrightarrow> m' k = m k)))"

lemma frame_refl: "frame pre c c"
  by (simp add: frame_def)

lemma frame_trans: "frame pre a b \<Longrightarrow> frame pre b c \<Longrightarrow> frame pre a c"
  by (fastforce simp: frame_def)

lemma kv_apply_frame:
  "list_all (\<lambda>x. starts_with (bo_key x) pre) ops \<Longrightarrow> \<not> starts_with k pre \<Longrightarrow> kv_apply ops m k = m k"
  by (induction ops arbitrary: m) auto

context kv_store
begin

lemma prefix_do_frame:
  assumes "pdb_inv inv content p" "db_do (prefix_database D) a p = Some (p', r)"
  shows "pd_prefix p' = pd_prefix p \<and> frame (pd_prefix p) (content (pd_db p)) (content (pd_db p'))"
proof (cases a)
  case (OpPut k v)
  then show ?thesis using assms put [of "pd_db p" "prefixed p k" v] frame_refl
    by (auto simp: prefix_database_def pdb_put_def pdb_inv_def prefixed_def frame_def starts_with_append
        split: prod.splits if_splits)
next
  case (OpDelete k)
  then show ?thesis using assms delete [of "pd_db p" "prefixed p k"] frame_refl
    by (auto simp: prefix_database_def pdb_delete_def pdb_inv_def prefixed_def frame_def starts_with_append
        split: prod.splits if_splits)
next
  case (OpBatch ops)
  let ?P = "prefix_database D"
  note store = prefix_store
  from kv_store.new_batch [OF store assms(1)]
  have n: "pdb_bok bok bops p (db_new_batch ?P p)" by simp
  from kv_store.fill_batch [OF store assms(1) n, of ops]
  obtain b where b: "bs_replay_onto (db_batch_put ?P p) (db_batch_delete ?P p) ops (db_new_batch ?P p) = (b, Inr ())"
    "pdb_bok bok bops p b" by blast
  have w: "pdb_batch_write D p b = (p', snd (pdb_batch_write D p b))"
    using assms(2) OpBatch b(1) by (auto simp: prefix_database_def split: prod.splits)
  have pre: "inv (pd_db p)" "bok (pd_db p) (pb_inner b)"
    "list_all (\<lambda>x. starts_with (bo_key x) (pd_prefix p)) (bops (pd_db p) (pb_inner b))"
    using assms(1) b(2) by (auto simp: pdb_inv_def pdb_bok_def)
  obtain d' r' where d: "db_batch_write D (pd_db p) (pb_inner b) = (d', r')" by fastforce
  from batch_write [OF pre(1,2) d] kv_apply_frame [OF pre(3)] w d show ?thesis
    by (auto simp: pdb_batch_write_def frame_def split: if_splits)
next
  case (OpScan s pre)
  then show ?thesis using assms frame_refl by (auto split: option.splits prod.splits)
qed (use assms frame_refl in \<open>auto simp: prefix_database_def pdb_close_def split: if_splits prod.splits\<close>)

lemma prefix_run_frame:
  assumes "pdb_inv inv content p" "db_run (prefix_database D) as p = Some (p', rs)"
  shows "pd_prefix p' = pd_prefix p \<and> frame (pd_prefix p) (content (pd_db p)) (content (pd_db p'))"
  using assms
proof (induction as arbitrary: p rs)
  case (Cons a as)
  from Cons.prems(2) obtain p1 r rs1 where s: "db_do (prefix_database D) a p = Some (p1, r)"
    "db_run (prefix_database D) as p1 = Some (p', rs1)" by (auto split: option.splits)
  have "pdb_inv inv content p1"
    using kv_store.do_refines [OF prefix_store Cons.prems(1), of a] s(1) by auto
  from Cons.IH [OF this s(2)] prefix_do_frame [OF Cons.prems(1) s(1)] show ?case
    using frame_trans by auto
qed (simp add: frame_refl)

lemma version_run_base:
  assumes "db_run (version_database D) as (Some inner) = Some (Some inner', rs)"
  shows "vi_db inner' = vi_db inner"
proof -
  have step: "v' = None \<or> (\<exists>i. v' = Some i \<and> vi_db i = vi_db inner)"
    if "db_do (version_database D) a (Some inner) = Some (v', r)" for a inner v' r
    using that
    by (cases a) (auto simp: version_database_def vdb_put_def vdb_delete_def vdb_close_def vdb_batch_write_def
        split: prod.splits sum.splits option.splits)
  have closed: "v' = None" if "db_do (version_database D) a None = Some (v', r)" for a v' r
    using that
    by (cases a) (auto simp: version_database_def vdb_put_def vdb_delete_def vdb_close_def vdb_batch_write_def
        split: prod.splits sum.splits option.splits)
  have stuck: "v' = None" if "db_run (version_database D) as None = Some (v', rs)" for as v' rs
    using that closed by (induction as arbitrary: rs) (fastforce split: option.splits)+
  show ?thesis using assms
  proof (induction as arbitrary: inner rs)
    case (Cons a as)
    from Cons.prems obtain v1 r rs1 where s: "db_do (version_database D) a (Some inner) = Some (v1, r)"
      "db_run (version_database D) as v1 = Some (Some inner', rs1)" by (auto split: option.splits)
    from step [OF s(1)] s(2) stuck obtain i where "v1 = Some i" "vi_db i = vi_db inner" by blast
    with Cons.IH [of i rs1] s(2) show ?case by simp
  qed simp
qed

end

section \<open>The end of a prefix's key range\<close>

lemma increment_rev_append:
  "increment_rev (xs @ [a]) =
    (if list_all (\<lambda>b. b = 255) xs then replicate (length xs) 0 @ [a + 1] else increment_rev xs @ [a])"
proof (induction xs)
  case (Cons x xs)
  have "x + 1 = 0 \<longleftrightarrow> x = (255 :: u8)"
  proof
    assume "x + 1 = 0"
    then have "x = 0 - 1" by (metis add_diff_cancel_right')
    then show "x = 255" by simp
  qed simp
  with Cons show ?case by (auto simp: Let_def)
qed (simp add: Let_def)

lemma increment_byte_slice_Cons:
  "increment_byte_slice (a # p) =
    (if list_all (\<lambda>b. b = 255) p then (a + 1) # replicate (length p) 0 else a # increment_byte_slice p)"
  by (simp add: increment_byte_slice_def increment_rev_append list_all_iff)

lemma u8_le_255: "b \<le> (255 :: u8)"
proof -
  have "unat b < 256" using unsigned_less [of b, where 'a = nat] by simp
  then show ?thesis by (simp add: word_le_nat_alt)
qed

lemma not_less_zeros: "n \<le> length s \<Longrightarrow> \<not> s < replicate n (0 :: u8)"
proof (induction n arbitrary: s)
  case (Suc n)
  then obtain b s' where "s = b # s'" "n \<le> length s'" by (cases s) auto
  with Suc.IH [of s'] show ?case by auto
qed simp

lemma u8_less_succ: "a \<noteq> (255 :: u8) \<Longrightarrow> b < a + 1 \<longleftrightarrow> b \<le> a"
proof -
  assume a: "a \<noteq> 255"
  have "unat a \<noteq> 255" using a by (simp add: word_unat_eq_iff)
  moreover have "unat a < 256" using unsigned_less [of a] by simp
  ultimately have "unat (a + 1) = unat a + 1" by (simp add: unat_word_ariths)
  then show ?thesis by (simp add: word_less_nat_alt word_le_nat_alt less_Suc_eq_le)
qed

lemma all_ones_range: "list_all (\<lambda>b. b = (255 :: u8)) p \<Longrightarrow> length p \<le> length k \<Longrightarrow> p \<le> k \<Longrightarrow> starts_with k p"
proof (induction p arbitrary: k)
  case (Cons a p)
  then obtain b s where k: "k = b # s" by (cases k) auto
  have "b \<le> (255 :: u8)" by (rule u8_le_255)
  with Cons k show ?case by (auto simp: starts_with_Cons)
qed simp

lemma prefix_range_iff:
  "length p \<le> length k \<Longrightarrow>
    starts_with k p \<longleftrightarrow> p \<le> k \<and> (list_all (\<lambda>b. b = 255) p \<or> k < increment_byte_slice p)"
proof (induction p arbitrary: k)
  case (Cons a p)
  then obtain b s where k: "k = b # s" and len: "length p \<le> length s" by (cases k) auto
  show ?case
  proof (cases "list_all (\<lambda>b. b = 255) p")
    case True
    note ones = all_ones_range [OF True len]
    show ?thesis
    proof (cases "a = 255")
      case a: True
      have "b \<le> (255 :: u8)" by (rule u8_le_255)
      with a k True ones starts_with_le show ?thesis by (auto simp: starts_with_Cons)
    next
      case a: False
      have "increment_byte_slice (a # p) = (a + 1) # replicate (length p) 0"
        using True by (simp add: increment_byte_slice_Cons)
      with a k ones starts_with_le [of s p] not_less_zeros [OF len] u8_less_succ [OF a, of b] show ?thesis
        by (auto simp: starts_with_Cons)
    qed
  next
    case False
    then have "increment_byte_slice (a # p) = a # increment_byte_slice p"
      by (simp only: increment_byte_slice_Cons if_False)
    with False k Cons.IH [OF len] show ?thesis by (auto simp: starts_with_Cons)
  qed
qed simp

section \<open>Properties\<close>

interpretation prever: kv_store "prefix_database (version_database mem_database)"
    "pdb_inv (vdb_inv mem_inv mem_content) (vdb_content mem_content)" "pdb_content (vdb_content mem_content)"
    "pdb_bok (\<lambda>_ _. True) (\<lambda>_. bs_ops)" "pdb_bops (\<lambda>_. bs_ops)" "pdb_rest vdb_rest" "pdb_iok vdb_rest vdb_iok"
  by (rule verkv.prefix_store)

text \<open>
  C28. The database stack is a sorted map. A prefix view over an overlay over the
  in-memory database, created empty, answers every sequence of reads, writes,
  deletes, batches, prefix scans and closes exactly as a map from keys to values
  does: the same values and errors, scans complete, in key order and free of
  deleted keys, every call returning, and the closed error after a close.
\<close>

theorem database_stack_refines_map:
  "\<exists>p'. db_run (prefix_database (version_database mem_database)) ops (pdb_new sha prefix (vdb_new mem_new))
    = Some (p', snd (map_run ops (Some Map.empty)))"
proof -
  let ?p = "pdb_new sha prefix (vdb_new mem_new)"
  have i: "pdb_inv (vdb_inv mem_inv mem_content) (vdb_content mem_content) ?p"
    by (simp add: pdb_inv_def vdb_inv_def vdb_content_def mem_inv_def mem_content_def pdb_new_def pdb_new_with_def
        vdb_new_def mem_new_def)
  have c: "pdb_content (vdb_content mem_content) ?p = Some Map.empty"
    by (simp add: pdb_content_def vdb_content_def mem_content_def pdb_new_def pdb_new_with_def vdb_new_def mem_new_def)
  from prever.run_refines [OF i, of ops] show ?thesis unfolding c by (metis snd_conv)
qed

text \<open>
  C29. Commit and abort of the overlay. After any sequence of operations on
  an overlay over an in-memory base, the base is untouched until \<^verbatim>\<open>commit\<close>;
  \<^verbatim>\<open>commit\<close> succeeds, empties the overlay and makes the base exactly the map
  that the operations produce from its old content; writing the batch of
  \<^verbatim>\<open>commit_batch\<close> to the base has the same effect; \<^verbatim>\<open>abort\<close> shows the old content again.
\<close>

theorem overlay_commit_abort:
  assumes "bt_wf m" "db_run (version_database mem_database) ops (vdb_new (Some m)) = Some (Some inner, rs)"
  shows "vi_db inner = Some m
    \<and> (\<exists>d'. vdb_commit mem_database (Some inner) = (Some \<lparr>vi_mem = [], vi_db = d'\<rparr>, Inr ())
        \<and> mem_content d' = fst (map_run ops (Some (map_of m))))
    \<and> (\<exists>b d'. vdb_commit_batch (Some inner) = Inr b \<and> vcb_write mem_database (Some m) b = (d', Inr ())
        \<and> mem_content d' = fst (map_run ops (Some (map_of m))))
    \<and> vdb_content mem_content (vdb_abort (Some inner)) = Some (map_of m)"
proof -
  have i: "vdb_inv mem_inv mem_content (vdb_new (Some m))"
    using assms(1) by (simp add: vdb_inv_def vdb_new_def mem_inv_def mem_content_def)
  have c: "vdb_content mem_content (vdb_new (Some m)) = Some (map_of m)"
    by (simp add: vdb_content_def vdb_new_def mem_content_def)
  from verkv.run_refines [OF i, of ops] assms(2) c
  have r: "vdb_inv mem_inv mem_content (Some inner)"
    "fst (map_run ops (Some (map_of m))) = vdb_content mem_content (Some inner)" by auto
  have base: "vi_db inner = Some m"
    using memkv.version_run_base [of ops "\<lparr>vi_mem = [], vi_db = Some m\<rparr>" inner rs] assms(2) by (simp add: vdb_new_def)
  obtain v' r' where cm: "vdb_commit mem_database (Some inner) = (v', r')" by fastforce
  note c1 = memkv.version_commit [OF r(1) cm]
  obtain b where b: "vdb_commit_batch (Some inner) = Inr b" by (simp add: vdb_commit_batch_def)
  obtain d' r'' where w: "vcb_write mem_database (vi_db inner) b = (d', r'')" by fastforce
  note c2 = memkv.version_commit_batch [OF r(1) b w]
  have "\<exists>d'. vdb_commit mem_database (Some inner) = (Some \<lparr>vi_mem = [], vi_db = d'\<rparr>, Inr ())
      \<and> mem_content d' = fst (map_run ops (Some (map_of m)))"
    using cm c1 r(2) by (auto simp: vdb_content_def)
  moreover have "\<exists>b d'. vdb_commit_batch (Some inner) = Inr b \<and> vcb_write mem_database (Some m) b = (d', Inr ())
      \<and> mem_content d' = fst (map_run ops (Some (map_of m)))"
    using b w c2 r(2) base by (auto simp: vdb_content_def)
  moreover have "vdb_content mem_content (vdb_abort (Some inner)) = Some (map_of m)"
    using base by (simp add: vdb_content_def vdb_abort_def mem_content_def)
  ultimately show ?thesis using base by blast
qed

theorem overlay_commit_abort_witness:
  "\<exists>d'. vdb_commit mem_database (Some \<lparr>vi_mem = [([1], \<lparr>vo_value = [2], vo_delete = False\<rparr>)], vi_db = Some [([3], [4])]\<rparr>)
      = (Some \<lparr>vi_mem = [], vi_db = d'\<rparr>, Inr ())
    \<and> mem_content d' = fst (map_run [OpPut [1] [2]] (Some (map_of [([3], [4])])))"
  using overlay_commit_abort [of "[([3], [4])]" "[OpPut [1] [2]]"
      "\<lparr>vi_mem = [([1], \<lparr>vo_value = [2], vo_delete = False\<rparr>)], vi_db = Some [([3], [4])]\<rparr>" "[ObDone (Inr ())]"]
  by (simp add: version_database_def vdb_new_def vdb_put_def)

text \<open>
  C30. Namespaces are isolated. Two prefix views of one base whose hashed prefixes
  have the same length and differ do not see each other: no sequence of operations
  through one view changes what the other view contains.
\<close>

theorem prefix_views_isolated:
  assumes "length (sha a) = length (sha b)" "sha a \<noteq> sha b" "bt_wf m"
    and "db_run (prefix_database mem_database) ops (pdb_new sha a (Some m)) = Some (p', rs)"
  shows "pdb_content mem_content (pdb_new sha b (pd_db p')) = pdb_content mem_content (pdb_new sha b (Some m))"
proof -
  have i: "pdb_inv mem_inv mem_content (pdb_new sha a (Some m))"
    using assms(3) by (simp add: pdb_inv_def pdb_new_def pdb_new_with_def mem_inv_def mem_content_def)
  from memkv.prefix_run_frame [OF i assms(4)]
  obtain m' where m': "mem_content (pd_db p') = Some m'" "\<And>k. \<not> starts_with k (sha a) \<Longrightarrow> m' k = map_of m k"
    by (auto simp: frame_def pdb_new_def pdb_new_with_def make_prefix_def mem_content_def)
  have "\<not> starts_with (sha b @ k) (sha a)" for k
    using assms(1,2) by (simp add: starts_with_def)
  then have "(\<lambda>k. m' (sha b @ k)) = (\<lambda>k. map_of m (sha b @ k))" using m'(2) by auto
  then show ?thesis using m'(1)
    by (simp add: pdb_content_def pdb_new_def pdb_new_with_def make_prefix_def)
      (simp add: mem_content_def)
qed

theorem prefix_views_isolated_witness:
  "pdb_content mem_content (pdb_new (\<lambda>x. take 2 (x @ [0, 0])) [2] (Some [([1, 0, 7], [9])]))
    = pdb_content mem_content (pdb_new (\<lambda>x. take 2 (x @ [0, 0])) [2] (Some []))"
  using prefix_views_isolated [of "\<lambda>x. take 2 (x @ [0, 0])" "[1]" "[2]" "[]" "[OpPut [7] [9]]"
      "(pdb_new (\<lambda>x. take 2 (x @ [0, 0])) [1] (Some [([1, 0, 7], [9])]))" "[ObDone (Inr ())]"]
  by (simp add: prefix_database_def mem_database_def pdb_put_def prefixed_def mem_put_def pdb_new_def pdb_new_with_def
      make_prefix_def)

text \<open>The wrapped increment of an all-0xff prefix ends the range before it starts.\<close>

lemma increment_all_ones_empty_range:
  assumes "0 < n" "replicate n 255 \<le> k"
  shows "\<not> k < increment_byte_slice (replicate n 255)"
proof -
  obtain j where n: "n = Suc j" using assms(1) by (cases n) auto
  have "increment_byte_slice (replicate n 255) = 0 # replicate j 0"
    unfolding n replicate_Suc increment_byte_slice_Cons by (simp add: list_all_iff)
  moreover obtain b s where "k = b # s" "255 \<le> b" using assms(2) n by (cases k) auto
  ultimately show ?thesis by auto
qed

end
