(* ===== verification/Spec2Isabelle.thy ===== *)
theory Spec2Isabelle
  imports Ava_Topo_Run Ava_Poll Ava_Codec_Props Ava_Gastime Ava_Reward Ava_Prefixdb
begin

text \<open>
  Verification of the consensus core and the wire codec of \<^verbatim>\<open>avalanche-rs\<close>, an
  Avalanche node in Rust (\<^verbatim>\<open>crates/\<close>).

  The theories follow the crates, from the leaves up.

  \<^item> \<^verbatim>\<open>Ava_Prelude\<close>: machine integers with saturation, two-element arrays, ordered
    maps and sets as sorted lists.
  \<^item> \<^verbatim>\<open>Ava_Ids\<close>: ids and bit ranges (\<^verbatim>\<open>ava-types\<close>).
  \<^item> \<^verbatim>\<open>Ava_Bag\<close>: vote bags (\<^verbatim>\<open>ava-utils/src/bag.rs\<close>), refined to multisets.
\<close>

end
